(* ===== verification/Rmq_Prelude.thy ===== *)
theory Rmq_Prelude
  imports
    "HOL-Library.AList"
    "HOL-Library.Word"
    "HOL-Library.Signed_Division"
begin

text \<open>
  What the components share: names for the Rust types, machine arithmetic on \<open>i32\<close>, \<open>i64\<close>
  and \<open>usize\<close>, hash maps as association lists, the clock an operation reads, and the
  lemmas on them that the component proofs use.

  Integers. \<open>i32\<close> and \<open>i64\<close> values are \<open>int\<close>s, \<open>usize\<close> and \<open>u64\<close> values are \<open>nat\<close>s; every
  arithmetic operation of the source that can leave the range is written with the
  wrapping function of its width (the behaviour of a release build; a build with overflow
  checks panics exactly where the wrapped result differs from the mathematical one).
  The hash and the counters of the partitioners are \<open>word\<close>s.

  Hash maps. A \<open>HashMap\<close> is an association list without duplicate keys (\<open>hm_wf\<close>), read with
  \<open>map_of\<close>. Its iteration order is unspecified in Rust: where the code iterates, the model
  takes the order as an argument, a function that lists the elements it is given, each once
  (\<open>hash_order\<close>).
\<close>

named_theorems rmq_defs \<open>definitions of the operations, for unfolding a whole component\<close>
named_theorems rmq_wf \<open>preservation of the well-formedness invariants\<close>

type_synonym i32 = int
type_synonym i64 = int
type_synonym usize = nat
type_synonym u64 = nat
type_synonym bytes = "8 word list"
type_synonym ('k, 'v) hashmap = "('k \<times> 'v) list"


section \<open>Machine integers\<close>

definition wrap_i32 :: "int \<Rightarrow> i32" where
  "wrap_i32 x = (x + 2 ^ 31) mod 2 ^ 32 - 2 ^ 31"

definition wrap_i64 :: "int \<Rightarrow> i64" where
  "wrap_i64 x = (x + 2 ^ 63) mod 2 ^ 64 - 2 ^ 63"

definition in_i32 :: "int \<Rightarrow> bool" where
  "in_i32 x \<longleftrightarrow> - (2 ^ 31) \<le> x \<and> x < 2 ^ 31"

definition in_i64 :: "int \<Rightarrow> bool" where
  "in_i64 x \<longleftrightarrow> - (2 ^ 63) \<le> x \<and> x < 2 ^ 63"

text \<open>The cast \<open>x as usize\<close> of an \<open>i64\<close> on a 64-bit target, and \<open>usize\<close> addition.\<close>

definition i64_as_usize :: "i64 \<Rightarrow> usize" where
  "i64_as_usize x = nat (x mod 2 ^ 64)"

definition usize_add :: "usize \<Rightarrow> usize \<Rightarrow> usize" where
  "usize_add a b = (a + b) mod 2 ^ 64"

definition i64_max :: i64 where "i64_max = 2 ^ 63 - 1"

definition i64_min :: i64 where "i64_min = - (2 ^ 63)"

lemma wrap_i32_id [simp]: "in_i32 x \<Longrightarrow> wrap_i32 x = x"
  by (simp add: wrap_i32_def in_i32_def)

lemma wrap_i64_id [simp]: "in_i64 x \<Longrightarrow> wrap_i64 x = x"
  by (simp add: wrap_i64_def in_i64_def)

lemma wrap_i32_in_range [simp]: "in_i32 (wrap_i32 x)"
  using pos_mod_bound [of "2 ^ 32" "x + 2 ^ 31"] pos_mod_sign [of "2 ^ 32" "x + 2 ^ 31"]
  by (simp add: wrap_i32_def in_i32_def)

lemma wrap_i64_in_range [simp]: "in_i64 (wrap_i64 x)"
  using pos_mod_bound [of "2 ^ 64" "x + 2 ^ 63"] pos_mod_sign [of "2 ^ 64" "x + 2 ^ 63"]
  by (simp add: wrap_i64_def in_i64_def)

lemma i64_as_usize_nonneg [simp]: "0 \<le> x \<Longrightarrow> in_i64 x \<Longrightarrow> i64_as_usize x = nat x"
  by (simp add: i64_as_usize_def in_i64_def)

lemma usize_add_small [simp]: "a + b < 2 ^ 64 \<Longrightarrow> usize_add a b = a + b"
  by (simp add: usize_add_def)


section \<open>Hash maps and their iteration order\<close>

definition hm_wf :: "('k, 'v) hashmap \<Rightarrow> bool" where
  "hm_wf m \<longleftrightarrow> distinct (map fst m)"

text \<open>A law of \<open>std::collections::HashSet\<close> and \<open>HashMap\<close>: iteration visits every element once.\<close>

definition hash_order :: "('a list \<Rightarrow> 'a list) \<Rightarrow> bool" where
  "hash_order h \<longleftrightarrow> (\<forall>xs. distinct (h xs) \<and> set (h xs) = set xs)"

lemma hm_wf_Nil [simp]: "hm_wf []"
  by (simp add: hm_wf_def)

lemma hm_wf_update [simp]: "hm_wf m \<Longrightarrow> hm_wf (AList.update k v m)"
  by (simp add: hm_wf_def distinct_update)

lemma hm_wf_delete [simp]: "hm_wf m \<Longrightarrow> hm_wf (AList.delete k m)"
  by (simp add: hm_wf_def distinct_delete)

declare update_conv' [simp] delete_conv' [simp]

lemma keys_update [simp]: "fst ` set (AList.update k v m) = insert k (fst ` set m)"
  by (simp add: dom_update)

lemma keys_map_of: "k \<in> fst ` set m \<longleftrightarrow> map_of m k \<noteq> None"
  by (simp add: map_of_eq_None_iff)

lemma hash_orderD:
  assumes "hash_order h"
  shows "distinct (h xs)" and "set (h xs) = set xs"
  using assms by (auto simp: hash_order_def)

lemma hash_order_remdups [simp]: "hash_order remdups"
  by (simp add: hash_order_def)


section \<open>Time\<close>

text \<open>
  What an operation reads of the clocks. \<open>wall\<close> is what \<open>SystemTime::now()\<close> gives, in
  milliseconds since the Unix epoch (\<open>None\<close> before it); \<open>mono i\<close> is the \<open>i\<close>-th reading of the
  monotonic clock (\<open>Instant\<close>) during the operation, in nanoseconds.
\<close>

record clock =
  wall :: "nat option"
  mono :: "nat \<Rightarrow> nat"

text \<open>\<open>SystemTime::now().duration_since(UNIX_EPOCH).map(|d| d.as_millis() as i64).unwrap_or(0)\<close>\<close>

definition unix_millis :: "clock \<Rightarrow> i64" where
  "unix_millis c = (case wall c of Some ms \<Rightarrow> wrap_i64 (int ms) | None \<Rightarrow> 0)"

definition clock_monotonic :: "clock \<Rightarrow> bool" where
  "clock_monotonic c \<longleftrightarrow> (\<forall>i. mono c i \<le> mono c (Suc i))"


section \<open>Lists\<close>

lemma set_drop_in: "x \<in> set (drop n xs) \<Longrightarrow> x \<in> set xs"
  by (rule in_set_dropD)

lemma tl_drop: "tl xs = drop 1 xs"
  by (cases xs) auto

lemma drop_append_le: "n \<le> length xs \<Longrightarrow> drop n (xs @ ys) = drop n xs @ ys"
  by simp

end
