(* ===== verification/Rmq_Error.thy ===== *)
theory Rmq_Error
  imports Rmq_Prelude
begin

text \<open>
  \<open>src/error.rs\<close>: the error type and the result type of the operations. A Rust function that
  returns \<open>RmqResult<T>\<close> can also panic; the model's result type has both, so that every
  \<open>?\<close>, early return, \<open>expect\<close> and out-of-range index of the source is a branch of the model.
\<close>

datatype rmq_error =
    TopicNotFound string
  | PartitionOutOfRange string i32
  | OffsetOutOfRange string i32 i64
  | GroupNotFound string
  | AlreadySubscribed "string list"
  | NotSubscribed
  | BrokerShutdown
  | BufferFull string i32
  | InvalidConfig string
  | Custom string

text \<open>Why a call panics: \<open>Vec::with_capacity\<close> beyond \<open>isize::MAX\<close> bytes, an index past the end,
  a range whose start is past its end, \<open>Option::expect\<close> on \<open>None\<close>.\<close>

datatype panic =
    CapacityOverflow
  | IndexOutOfBounds
  | RangeStartPastEnd
  | ExpectNone string

datatype 'a res = Ok 'a | Err rmq_error | Panic panic

text \<open>The \<open>?\<close> operator on a result, \<open>Result::map\<close> and \<open>Result::map_err\<close>.\<close>

fun res_bind :: "'a res \<Rightarrow> ('a \<Rightarrow> 'b res) \<Rightarrow> 'b res" where
  "res_bind (Ok x) f = f x"
| "res_bind (Err e) f = Err e"
| "res_bind (Panic p) f = Panic p"

fun res_map :: "('a \<Rightarrow> 'b) \<Rightarrow> 'a res \<Rightarrow> 'b res" where
  "res_map f (Ok x) = Ok (f x)"
| "res_map f (Err e) = Err e"
| "res_map f (Panic p) = Panic p"

text \<open>Collecting an iterator of results that can only panic or fail: the first failure wins.\<close>

fun res_collect :: "'a res list \<Rightarrow> 'a list res" where
  "res_collect [] = Ok []"
| "res_collect (r # rs) = res_bind r (\<lambda>x. res_map (\<lambda>xs. x # xs) (res_collect rs))"

fun is_ok :: "'a res \<Rightarrow> bool" where
  "is_ok (Ok _) = True"
| "is_ok _ = False"

lemma res_bind_eq_Ok: "res_bind r f = Ok y \<longleftrightarrow> (\<exists>x. r = Ok x \<and> f x = Ok y)"
  by (cases r) auto

lemma res_map_eq_Ok [simp]: "res_map f r = Ok y \<longleftrightarrow> (\<exists>x. r = Ok x \<and> y = f x)"
  by (cases r) auto

lemma res_map_eq_Err [simp]: "res_map f r = Err e \<longleftrightarrow> r = Err e"
  by (cases r) auto

lemma res_map_bind: "res_map f (res_bind r g) = res_bind r (\<lambda>x. res_map f (g x))"
  by (cases r) auto

lemma is_ok_iff: "is_ok r \<longleftrightarrow> (\<exists>x. r = Ok x)"
  by (cases r) auto

lemma res_collect_map_Ok [simp]: "res_collect (map (\<lambda>x. Ok (f x)) xs) = Ok (map f xs)"
  by (induction xs) auto

lemma res_collect_Ok_all:
  assumes "\<forall>x \<in> set xs. g x = Ok (f x)"
  shows "res_collect (map g xs) = Ok (map f xs)"
  using assms by (induction xs) auto


section \<open>Results with state\<close>

text \<open>Operations on a state: the \<open>?\<close> operator after a call that may change the state, a call that
  only reads it, and the loop \<open>for x in xs { f(x)?; }\<close>.\<close>

definition st_bind ::
    "('s \<Rightarrow> 'a res \<times> 's) \<Rightarrow> ('a \<Rightarrow> 's \<Rightarrow> 'b res \<times> 's) \<Rightarrow> 's \<Rightarrow> 'b res \<times> 's" where
  "st_bind m f s =
     (case m s of
        (Ok x, s') \<Rightarrow> f x s'
      | (Err e, s') \<Rightarrow> (Err e, s')
      | (Panic p, s') \<Rightarrow> (Panic p, s'))"

definition st_return :: "'a \<Rightarrow> 's \<Rightarrow> 'a res \<times> 's" where
  "st_return x s = (Ok x, s)"

definition st_read :: "('s \<Rightarrow> 'a res) \<Rightarrow> 's \<Rightarrow> 'a res \<times> 's" where
  "st_read f s = (f s, s)"

fun st_for :: "('a \<Rightarrow> 's \<Rightarrow> unit res \<times> 's) \<Rightarrow> 'a list \<Rightarrow> 's \<Rightarrow> unit res \<times> 's" where
  "st_for f [] s = (Ok (), s)"
| "st_for f (x # xs) s = st_bind (f x) (\<lambda>_. st_for f xs) s"

lemma st_bind_Ok: "m s = (Ok x, s') \<Longrightarrow> st_bind m f s = f x s'"
  by (simp add: st_bind_def)

lemma st_bind_Err: "m s = (Err e, s') \<Longrightarrow> st_bind m f s = (Err e, s')"
  by (simp add: st_bind_def)

lemma st_bind_Panic: "m s = (Panic e, s') \<Longrightarrow> st_bind m f s = (Panic e, s')"
  by (simp add: st_bind_def)

lemma st_bind_read [simp]:
  "f s = Ok x \<Longrightarrow> st_bind (st_read f) g s = g x s"
  "f s = Err e \<Longrightarrow> st_bind (st_read f) g s = (Err e, s)"
  "f s = Panic p \<Longrightarrow> st_bind (st_read f) g s = (Panic p, s)"
  by (simp_all add: st_bind_def st_read_def)

lemma st_bind_read_eq:
  "st_bind (st_read f) g s =
     (case f s of Ok x \<Rightarrow> g x s | Err e \<Rightarrow> (Err e, s) | Panic p \<Rightarrow> (Panic p, s))"
  by (simp add: st_bind_def st_read_def split: res.splits)

text \<open>An invariant of the state through a call and its continuation, whatever the result.\<close>

lemma st_bind_keeps:
  assumes "\<And>s. g (snd (m s)) = g s" and "\<And>x s. g (snd (f x s)) = g s"
  shows "g (snd (st_bind m f s)) = g s"
  using assms by (simp add: st_bind_def split: prod.splits res.splits) (metis snd_conv)

lemma st_bind_inv:
  assumes "I (snd (m s))" and "\<And>x. I (snd (m s)) \<Longrightarrow> J (snd (f x (snd (m s))))"
    and "\<And>s. I s \<Longrightarrow> J s"
  shows "J (snd (st_bind m f s))"
  using assms by (auto simp: st_bind_def split: prod.splits res.splits)

lemma st_for_inv:
  assumes "\<And>x s. I s \<Longrightarrow> I (snd (f x s))" and "I s"
  shows "I (snd (st_for f xs s))"
  using assms(2)
proof (induction xs arbitrary: s)
  case Nil
  then show ?case by simp
next
  case (Cons x xs)
  have "I (snd (f x s))" using Cons.prems by (rule assms(1))
  then show ?case
    unfolding st_for.simps by (rule st_bind_inv [where I = I and J = I]) (rule Cons.IH)
qed

end
