(* ===== verification/Headers.thy ===== *)
theory Headers
  imports Rmq_Error
begin

text \<open>
  \<open>src/headers.rs\<close>: message headers, an append-only list of keys with optional byte values.
  Keys may repeat; \<open>get\<close> answers with the first header of a key.
\<close>

record header =
  header_key :: string
  header_value :: "bytes option"

record owned_headers =
  header_list :: "header list"

definition headers_new :: owned_headers where
  "headers_new = \<lparr>header_list = []\<rparr>"

text \<open>The capacity is an allocation hint only.\<close>

definition headers_new_with_capacity :: "usize \<Rightarrow> owned_headers" where
  "headers_new_with_capacity cap = \<lparr>header_list = []\<rparr>"

definition headers_insert :: "header \<Rightarrow> owned_headers \<Rightarrow> owned_headers" where
  "headers_insert h hs = hs\<lparr>header_list := header_list hs @ [h]\<rparr>"

definition headers_get :: "owned_headers \<Rightarrow> string \<Rightarrow> header option" where
  "headers_get hs k = find (\<lambda>h. header_key h = k) (header_list hs)"

definition headers_get_at :: "owned_headers \<Rightarrow> usize \<Rightarrow> header option" where
  "headers_get_at hs i = (if i < length (header_list hs) then Some (header_list hs ! i) else None)"

definition headers_iter :: "owned_headers \<Rightarrow> header list" where
  "headers_iter hs = header_list hs"

definition headers_len :: "owned_headers \<Rightarrow> usize" where
  "headers_len hs = length (header_list hs)"

definition headers_is_empty :: "owned_headers \<Rightarrow> bool" where
  "headers_is_empty hs \<longleftrightarrow> header_list hs = []"

definition headers_count :: "owned_headers \<Rightarrow> usize" where
  "headers_count hs = length (header_list hs)"

lemmas headers_defs = headers_new_def headers_new_with_capacity_def headers_insert_def
  headers_get_def headers_get_at_def headers_iter_def headers_len_def headers_is_empty_def
  headers_count_def

lemma find_append: "find P (xs @ ys) = (case find P xs of Some x \<Rightarrow> Some x | None \<Rightarrow> find P ys)"
  by (induction xs) auto

text \<open>The first header inserted under a key is the one \<open>get\<close> finds, whatever is inserted later.\<close>

lemma headers_get_insert:
  "headers_get (headers_insert h hs) k =
     (case headers_get hs k of
        Some h' \<Rightarrow> Some h'
      | None \<Rightarrow> if header_key h = k then Some h else None)"
  by (simp add: headers_defs find_append split: option.splits)

lemma headers_get_at_insert:
  "headers_get_at (headers_insert h hs) i =
     (if i = headers_len hs then Some h else headers_get_at hs i)"
  by (auto simp: headers_defs nth_append)

lemma headers_len_insert: "headers_len (headers_insert h hs) = Suc (headers_len hs)"
  by (simp add: headers_defs)

end
