(* ===== verification/Message.thy ===== *)
theory Message
  imports Headers
begin

text \<open>
  \<open>src/message.rs\<close>: timestamps, the stored representation of a message, and the two views a
  consumer gets of it, the owned copy and the borrowed message.

  A typed value \<open>Arc<dyn Any>\<close> is a pair of the \<open>TypeId\<close> it was erased from, named by a
  string, and the value, of the type variable \<open>'v\<close> that stands for the union of the
  application's payload types; a downcast succeeds exactly at the erased type. An \<open>Arc\<close> is
  the value it points to: no message is mutated after it is stored.
\<close>

datatype timestamp = NotAvailable | CreateTime i64 | LogAppendTime i64

fun to_millis :: "timestamp \<Rightarrow> i64 option" where
  "to_millis NotAvailable = None"
| "to_millis (CreateTime ms) = Some ms"
| "to_millis (LogAppendTime ms) = Some ms"

definition timestamp_now :: "clock \<Rightarrow> timestamp" where
  "timestamp_now c = CreateTime (unix_millis c)"

datatype 'v dyn_any = DynAny (any_type: string) (any_value: 'v)

definition downcast_ref :: "string \<Rightarrow> 'v dyn_any \<Rightarrow> 'v option" where
  "downcast_ref t a = (if any_type a = t then Some (any_value a) else None)"

record 'v stored_message =
  msg_key :: "bytes option"
  msg_payload :: "bytes option"
  msg_typed_payload :: "'v dyn_any option"
  msg_typed_key :: "'v dyn_any option"
  msg_topic :: string
  msg_partition :: i32
  msg_offset :: i64
  msg_timestamp :: i64
  msg_headers :: "owned_headers option"
  msg_created_at :: nat

definition stored_new ::
    "bytes option \<Rightarrow> bytes option \<Rightarrow> string \<Rightarrow> i32 \<Rightarrow> i64 \<Rightarrow> i64 \<Rightarrow> owned_headers option \<Rightarrow> nat
     \<Rightarrow> 'v stored_message" where
  "stored_new key payload topic part offset ts headers created_at =
     \<lparr>msg_key = key, msg_payload = payload, msg_typed_payload = None, msg_typed_key = None,
      msg_topic = topic, msg_partition = part, msg_offset = offset, msg_timestamp = ts,
      msg_headers = headers, msg_created_at = created_at\<rparr>"

definition stored_new_typed ::
    "'v dyn_any \<Rightarrow> 'v dyn_any option \<Rightarrow> string \<Rightarrow> i32 \<Rightarrow> i64 \<Rightarrow> i64 \<Rightarrow> owned_headers option \<Rightarrow> nat
     \<Rightarrow> 'v stored_message" where
  "stored_new_typed typed_payload typed_key topic part offset ts headers created_at =
     \<lparr>msg_key = None, msg_payload = None, msg_typed_payload = Some typed_payload,
      msg_typed_key = typed_key, msg_topic = topic, msg_partition = part,
      msg_offset = offset, msg_timestamp = ts, msg_headers = headers,
      msg_created_at = created_at\<rparr>"

definition typed_payload_ref :: "string \<Rightarrow> 'v stored_message \<Rightarrow> 'v option" where
  "typed_payload_ref t m = Option.bind (msg_typed_payload m) (downcast_ref t)"

definition typed_key_ref :: "string \<Rightarrow> 'v stored_message \<Rightarrow> 'v option" where
  "typed_key_ref t m = Option.bind (msg_typed_key m) (downcast_ref t)"

text \<open>The same downcasts of a clone of the \<open>Arc\<close>.\<close>

definition typed_payload_arc :: "string \<Rightarrow> 'v stored_message \<Rightarrow> 'v option" where
  "typed_payload_arc t m = Option.bind (msg_typed_payload m) (downcast_ref t)"

definition typed_key_arc :: "string \<Rightarrow> 'v stored_message \<Rightarrow> 'v option" where
  "typed_key_arc t m = Option.bind (msg_typed_key m) (downcast_ref t)"

definition has_typed_payload :: "'v stored_message \<Rightarrow> bool" where
  "has_typed_payload m \<longleftrightarrow> msg_typed_payload m \<noteq> None"

record owned_message =
  om_payload :: "bytes option"
  om_key :: "bytes option"
  om_topic :: string
  om_partition :: i32
  om_offset :: i64
  om_timestamp :: timestamp
  om_headers :: "owned_headers option"

definition to_owned_message :: "'v stored_message \<Rightarrow> owned_message" where
  "to_owned_message m =
     \<lparr>om_payload = msg_payload m, om_key = msg_key m, om_topic = msg_topic m,
      om_partition = msg_partition m, om_offset = msg_offset m,
      om_timestamp = CreateTime (msg_timestamp m), om_headers = msg_headers m\<rparr>"

text \<open>A \<open>BorrowedMessage\<close> is a shared reference to the stored message.\<close>

record 'v borrowed_message =
  bm_inner :: "'v stored_message"

definition borrowed_new :: "'v stored_message \<Rightarrow> 'v borrowed_message" where
  "borrowed_new m = \<lparr>bm_inner = m\<rparr>"

definition borrowed_detach :: "'v borrowed_message \<Rightarrow> owned_message" where
  "borrowed_detach b = to_owned_message (bm_inner b)"

definition borrowed_timestamp :: "'v borrowed_message \<Rightarrow> timestamp" where
  "borrowed_timestamp b = CreateTime (msg_timestamp (bm_inner b))"

text \<open>
  What the required methods of the trait \<open>Message\<close> answer, for the owned and for the borrowed
  message, which reads the fields of the stored one.
\<close>

record message_view =
  mv_key :: "bytes option"
  mv_payload :: "bytes option"
  mv_topic :: string
  mv_partition :: i32
  mv_offset :: i64
  mv_timestamp :: timestamp
  mv_headers :: "owned_headers option"

definition owned_view :: "owned_message \<Rightarrow> message_view" where
  "owned_view m =
     \<lparr>mv_key = om_key m, mv_payload = om_payload m, mv_topic = om_topic m,
      mv_partition = om_partition m, mv_offset = om_offset m, mv_timestamp = om_timestamp m,
      mv_headers = om_headers m\<rparr>"

definition borrowed_view :: "'v borrowed_message \<Rightarrow> message_view" where
  "borrowed_view b =
     \<lparr>mv_key = msg_key (bm_inner b), mv_payload = msg_payload (bm_inner b),
      mv_topic = msg_topic (bm_inner b), mv_partition = msg_partition (bm_inner b),
      mv_offset = msg_offset (bm_inner b), mv_timestamp = borrowed_timestamp b,
      mv_headers = msg_headers (bm_inner b)\<rparr>"

text \<open>A detached message reads like the one it was detached from.\<close>

lemma detached_view: "owned_view (borrowed_detach b) = borrowed_view b"
  by (simp add: owned_view_def borrowed_view_def borrowed_detach_def to_owned_message_def
      borrowed_timestamp_def)

text \<open>
  The default methods of the trait \<open>Message\<close>, for the borrowed message: decoding applies the
  application's \<open>FromBytes\<close> to the bytes that are there.
\<close>

definition decode_payload :: "(bytes \<Rightarrow> 'a option) \<Rightarrow> 'v borrowed_message \<Rightarrow> 'a option" where
  "decode_payload from_bytes b = Option.bind (msg_payload (bm_inner b)) from_bytes"

definition decode_key :: "(bytes \<Rightarrow> 'a option) \<Rightarrow> 'v borrowed_message \<Rightarrow> 'a option" where
  "decode_key from_bytes b = Option.bind (msg_key (bm_inner b)) from_bytes"

lemmas stored_defs = stored_new_def stored_new_typed_def

lemma stored_new_sel [simp]:
  "msg_offset (stored_new k p t i off ts h c) = off"
  "msg_topic (stored_new k p t i off ts h c) = t"
  "msg_partition (stored_new k p t i off ts h c) = i"
  "msg_created_at (stored_new k p t i off ts h c) = c"
  "msg_key (stored_new k p t i off ts h c) = k"
  "msg_payload (stored_new k p t i off ts h c) = p"
  "msg_timestamp (stored_new k p t i off ts h c) = ts"
  "msg_headers (stored_new k p t i off ts h c) = h"
  "\<not> has_typed_payload (stored_new k p t i off ts h c)"
  by (simp_all add: stored_new_def has_typed_payload_def)

lemma stored_new_typed_sel [simp]:
  "msg_offset (stored_new_typed tp tk t i off ts h c) = off"
  "msg_topic (stored_new_typed tp tk t i off ts h c) = t"
  "msg_partition (stored_new_typed tp tk t i off ts h c) = i"
  "msg_created_at (stored_new_typed tp tk t i off ts h c) = c"
  "msg_timestamp (stored_new_typed tp tk t i off ts h c) = ts"
  "msg_payload (stored_new_typed tp tk t i off ts h c) = None"
  "msg_typed_payload (stored_new_typed tp tk t i off ts h c) = Some tp"
  "has_typed_payload (stored_new_typed tp tk t i off ts h c)"
  by (simp_all add: stored_new_typed_def has_typed_payload_def)

end
