(* ===== verification/Topic_Partition.thy ===== *)
theory Topic_Partition
  imports Rmq_Error
begin

text \<open>
  \<open>src/topic_partition.rs\<close>: symbolic and absolute offsets, and the list of topic-partitions
  that assignments, commits and positions are exchanged in.
\<close>

datatype offset = Beginning | End | Stored | Offset i64 | OffsetTail i64

record topic_partition_elem =
  tpe_topic :: string
  tpe_partition :: i32
  tpe_offset :: offset

record topic_partition_list =
  tpl_elements :: "topic_partition_elem list"

definition tpl_new :: topic_partition_list where
  "tpl_new = \<lparr>tpl_elements = []\<rparr>"

definition tpl_with_capacity :: "usize \<Rightarrow> topic_partition_list" where
  "tpl_with_capacity cap = \<lparr>tpl_elements = []\<rparr>"

text \<open>The Rust method returns a mutable reference to the new element; no caller in the crate
  uses it.\<close>

definition tpl_add_partition ::
    "string \<Rightarrow> i32 \<Rightarrow> topic_partition_list \<Rightarrow> topic_partition_list" where
  "tpl_add_partition t p l =
     l\<lparr>tpl_elements := tpl_elements l @ [\<lparr>tpe_topic = t, tpe_partition = p, tpe_offset = Stored\<rparr>]\<rparr>"

definition tpl_add_partition_offset ::
    "string \<Rightarrow> i32 \<Rightarrow> offset \<Rightarrow> topic_partition_list \<Rightarrow> topic_partition_list" where
  "tpl_add_partition_offset t p off l =
     l\<lparr>tpl_elements := tpl_elements l @ [\<lparr>tpe_topic = t, tpe_partition = p, tpe_offset = off\<rparr>]\<rparr>"

definition tpl_find_partition ::
    "topic_partition_list \<Rightarrow> string \<Rightarrow> i32 \<Rightarrow> topic_partition_elem option" where
  "tpl_find_partition l t p = find (\<lambda>e. tpe_topic e = t \<and> tpe_partition e = p) (tpl_elements l)"

definition tpl_elements_for_topic ::
    "topic_partition_list \<Rightarrow> string \<Rightarrow> topic_partition_elem list" where
  "tpl_elements_for_topic l t = filter (\<lambda>e. tpe_topic e = t) (tpl_elements l)"

definition tpl_count :: "topic_partition_list \<Rightarrow> usize" where
  "tpl_count l = length (tpl_elements l)"

lemmas tpl_defs = tpl_new_def tpl_with_capacity_def tpl_add_partition_def
  tpl_add_partition_offset_def tpl_find_partition_def tpl_elements_for_topic_def tpl_count_def

text \<open>The topic-partitions of a list, in order.\<close>

definition tpl_keys :: "topic_partition_list \<Rightarrow> (string \<times> i32) list" where
  "tpl_keys l = map (\<lambda>e. (tpe_topic e, tpe_partition e)) (tpl_elements l)"

lemma tpl_keys_new [simp]: "tpl_keys tpl_new = []"
  by (simp add: tpl_keys_def tpl_new_def)

lemma tpl_keys_add [simp]: "tpl_keys (tpl_add_partition t p l) = tpl_keys l @ [(t, p)]"
  by (simp add: tpl_keys_def tpl_add_partition_def)

lemma tpl_keys_add_offset [simp]:
  "tpl_keys (tpl_add_partition_offset t p off l) = tpl_keys l @ [(t, p)]"
  by (simp add: tpl_keys_def tpl_add_partition_offset_def)

lemma tpl_find_iff: "tpl_find_partition l t p \<noteq> None \<longleftrightarrow> (t, p) \<in> set (tpl_keys l)"
  by (auto simp: tpl_find_partition_def tpl_keys_def find_None_iff)

end
