(* ===== verification/Commit_Log.thy ===== *)
theory Commit_Log
  imports Rmq_Error
begin

text \<open>
  The contract between a log and its readers, as the consumers of \<open>src/base_consumer.rs\<close> rely
  on it for one partition of \<open>src/partition.rs\<close>: a log holds the messages of a window of
  offsets; appends extend the window, eviction moves its low end up, and a message that is
  still in the window is the message that was there before. \<open>reads\<close> is one reader of the log,
  interleaved with steps of the log: it fetches at its position and moves past what it got, and
  it restarts at \<open>start\<close> when its position is out of range.
\<close>

inductive reads ::
    "('s \<Rightarrow> int \<Rightarrow> 'm option res) \<Rightarrow> ('s \<Rightarrow> int) \<Rightarrow> ('s \<Rightarrow> 's \<Rightarrow> bool)
     \<Rightarrow> 's \<Rightarrow> int \<Rightarrow> 'm list \<Rightarrow> 's \<Rightarrow> int \<Rightarrow> bool"
  for fetch :: "'s \<Rightarrow> int \<Rightarrow> 'm option res" and start :: "'s \<Rightarrow> int" and step :: "'s \<Rightarrow> 's \<Rightarrow> bool"
  where
  reads_begin: "reads fetch start step s pos [] s pos"
| reads_env: "reads fetch start step s pos ms t q \<Longrightarrow> step t u \<Longrightarrow>
    reads fetch start step s pos ms u q"
| reads_message: "reads fetch start step s pos ms t q \<Longrightarrow> fetch t q = Ok (Some m) \<Longrightarrow>
    reads fetch start step s pos (ms @ [m]) t (q + 1)"
| reads_restart: "reads fetch start step s pos ms t q \<Longrightarrow> fetch t q = Err e \<Longrightarrow>
    reads fetch start step s pos ms t (start t)"

locale commit_log =
  fixes inv :: "'s \<Rightarrow> bool"
    and low :: "'s \<Rightarrow> int"
    and high :: "'s \<Rightarrow> int"
    and start :: "'s \<Rightarrow> int"
    and fetch :: "'s \<Rightarrow> int \<Rightarrow> 'm option res"
    and step :: "'s \<Rightarrow> 's \<Rightarrow> bool"
    and off :: "'m \<Rightarrow> int"
  assumes low_high: "inv s \<Longrightarrow> low s \<le> high s"
    and start_low: "inv s \<Longrightarrow> start s \<le> low s"
    and fetch_hit: "inv s \<Longrightarrow> low s \<le> i \<Longrightarrow> i < high s \<Longrightarrow>
          \<exists>m. fetch s i = Ok (Some m) \<and> off m = i"
    and fetch_some: "inv s \<Longrightarrow> fetch s i = Ok (Some m) \<Longrightarrow> low s \<le> i \<and> i < high s"
    and fetch_err: "inv s \<Longrightarrow> fetch s i = Err e \<Longrightarrow> i < low s \<or> high s < i"
    and step_inv: "inv s \<Longrightarrow> step s t \<Longrightarrow> inv t"
    and step_low: "inv s \<Longrightarrow> step s t \<Longrightarrow> low s \<le> low t"
    and step_high: "inv s \<Longrightarrow> step s t \<Longrightarrow> high s \<le> high t"
    and step_fetch: "inv s \<Longrightarrow> step s t \<Longrightarrow> low t \<le> i \<Longrightarrow> i < high s \<Longrightarrow> fetch t i = fetch s i"
begin

lemma fetch_some_off:
  assumes "inv s" and "fetch s i = Ok (Some m)"
  shows "off m = i"
  using fetch_hit [OF assms(1), of i] fetch_some [OF assms] assms(2) by auto

lemma run_inv: "step\<^sup>*\<^sup>* s t \<Longrightarrow> inv s \<Longrightarrow> inv t"
  by (induction rule: rtranclp_induct) (auto intro: step_inv)

lemma run_low: "step\<^sup>*\<^sup>* s t \<Longrightarrow> inv s \<Longrightarrow> low s \<le> low t"
  by (induction rule: rtranclp_induct) (auto intro: order_trans step_low run_inv)

lemma run_high: "step\<^sup>*\<^sup>* s t \<Longrightarrow> inv s \<Longrightarrow> high s \<le> high t"
  by (induction rule: rtranclp_induct) (auto intro: order_trans step_high run_inv)

text \<open>A message that is still in the window is the one that was there before.\<close>

lemma run_fetch:
  assumes "step\<^sup>*\<^sup>* s t" and "inv s" and "low t \<le> i" and "i < high s"
  shows "fetch t i = fetch s i"
  using assms
proof (induction rule: rtranclp_induct)
  case base
  then show ?case by simp
next
  case (step u t)
  have u: "inv u" "high s \<le> high u"
    using step.hyps(1) step.prems(1) by (auto intro: run_inv run_high)
  have "low u \<le> low t" using u(1) step.hyps(2) by (rule step_low)
  then have "fetch u i = fetch s i" using step.IH step.prems by simp
  moreover have "fetch t i = fetch u i"
    using step_fetch [OF u(1) step.hyps(2)] step.prems u(2) by simp
  ultimately show ?case by simp
qed

text \<open>
  What a reader has got: strictly increasing offsets, each of them now behind its position
  or evicted; and no offset between its starting point and its position is missing unless it
  has been evicted.
\<close>

lemma reads_invariant:
  assumes "reads fetch start step s pos ms t q" and "inv s" and "pos \<le> high s"
  shows "inv t \<and> q \<le> high t \<and> sorted_wrt (<) (map off ms) \<and>
    (\<forall>m \<in> set ms. off m < q \<or> off m < low t) \<and>
    (\<forall>i. pos \<le> i \<longrightarrow> i < q \<longrightarrow> i \<in> off ` set ms \<or> i < low t)"
  using assms
proof (induction rule: reads.induct)
  case (reads_begin s pos)
  then show ?case by auto
next
  case (reads_env s pos ms t q u)
  note IH = reads_env.IH [OF reads_env.prems]
  then have "low t \<le> low u" "high t \<le> high u" "inv u"
    using reads_env.hyps(2) by (auto intro: step_low step_high step_inv)
  with IH show ?case by fastforce
next
  case (reads_message s pos ms t q m)
  note IH = reads_message.IH [OF reads_message.prems]
  then have m: "low t \<le> q" "q < high t" "off m = q"
    using reads_message.hyps(2) by (auto dest: fetch_some fetch_some_off)
  have "\<forall>i. pos \<le> i \<longrightarrow> i < q + 1 \<longrightarrow> i \<in> off ` set (ms @ [m]) \<or> i < low t"
    using IH m(3) by (auto simp: order_less_le)
  moreover have "\<forall>m' \<in> set (ms @ [m]). off m' < q + 1 \<or> off m' < low t"
    using IH m by force
  moreover have "sorted_wrt (<) (map off (ms @ [m]))"
    using IH m by (force simp: sorted_wrt_append)
  ultimately show ?case using IH m by simp
next
  case (reads_restart s pos ms t q e)
  note IH = reads_restart.IH [OF reads_restart.prems]
  then have "q < low t"
    using reads_restart.hyps(2) fetch_err [of t q e] by auto
  moreover have "start t \<le> low t" "low t \<le> high t"
    using IH start_low low_high by auto
  ultimately show ?case using IH by fastforce
qed

end

end
