(* ===== verification/Partition.thy ===== *)
theory Partition
  imports Message Commit_Log
begin

text \<open>
  \<open>src/partition.rs\<close>: one partition, an append-only log of messages in a bounded buffer with
  eviction policies. The buffer holds a window of the log: the last \<open>length buf_log\<close> offsets
  before \<open>next_offset\<close>.

  Each operation of the code runs under the buffer's lock, so it is one function from the
  state before to the result and the state after. Waking the waiting consumers is the number
  of \<open>notify\<close> calls so far. The eviction loop reads the monotonic clock once per message it
  looks at: reading \<open>i\<close> of its argument.
\<close>


section \<open>Eviction policies\<close>

datatype eviction_policy =
    TimeEviction (retention_ms: u64)
  | CapacityEviction (retention_capacity: usize)

text \<open>\<open>Instant::elapsed\<close> saturates at zero and is truncated to milliseconds, then to \<open>u64\<close>.\<close>

definition elapsed_ms :: "nat \<Rightarrow> nat \<Rightarrow> u64" where
  "elapsed_ms now created_at = ((now - created_at) div 1000000) mod 2 ^ 64"

fun should_evict :: "nat \<Rightarrow> eviction_policy \<Rightarrow> usize \<Rightarrow> 'v stored_message \<Rightarrow> bool" where
  "should_evict now (TimeEviction r) len m \<longleftrightarrow> elapsed_ms now (msg_created_at m) > r"
| "should_evict now (CapacityEviction r) len m \<longleftrightarrow> len > r"

record partition_config =
  pc_max_capacity :: usize
  pc_retention_ms :: "u64 option"
  pc_retention_capacity :: "usize option"

definition build_policies :: "partition_config \<Rightarrow> eviction_policy list" where
  "build_policies c =
     (case pc_retention_ms c of Some ms \<Rightarrow> [TimeEviction ms] | None \<Rightarrow> []) @
     (case pc_retention_capacity c of Some n \<Rightarrow> [CapacityEviction n] | None \<Rightarrow> [])"


section \<open>State\<close>

record 'v partition_buffer =
  buf_log :: "'v stored_message list"
  next_offset :: i64
  max_capacity :: usize
  policies :: "eviction_policy list"

record 'v partition =
  topic_name :: string
  partition_id :: i32
  buffer :: "'v partition_buffer"
  notifications :: nat

definition partition_new :: "string \<Rightarrow> i32 \<Rightarrow> partition_config \<Rightarrow> 'v partition" where
  "partition_new t i c =
     \<lparr>topic_name = t, partition_id = i,
      buffer = \<lparr>buf_log = [], next_offset = 0, max_capacity = pc_max_capacity c,
                policies = build_policies c\<rparr>,
      notifications = 0\<rparr>"

definition notify :: "'v partition \<Rightarrow> 'v partition" where
  "notify p = p\<lparr>notifications := Suc (notifications p)\<rparr>"


section \<open>Operations\<close>

fun evict_loop ::
    "(nat \<Rightarrow> nat) \<Rightarrow> eviction_policy list \<Rightarrow> 'v stored_message list \<Rightarrow> 'v stored_message list" where
  "evict_loop now ps [] = []"
| "evict_loop now ps (m # ms) =
     (if list_ex (\<lambda>p. should_evict (now 0) p (length (m # ms)) m) ps
      then evict_loop (\<lambda>i. now (Suc i)) ps ms
      else m # ms)"

definition evict_buffer :: "(nat \<Rightarrow> nat) \<Rightarrow> 'v partition_buffer \<Rightarrow> 'v partition_buffer" where
  "evict_buffer now buf = buf\<lparr>buf_log := evict_loop now (policies buf) (buf_log buf)\<rparr>"

definition partition_evict :: "(nat \<Rightarrow> nat) \<Rightarrow> 'v partition \<Rightarrow> 'v partition" where
  "partition_evict now p = p\<lparr>buffer := evict_buffer now (buffer p)\<rparr>"

text \<open>The common body of \<open>append\<close> and \<open>append_typed\<close>; \<open>mk\<close> builds the message from its offset.\<close>

definition append_message ::
    "clock \<Rightarrow> (i64 \<Rightarrow> 'v stored_message) \<Rightarrow> 'v partition \<Rightarrow> (i32 \<times> i64) res \<times> 'v partition" where
  "append_message c mk p =
     (let buf = buffer p;
          off = next_offset buf;
          buf = buf\<lparr>next_offset := wrap_i64 (off + 1)\<rparr>;
          buf = buf\<lparr>buf_log := buf_log buf @ [mk off]\<rparr>;
          buf = (if 0 < max_capacity buf \<and> max_capacity buf \<le> length (buf_log buf)
                 then buf\<lparr>buf_log := tl (buf_log buf)\<rparr> else buf);
          buf = evict_buffer (\<lambda>i. mono c (Suc i)) buf
      in (Ok (partition_id p, off), notify (p\<lparr>buffer := buf\<rparr>)))"

definition partition_append ::
    "clock \<Rightarrow> bytes option \<Rightarrow> bytes option \<Rightarrow> owned_headers option \<Rightarrow> i64 option
     \<Rightarrow> 'v partition \<Rightarrow> (i32 \<times> i64) res \<times> 'v partition" where
  "partition_append c key payload headers ts p =
     (let ts = (case ts of Some t \<Rightarrow> t | None \<Rightarrow> unix_millis c)
      in append_message c
           (\<lambda>off. stored_new key payload (topic_name p) (partition_id p) off ts headers (mono c 0))
           p)"

definition partition_append_typed ::
    "clock \<Rightarrow> 'v dyn_any \<Rightarrow> 'v dyn_any option \<Rightarrow> owned_headers option \<Rightarrow> i64 option
     \<Rightarrow> 'v partition \<Rightarrow> (i32 \<times> i64) res \<times> 'v partition" where
  "partition_append_typed c typed_payload typed_key headers ts p =
     (let ts = (case ts of Some t \<Rightarrow> t | None \<Rightarrow> unix_millis c)
      in append_message c
           (\<lambda>off. stored_new_typed typed_payload typed_key (topic_name p) (partition_id p) off ts
                    headers (mono c 0))
           p)"

definition out_of_range :: "'v partition \<Rightarrow> i64 \<Rightarrow> rmq_error" where
  "out_of_range p off = OffsetOutOfRange (topic_name p) (partition_id p) off"

definition read_one :: "'v partition \<Rightarrow> i64 \<Rightarrow> 'v stored_message option res" where
  "read_one p off =
     (let lg = buf_log (buffer p); nxt = next_offset (buffer p)
      in if lg = [] then
           (if off = 0 \<or> off = nxt then Ok None else Err (out_of_range p off))
         else
           (let oldest = wrap_i64 (nxt - int (length lg))
            in if off < oldest \<or> off > nxt then Err (out_of_range p off)
               else if off = nxt then Ok None
               else (let idx = i64_as_usize (wrap_i64 (off - oldest))
                     in if idx < length lg then Ok (Some (lg ! idx))
                        else Panic IndexOutOfBounds)))"

definition partition_read :: "'v partition \<Rightarrow> i64 \<Rightarrow> usize \<Rightarrow> 'v stored_message list res" where
  "partition_read p off max_count =
     (let lg = buf_log (buffer p); nxt = next_offset (buffer p)
      in if lg = [] then
           (if off = 0 \<or> off = nxt then Ok [] else Err (out_of_range p off))
         else
           (let oldest = wrap_i64 (nxt - int (length lg))
            in if off < oldest \<or> off > nxt then Err (out_of_range p off)
               else if off = nxt then Ok []
               else (let start = i64_as_usize (wrap_i64 (off - oldest));
                         stop = min (usize_add start max_count) (length lg)
                     in if stop < start then Panic RangeStartPastEnd
                        else Ok (take (stop - start) (drop start lg)))))"

definition partition_watermarks :: "'v partition \<Rightarrow> i64 \<times> i64" where
  "partition_watermarks p =
     (let lg = buf_log (buffer p); nxt = next_offset (buffer p);
          newest = wrap_i64 (nxt - 1);
          oldest = (if lg = [] then 0 else wrap_i64 (nxt - int (length lg)))
      in (oldest, newest))"

definition message_count :: "'v partition \<Rightarrow> i64" where
  "message_count p = int (length (buf_log (buffer p)))"



section \<open>The window invariant\<close>

text \<open>\<open>offsets_from b ms\<close>: the messages carry the consecutive offsets \<open>b, b + 1, \<dots>\<close>.\<close>

definition offsets_from :: "i64 \<Rightarrow> 'v stored_message list \<Rightarrow> bool" where
  "offsets_from b ms \<longleftrightarrow> (\<forall>i < length ms. msg_offset (ms ! i) = b + int i)"

definition first_offset :: "'v partition \<Rightarrow> i64" where
  "first_offset p = next_offset (buffer p) - int (length (buf_log (buffer p)))"

definition end_offset :: "'v partition \<Rightarrow> i64" where
  "end_offset p = next_offset (buffer p)"

definition wf_partition :: "'v partition \<Rightarrow> bool" where
  "wf_partition p \<longleftrightarrow>
     0 \<le> first_offset p \<and> end_offset p < 2 ^ 63 \<and>
     offsets_from (first_offset p) (buf_log (buffer p)) \<and>
     (\<forall>m \<in> set (buf_log (buffer p)).
        msg_topic m = topic_name p \<and> msg_partition m = partition_id p) \<and>
     (0 < max_capacity (buffer p) \<longrightarrow> length (buf_log (buffer p)) < max_capacity (buffer p))"

lemma offsets_from_snoc:
  "offsets_from b (ms @ [m]) \<longleftrightarrow> offsets_from b ms \<and> msg_offset m = b + int (length ms)"
  by (auto simp: offsets_from_def nth_append less_Suc_eq)

lemma offsets_from_drop:
  "offsets_from b ms \<Longrightarrow> n \<le> length ms \<Longrightarrow> offsets_from (b + int n) (drop n ms)"
  by (auto simp: offsets_from_def)

lemma evict_loop_suffix: "\<exists>n \<le> length ms. evict_loop now ps ms = drop n ms"
proof (induction now ps ms rule: evict_loop.induct)
  case (1 now ps)
  then show ?case by simp
next
  case (2 now ps m ms)
  then show ?case
    by (cases "list_ex (\<lambda>p. should_evict (now 0) p (length (m # ms)) m) ps")
       (auto simp del: should_evict.simps intro: exI [of _ 0] exI [of _ "Suc _"])
qed

lemma evict_loop_no_policy [simp]: "evict_loop now [] ms = ms"
  by (cases ms) auto

lemma evict_loop_length: "length (evict_loop now ps ms) \<le> length ms"
  using evict_loop_suffix [of ms now ps] by auto

lemma evict_buffer_sel [simp]:
  "next_offset (evict_buffer now b) = next_offset b"
  "max_capacity (evict_buffer now b) = max_capacity b"
  "policies (evict_buffer now b) = policies b"
  "buf_log (evict_buffer now b) = evict_loop now (policies b) (buf_log b)"
  by (simp_all add: evict_buffer_def)

text \<open>
  The eviction loop exactly: it drops the longest prefix in which every message is named by
  some policy when it has become the front, at the clock reading of its turn.
\<close>

lemma evict_loop_exact:
  "\<exists>n \<le> length ms. evict_loop now ps ms = drop n ms \<and>
     (\<forall>i < n. \<exists>p \<in> set ps. should_evict (now i) p (length ms - i) (ms ! i)) \<and>
     (n < length ms \<longrightarrow> (\<forall>p \<in> set ps. \<not> should_evict (now n) p (length ms - n) (ms ! n)))"
proof (induction now ps ms rule: evict_loop.induct)
  case (1 now ps)
  then show ?case by simp
next
  case (2 now ps m ms)
  let ?c = "list_ex (\<lambda>p. should_evict (now 0) p (length (m # ms)) m) ps"
  show ?case
  proof (cases ?c)
    case True
    obtain n where n: "n \<le> length ms" "evict_loop (\<lambda>i. now (Suc i)) ps ms = drop n ms"
      "\<forall>i < n. \<exists>p \<in> set ps. should_evict (now (Suc i)) p (length ms - i) (ms ! i)"
      "n < length ms \<longrightarrow>
        (\<forall>p \<in> set ps. \<not> should_evict (now (Suc n)) p (length ms - n) (ms ! n))"
      using "2.IH" [OF True] by blast
    have "\<exists>p \<in> set ps. should_evict (now i) p (length (m # ms) - i) ((m # ms) ! i)"
      if "i < Suc n" for i
      using that True n(3)
      by (cases i) (auto simp: list_ex_iff simp del: should_evict.simps)
    then show ?thesis
      using True n by (intro exI [of _ "Suc n"]) (simp del: should_evict.simps)
  next
    case False
    then show ?thesis
      by (intro exI [of _ 0]) (auto simp: list_ex_iff simp del: should_evict.simps)
  qed
qed

lemma evict_loop_capacity:
  assumes "CapacityEviction r \<in> set ps"
  shows "length (evict_loop now ps ms) \<le> r"
proof -
  obtain n where "n \<le> length ms" "evict_loop now ps ms = drop n ms"
    "n < length ms \<longrightarrow> (\<forall>p \<in> set ps. \<not> should_evict (now n) p (length ms - n) (ms ! n))"
    using evict_loop_exact by blast
  with assms show ?thesis by (cases "n < length ms") fastforce+
qed

lemma evict_loop_capacity_only:
  "evict_loop now [CapacityEviction r] ms = drop (length ms - r) ms"
  by (induction ms arbitrary: now) (auto simp: Suc_diff_le)



section \<open>Appending\<close>

lemma notify_sel [simp]:
  "topic_name (notify p) = topic_name p" "partition_id (notify p) = partition_id p"
  "buffer (notify p) = buffer p" "notifications (notify p) = Suc (notifications p)"
  by (simp_all add: notify_def)

lemma append_message_sel [simp]:
  "fst (append_message c mk p) = Ok (partition_id p, end_offset p)"
  "topic_name (snd (append_message c mk p)) = topic_name p"
  "partition_id (snd (append_message c mk p)) = partition_id p"
  "next_offset (buffer (snd (append_message c mk p))) = wrap_i64 (end_offset p + 1)"
  "max_capacity (buffer (snd (append_message c mk p))) = max_capacity (buffer p)"
  "policies (buffer (snd (append_message c mk p))) = policies (buffer p)"
  "notifications (snd (append_message c mk p)) = Suc (notifications p)"
  by (simp_all add: append_message_def Let_def end_offset_def)

text \<open>The capacity check: the front goes when the buffer has reached its capacity.\<close>

definition trim :: "usize \<Rightarrow> 'a list \<Rightarrow> 'a list" where
  "trim cap xs = (if 0 < cap \<and> cap \<le> length xs then tl xs else xs)"

lemma append_message_log:
  "buf_log (buffer (snd (append_message c mk p))) =
     evict_loop (\<lambda>i. mono c (Suc i)) (policies (buffer p))
       (trim (max_capacity (buffer p)) (buf_log (buffer p) @ [mk (end_offset p)]))"
  by (simp add: append_message_def Let_def trim_def end_offset_def)

lemma trim_suffix: "\<exists>n \<le> length xs. trim cap xs = drop n xs"
  by (cases xs) (auto simp: trim_def intro: exI [of _ 0] exI [of _ 1])

lemma append_message_suffix:
  "\<exists>n \<le> Suc (length (buf_log (buffer p))).
     buf_log (buffer (snd (append_message c mk p))) =
       drop n (buf_log (buffer p) @ [mk (end_offset p)])"
proof -
  define xs where "xs = buf_log (buffer p) @ [mk (end_offset p)]"
  obtain n where n: "n \<le> length xs" "trim (max_capacity (buffer p)) xs = drop n xs"
    using trim_suffix by blast
  obtain k where k: "k \<le> length (drop n xs)"
    "evict_loop (\<lambda>i. mono c (Suc i)) (policies (buffer p)) (drop n xs) = drop k (drop n xs)"
    using evict_loop_suffix by blast
  have "buf_log (buffer (snd (append_message c mk p))) = drop (k + n) xs"
    using n(2) k(2) by (simp add: append_message_log xs_def [symmetric])
  moreover have "k + n \<le> Suc (length (buf_log (buffer p)))"
    using n(1) k(1) by (simp add: xs_def)
  ultimately show ?thesis by (auto simp: xs_def)
qed

lemma append_message_length:
  assumes "0 < max_capacity (buffer p)" and "length (buf_log (buffer p)) < max_capacity (buffer p)"
  shows "length (buf_log (buffer (snd (append_message c mk p)))) < max_capacity (buffer p)"
proof -
  let ?xs = "buf_log (buffer p) @ [mk (end_offset p)]"
  have "length (trim (max_capacity (buffer p)) ?xs) < max_capacity (buffer p)"
    using assms by (auto simp: trim_def)
  then show ?thesis
    using evict_loop_length [of "\<lambda>i. mono c (Suc i)" "policies (buffer p)"]
    by (auto simp: append_message_log intro: le_less_trans)
qed

lemma wf_append_message:
  assumes wf: "wf_partition p" and room: "end_offset p + 1 < 2 ^ 63"
    and mk: "msg_offset (mk (end_offset p)) = end_offset p"
      "msg_topic (mk (end_offset p)) = topic_name p"
      "msg_partition (mk (end_offset p)) = partition_id p"
  shows "wf_partition (snd (append_message c mk p))"
proof -
  let ?q = "snd (append_message c mk p)"
  let ?lg = "buf_log (buffer p)"
  let ?m = "mk (end_offset p)"
  obtain n where n: "n \<le> Suc (length ?lg)" "buf_log (buffer ?q) = drop n (?lg @ [?m])"
    using append_message_suffix by blast
  have first: "first_offset p = end_offset p - int (length ?lg)" "0 \<le> first_offset p"
    using wf by (simp_all add: first_offset_def end_offset_def wf_partition_def)
  then have "in_i64 (end_offset p + 1)"
    using room by (simp add: in_i64_def)
  then have next_q: "next_offset (buffer ?q) = end_offset p + 1" by simp
  have "length (buf_log (buffer ?q)) = Suc (length ?lg) - n"
    unfolding n(2) by simp
  then have first_q: "first_offset ?q = first_offset p + int n"
    using n(1) first(1) unfolding first_offset_def [of ?q] next_q by simp
  have "offsets_from (first_offset p) (?lg @ [?m])"
    using wf mk first by (simp add: wf_partition_def offsets_from_snoc)
  then have "offsets_from (first_offset ?q) (buf_log (buffer ?q))"
    using offsets_from_drop [of "first_offset p" "?lg @ [?m]" n] n by (simp add: first_q)
  moreover have "\<forall>m \<in> set (buf_log (buffer ?q)).
      msg_topic m = topic_name ?q \<and> msg_partition m = partition_id ?q"
    using wf mk unfolding n(2) wf_partition_def by (auto dest!: in_set_dropD)
  moreover have "0 < max_capacity (buffer ?q) \<longrightarrow>
      length (buf_log (buffer ?q)) < max_capacity (buffer ?q)"
    using wf append_message_length [of p c mk] by (simp add: wf_partition_def)
  ultimately show ?thesis
    using first(2) first_q room unfolding wf_partition_def end_offset_def [of ?q] next_q by simp
qed

lemma wf_append [rmq_wf]:
  assumes "wf_partition p" and "end_offset p + 1 < 2 ^ 63"
  shows "wf_partition (snd (partition_append c k pl h ts p))"
  unfolding partition_append_def Let_def by (rule wf_append_message [OF assms]) simp_all

lemma wf_append_typed [rmq_wf]:
  assumes "wf_partition p" and "end_offset p + 1 < 2 ^ 63"
  shows "wf_partition (snd (partition_append_typed c tp tk h ts p))"
  unfolding partition_append_typed_def Let_def by (rule wf_append_message [OF assms]) simp_all

lemma partition_evict_sel [simp]:
  "topic_name (partition_evict now p) = topic_name p"
  "partition_id (partition_evict now p) = partition_id p"
  "end_offset (partition_evict now p) = end_offset p"
  "max_capacity (buffer (partition_evict now p)) = max_capacity (buffer p)"
  "policies (buffer (partition_evict now p)) = policies (buffer p)"
  "buf_log (buffer (partition_evict now p)) =
     evict_loop now (policies (buffer p)) (buf_log (buffer p))"
  by (simp_all add: partition_evict_def end_offset_def)

lemma wf_evict [rmq_wf]:
  assumes wf: "wf_partition p"
  shows "wf_partition (partition_evict now p)"
proof -
  let ?lg = "buf_log (buffer p)"
  obtain n where n: "n \<le> length ?lg" "evict_loop now (policies (buffer p)) ?lg = drop n ?lg"
    using evict_loop_suffix by blast
  have "first_offset (partition_evict now p) = first_offset p + int n"
    using n by (simp add: first_offset_def partition_evict_def)
  moreover have "offsets_from (first_offset p + int n) (drop n ?lg)"
    using wf n(1) by (simp add: wf_partition_def offsets_from_drop)
  ultimately show ?thesis
    using wf n by (auto simp: wf_partition_def dest: in_set_dropD)
qed

lemma wf_notify [simp]: "wf_partition (notify p) = wf_partition p"
  by (simp add: wf_partition_def first_offset_def end_offset_def)

lemma wf_new [rmq_wf]: "wf_partition (partition_new t i c)"
  by (simp add: wf_partition_def partition_new_def first_offset_def end_offset_def
      offsets_from_def)



section \<open>Reading\<close>

lemma wf_partitionD:
  assumes "wf_partition p"
  shows "0 \<le> first_offset p" and "first_offset p \<le> end_offset p" and "end_offset p < 2 ^ 63"
    and "first_offset p + int (length (buf_log (buffer p))) = end_offset p"
    and "offsets_from (first_offset p) (buf_log (buffer p))"
  using assms by (auto simp: wf_partition_def first_offset_def end_offset_def)

lemma wf_partition_log_empty:
  "wf_partition p \<Longrightarrow> buf_log (buffer p) = [] \<longleftrightarrow> first_offset p = end_offset p"
  by (simp add: first_offset_def end_offset_def)

lemma wf_partition_message:
  assumes "wf_partition p" and "m \<in> set (buf_log (buffer p))"
  shows "msg_topic m = topic_name p" and "msg_partition m = partition_id p"
  using assms by (auto simp: wf_partition_def)

text \<open>What \<open>read_one\<close> answers, on every branch, for a well-formed partition.\<close>

lemma read_one_wf:
  assumes wf: "wf_partition p"
  shows "read_one p off =
    (if first_offset p \<le> off \<and> off < end_offset p
       then Ok (Some (buf_log (buffer p) ! nat (off - first_offset p)))
     else if off = end_offset p \<or> (off = 0 \<and> first_offset p = end_offset p) then Ok None
     else Err (out_of_range p off))"
proof (cases "buf_log (buffer p) = []")
  case True
  then have "first_offset p = end_offset p" by (simp add: wf_partition_log_empty [OF wf])
  with True show ?thesis by (auto simp: read_one_def Let_def end_offset_def)
next
  case False
  note d = wf_partitionD [OF wf]
  have ne: "first_offset p \<noteq> end_offset p" using False wf_partition_log_empty [OF wf] by simp
  have "in_i64 (first_offset p)" using d by (simp add: in_i64_def)
  then have oldest: "wrap_i64 (end_offset p - int (length (buf_log (buffer p)))) = first_offset p"
    by (simp add: first_offset_def end_offset_def)
  have idx: "i64_as_usize (wrap_i64 (off - first_offset p)) = nat (off - first_offset p)"
    "nat (off - first_offset p) < length (buf_log (buffer p))"
    if "first_offset p \<le> off" "off < end_offset p"
  proof -
    have "in_i64 (off - first_offset p)" using that d by (simp add: in_i64_def)
    then show "i64_as_usize (wrap_i64 (off - first_offset p)) = nat (off - first_offset p)"
      using that by simp
    show "nat (off - first_offset p) < length (buf_log (buffer p))"
      using that d(4) by linarith
  qed
  show ?thesis
    using False idx d(2) ne
    by (auto simp: read_one_def Let_def end_offset_def [symmetric] oldest)
qed

lemma read_one_hit:
  assumes wf: "wf_partition p" and "first_offset p \<le> off" and "off < end_offset p"
  shows "\<exists>m \<in> set (buf_log (buffer p)). read_one p off = Ok (Some m) \<and> msg_offset m = off"
proof -
  let ?i = "nat (off - first_offset p)"
  have i: "?i < length (buf_log (buffer p))"
    using assms wf_partitionD(4) [OF wf] by linarith
  then have "msg_offset (buf_log (buffer p) ! ?i) = off"
    using wf_partitionD(5) [OF wf] assms(2) by (simp add: offsets_from_def)
  with i assms show ?thesis by (auto simp: read_one_wf [OF wf])
qed

lemma partition_watermarks_wf:
  assumes wf: "wf_partition p"
  shows "partition_watermarks p =
    (if first_offset p = end_offset p then 0 else first_offset p, end_offset p - 1)"
proof -
  note d = wf_partitionD [OF wf]
  have "in_i64 (first_offset p)" "in_i64 (end_offset p - 1)" using d by (auto simp: in_i64_def)
  then have "wrap_i64 (next_offset (buffer p) - int (length (buf_log (buffer p)))) = first_offset p"
    "wrap_i64 (next_offset (buffer p) - 1) = end_offset p - 1"
    by (simp_all add: first_offset_def end_offset_def)
  then show ?thesis
    by (simp add: partition_watermarks_def Let_def wf_partition_log_empty [OF wf])
qed

text \<open>A bulk read is the list of single reads from its offset on.\<close>

lemma partition_read_wf:
  assumes wf: "wf_partition p" and "first_offset p \<le> off" and "off < end_offset p"
    and small: "max_count < 2 ^ 63"
  shows "partition_read p off max_count =
    Ok (take max_count (drop (nat (off - first_offset p)) (buf_log (buffer p))))"
proof -
  note d = wf_partitionD [OF wf]
  let ?lg = "buf_log (buffer p)"
  let ?s = "nat (off - first_offset p)"
  have ne: "?lg \<noteq> []" using assms wf_partition_log_empty [OF wf] by auto
  have "in_i64 (first_offset p)" "in_i64 (off - first_offset p)"
    using assms d by (auto simp: in_i64_def)
  then have w: "wrap_i64 (end_offset p - int (length ?lg)) = first_offset p"
    "i64_as_usize (wrap_i64 (off - first_offset p)) = ?s"
    using assms by (simp_all add: first_offset_def end_offset_def)
  have s: "?s < length ?lg" using assms d(4) by linarith
  have "?s < 2 ^ 63" using assms d by auto
  then have "usize_add ?s max_count = ?s + max_count" using small by simp
  then have stop: "min (usize_add ?s max_count) (length ?lg) - ?s = min max_count (length ?lg - ?s)"
    "?s \<le> min (usize_add ?s max_count) (length ?lg)"
    using s by (auto simp: min_def)
  have "take (min max_count (length ?lg - ?s)) (drop ?s ?lg) = take max_count (drop ?s ?lg)"
    by (simp add: min_def)
  then show ?thesis
    using ne assms stop
    by (simp add: partition_read_def Let_def end_offset_def [symmetric] w not_less)
qed


section \<open>Steps of a partition, and the log contract\<close>

text \<open>
  Every operation that changes a partition, under its write lock, as a step, and the wake-up
  call of a shutdown. An append needs room in \<open>i64\<close> for the next offset.
\<close>

inductive partition_step :: "'v partition \<Rightarrow> 'v partition \<Rightarrow> bool" where
  step_append: "end_offset p + 1 < 2 ^ 63 \<Longrightarrow>
    partition_step p (snd (partition_append c k pl h ts p))"
| step_append_typed: "end_offset p + 1 < 2 ^ 63 \<Longrightarrow>
    partition_step p (snd (partition_append_typed c tp tk h ts p))"
| step_evict: "partition_step p (partition_evict now p)"
| step_notify: "partition_step p (notify p)"

inductive partition_reachable :: "string \<Rightarrow> i32 \<Rightarrow> partition_config \<Rightarrow> 'v partition \<Rightarrow> bool"
  for t :: string and i :: i32 and c :: partition_config where
  reach_new: "partition_reachable t i c (partition_new t i c)"
| reach_step: "partition_reachable t i c p \<Longrightarrow> partition_step p q \<Longrightarrow> partition_reachable t i c q"

inductive_cases partition_stepE: "partition_step p q"

lemma wf_partition_step [rmq_wf]: "partition_step p q \<Longrightarrow> wf_partition p \<Longrightarrow> wf_partition q"
  by (induction rule: partition_step.induct) (auto intro: rmq_wf)

lemma partition_reachable_wf: "partition_reachable t i c p \<Longrightarrow> wf_partition p"
  by (induction rule: partition_reachable.induct) (auto intro: rmq_wf)

text \<open>A step keeps the name and drops a prefix of what the log holds, after at most one push.\<close>

lemma partition_step_log:
  assumes "partition_step p q" and wf: "wf_partition p"
  obtains n ms where "buf_log (buffer q) = drop n (buf_log (buffer p) @ ms)"
    and "n \<le> length (buf_log (buffer p) @ ms)"
    and "end_offset q = end_offset p + int (length ms)" and "length ms \<le> 1"
    and "\<forall>m \<in> set ms. msg_offset m = end_offset p"
proof -
  note goal = that
  have app: thesis
    if q: "q = snd (append_message c mk p)" and room: "end_offset p + 1 < 2 ^ 63"
      and off: "\<And>off. msg_offset (mk off) = off" for c mk
  proof -
    obtain n where n: "n \<le> Suc (length (buf_log (buffer p)))"
      "buf_log (buffer q) = drop n (buf_log (buffer p) @ [mk (end_offset p)])"
      using append_message_suffix [of p c mk] unfolding q by blast
    have "in_i64 (end_offset p + 1)"
      using wf_partitionD(1,2) [OF wf] room by (simp add: in_i64_def)
    then have "end_offset q = end_offset p + 1"
      unfolding q end_offset_def [of "snd (append_message c mk p)"] by simp
    then show thesis using n off by (intro goal [of n "[mk (end_offset p)]"]) simp_all
  qed
  from assms(1) show thesis
  proof (cases rule: partition_step.cases)
    case (step_append c k pl h ts)
    then show thesis
      by (intro app) (simp_all add: partition_append_def Let_def, simp add: stored_new_def)
  next
    case (step_append_typed c tp tk h ts)
    then show thesis
      by (intro app) (simp_all add: partition_append_typed_def Let_def, simp add: stored_new_typed_def)
  next
    case (step_evict now)
    then show thesis
      using evict_loop_suffix [of "buf_log (buffer p)" now "policies (buffer p)"]
      by (auto intro: goal [of _ "[]"])
  next
    case step_notify
    then show thesis by (intro goal [of 0 "[]"]) (simp_all add: end_offset_def)
  qed
qed

lemma partition_step_window:
  assumes st: "partition_step p q" and wf: "wf_partition p"
  shows "first_offset p \<le> first_offset q" and "end_offset p \<le> end_offset q"
    and "first_offset q \<le> off \<Longrightarrow> off < end_offset p \<Longrightarrow> read_one q off = read_one p off"
proof -
  obtain n ms where n: "buf_log (buffer q) = drop n (buf_log (buffer p) @ ms)"
    "n \<le> length (buf_log (buffer p) @ ms)" "end_offset q = end_offset p + int (length ms)"
    using partition_step_log [OF st wf] by blast
  have wfq: "wf_partition q" using st wf by (rule wf_partition_step)
  have len: "length (buf_log (buffer q)) = length (buf_log (buffer p)) + length ms - n"
    unfolding n(1) by simp
  then have first: "first_offset q = first_offset p + int n"
    using n(2) wf_partitionD(4) [OF wf] wf_partitionD(4) [OF wfq] n(3)
    by (simp add: of_nat_diff)
  then show "first_offset p \<le> first_offset q" by simp
  show "end_offset p \<le> end_offset q" using n(3) by simp
  assume off: "first_offset q \<le> off" "off < end_offset p"
  let ?i = "nat (off - first_offset q)"
  have i: "n + ?i = nat (off - first_offset p)" using off first by simp
  have lt: "nat (off - first_offset p) < length (buf_log (buffer p))"
    using off first wf_partitionD(4) [OF wf] by linarith
  have "buf_log (buffer q) ! ?i = (buf_log (buffer p) @ ms) ! (n + ?i)"
    unfolding n(1) using n(2) by (simp only: nth_drop)
  also have "\<dots> = buf_log (buffer p) ! nat (off - first_offset p)"
    using lt by (simp add: i nth_append)
  finally show "read_one q off = read_one p off"
    using off first n(3) by (simp add: read_one_wf [OF wf] read_one_wf [OF wfq])
qed

interpretation plog: commit_log wf_partition first_offset end_offset
    "\<lambda>p. fst (partition_watermarks p)" read_one partition_step msg_offset
proof unfold_locales
  fix p :: "'a partition" and i m e
  assume wf: "wf_partition p"
  show "first_offset p \<le> end_offset p" by (rule wf_partitionD(2) [OF wf])
  show "fst (partition_watermarks p) \<le> first_offset p"
    using wf_partitionD(1) [OF wf] by (simp add: partition_watermarks_wf [OF wf])
  show "\<exists>m. read_one p i = Ok (Some m) \<and> msg_offset m = i"
    if "first_offset p \<le> i" "i < end_offset p"
    using read_one_hit [OF wf that] by blast
  show "first_offset p \<le> i \<and> i < end_offset p" if "read_one p i = Ok (Some m)"
    using that by (auto simp: read_one_wf [OF wf] split: if_splits)
  show "i < first_offset p \<or> end_offset p < i" if "read_one p i = Err e"
    using that by (auto simp: read_one_wf [OF wf] split: if_splits)
qed (auto intro: wf_partition_step partition_step_window)



section \<open>What a reachable partition keeps of its configuration\<close>

lemma append_config [simp]:
  "topic_name (snd (partition_append c k pl h ts p)) = topic_name p"
  "partition_id (snd (partition_append c k pl h ts p)) = partition_id p"
  "max_capacity (buffer (snd (partition_append c k pl h ts p))) = max_capacity (buffer p)"
  "policies (buffer (snd (partition_append c k pl h ts p))) = policies (buffer p)"
  "topic_name (snd (partition_append_typed c tp tk h ts p)) = topic_name p"
  "partition_id (snd (partition_append_typed c tp tk h ts p)) = partition_id p"
  "max_capacity (buffer (snd (partition_append_typed c tp tk h ts p))) = max_capacity (buffer p)"
  "policies (buffer (snd (partition_append_typed c tp tk h ts p))) = policies (buffer p)"
  by (simp_all add: partition_append_def partition_append_typed_def Let_def)

lemma partition_step_config:
  "partition_step p q \<Longrightarrow> topic_name q = topic_name p \<and> partition_id q = partition_id p \<and>
     max_capacity (buffer q) = max_capacity (buffer p) \<and> policies (buffer q) = policies (buffer p)"
  by (induction rule: partition_step.induct) simp_all

lemma partition_reachable_config:
  "partition_reachable t i c p \<Longrightarrow> topic_name p = t \<and> partition_id p = i \<and>
     max_capacity (buffer p) = pc_max_capacity c \<and> policies (buffer p) = build_policies c"
  by (induction rule: partition_reachable.induct)
     (auto simp: partition_new_def dest: partition_step_config)

lemma partition_step_capacity:
  assumes "partition_step p q" and "CapacityEviction r \<in> set (policies (buffer p))"
    and "length (buf_log (buffer p)) \<le> r"
  shows "length (buf_log (buffer q)) \<le> r"
  using assms
  by (induction rule: partition_step.induct)
     (auto simp: partition_append_def partition_append_typed_def Let_def append_message_log
       intro: evict_loop_capacity)

lemma partition_reachable_retention:
  assumes "partition_reachable t i c p" and "pc_retention_capacity c = Some r"
  shows "length (buf_log (buffer p)) \<le> r"
  using assms
proof (induction rule: partition_reachable.induct)
  case reach_new
  then show ?case by (simp add: partition_new_def)
next
  case (reach_step p q)
  then have "CapacityEviction r \<in> set (policies (buffer p))"
    using partition_reachable_config by (fastforce simp: build_policies_def)
  with reach_step.hyps(2) reach_step.IH reach_step.prems show ?case
    by (auto intro: partition_step_capacity)
qed

text \<open>A partition without policies keeps exactly what the capacity check leaves.\<close>

lemma append_log_no_policy:
  assumes "policies (buffer p) = []"
  shows "buf_log (buffer (snd (append_message c mk p))) =
    trim (max_capacity (buffer p)) (buf_log (buffer p) @ [mk (end_offset p)])"
  using assms by (simp add: append_message_log)

text \<open>The state an append leaves: the message at the end of the log, old messages gone from its front
  (without an eviction policy exactly one, and only when the buffer is full), one notification
  more, and nothing else.\<close>

lemma append_message_state:
  assumes "in_i64 (end_offset p + 1)"
  shows "\<exists>d \<le> Suc (length (buf_log (buffer p))).
    (policies (buffer p) = [] \<longrightarrow>
       d = (if 0 < max_capacity (buffer p) \<and>
            max_capacity (buffer p) \<le> Suc (length (buf_log (buffer p))) then 1 else 0)) \<and>
    snd (append_message c mk p) = p\<lparr>
      buffer := (buffer p)\<lparr>buf_log := drop d (buf_log (buffer p) @ [mk (end_offset p)]),
                          next_offset := end_offset p + 1\<rparr>,
      notifications := Suc (notifications p)\<rparr>"
proof -
  let ?q = "snd (append_message c mk p)" and ?xs = "buf_log (buffer p) @ [mk (end_offset p)]"
  let ?d = "if 0 < max_capacity (buffer p) \<and>
      max_capacity (buffer p) \<le> Suc (length (buf_log (buffer p))) then 1 else 0 :: nat"
  have "buf_log (buffer ?q) = drop ?d ?xs" if "policies (buffer p) = []"
    using append_log_no_policy [OF that, of c mk] by (simp add: trim_def drop_Suc del: drop_append)
  then obtain d where d: "d \<le> Suc (length (buf_log (buffer p)))"
    "policies (buffer p) = [] \<longrightarrow> d = ?d" "buf_log (buffer ?q) = drop d ?xs"
    using append_message_suffix [of p c mk] by (cases "policies (buffer p) = []") fastforce+
  have "?q = p\<lparr>buffer := (buffer p)\<lparr>buf_log := drop d ?xs, next_offset := end_offset p + 1\<rparr>,
      notifications := Suc (notifications p)\<rparr>"
    using assms d(3) append_message_sel [of c mk p] by (intro partition.equality partition_buffer.equality) simp_all
  with d(1,2) show ?thesis by blast
qed

text \<open>A sequence of untyped appends: clock, key, payload, headers, timestamp.\<close>

type_synonym append_args =
  "clock \<times> bytes option \<times> bytes option \<times> owned_headers option \<times> i64 option"

fun append_all :: "append_args list \<Rightarrow> 'v partition \<Rightarrow> 'v partition" where
  "append_all [] p = p"
| "append_all ((c, k, pl, h, ts) # as) p = append_all as (snd (partition_append c k pl h ts p))"

lemma length_trim: "length (trim cap xs) = (if 0 < cap \<and> cap \<le> length xs then length xs - 1 else length xs)"
  by (simp add: trim_def)

lemma append_all_length:
  assumes "policies (buffer p) = []" and "max_capacity (buffer p) = cap" and "0 < cap"
    and "length (buf_log (buffer p)) < cap"
  shows "length (buf_log (buffer (append_all as p))) =
    min (length (buf_log (buffer p)) + length as) (cap - 1)"
  using assms
proof (induction as arbitrary: p)
  case Nil
  then show ?case by auto
next
  case (Cons a as)
  obtain c k pl h ts where a: "a = (c, k, pl, h, ts)" by (cases a)
  let ?q = "snd (partition_append c k pl h ts p)"
  have len: "length (buf_log (buffer ?q)) = min (Suc (length (buf_log (buffer p)))) (cap - 1)"
    using Cons.prems
    by (auto simp: partition_append_def Let_def append_log_no_policy length_trim)
  then have "length (buf_log (buffer ?q)) < cap" using Cons.prems(3) by simp
  with Cons.IH [of ?q] Cons.prems show ?case by (auto simp: a len min_def)
qed

lemma append_all_end:
  assumes "0 \<le> end_offset p" and "end_offset p + int (length as) < 2 ^ 63"
  shows "end_offset (append_all as p) = end_offset p + int (length as)"
  using assms
proof (induction as arbitrary: p)
  case Nil
  then show ?case by simp
next
  case (Cons a as)
  obtain c k pl h ts where a: "a = (c, k, pl, h, ts)" by (cases a)
  have "in_i64 (end_offset p + 1)" using Cons.prems by (simp add: in_i64_def)
  then have "end_offset (snd (partition_append c k pl h ts p)) = end_offset p + 1"
    by (simp add: partition_append_def Let_def end_offset_def [of "snd _"])
  with Cons.IH [of "snd (partition_append c k pl h ts p)"] Cons.prems show ?case
    by (simp add: a)
qed



text \<open>The newest message is read back at the offset its append returned, unless it is gone.\<close>

lemma append_message_read:
  assumes wf: "wf_partition p" and room: "end_offset p + 1 < 2 ^ 63"
    and wfq: "wf_partition (snd (append_message c mk p))"
    and kept: "buf_log (buffer (snd (append_message c mk p))) \<noteq> []"
  shows "read_one (snd (append_message c mk p)) (end_offset p) = Ok (Some (mk (end_offset p)))"
proof -
  let ?q = "snd (append_message c mk p)"
  define xs where "xs = buf_log (buffer p) @ [mk (end_offset p)]"
  obtain n where n: "buf_log (buffer ?q) = drop n xs"
    using append_message_suffix [of p c mk] unfolding xs_def by blast
  have "n < length xs" using kept n by (cases "n < length xs") auto
  then have last: "last (buf_log (buffer ?q)) = mk (end_offset p)"
    unfolding n by (simp add: last_drop) (simp add: xs_def)
  have "in_i64 (end_offset p + 1)"
    using room wf_partitionD(1,2) [OF wf] by (simp add: in_i64_def)
  then have end_q: "end_offset ?q = end_offset p + 1" by (simp add: end_offset_def [of ?q])
  have pos: "0 < length (buf_log (buffer ?q))" using kept by simp
  have first: "first_offset ?q = end_offset p + 1 - int (length (buf_log (buffer ?q)))"
    using wf_partitionD(4) [OF wfq] end_q by simp
  then have "nat (end_offset p - first_offset ?q) = length (buf_log (buffer ?q)) - 1"
    using pos by linarith
  moreover have "first_offset ?q \<le> end_offset p" using first pos by linarith
  ultimately show ?thesis
    using last kept by (simp add: read_one_wf [OF wfq] end_q last_conv_nth)
qed

lemma trim_nonempty: "cap \<noteq> 1 \<Longrightarrow> trim cap (xs @ [x]) \<noteq> []"
  by (cases xs) (auto simp: trim_def)


section \<open>Properties\<close>

definition demo_clock :: clock where
  "demo_clock = \<lparr>wall = Some 7, mono = (\<lambda>i. i)\<rparr>"

definition demo_config :: "usize \<Rightarrow> partition_config" where
  "demo_config cap = \<lparr>pc_max_capacity = cap, pc_retention_ms = None, pc_retention_capacity = None\<rparr>"

abbreviation demo_append :: "bytes \<Rightarrow> nat partition \<Rightarrow> nat partition" where
  "demo_append b p \<equiv> snd (partition_append demo_clock None (Some b) None None p)"

abbreviation demo_args :: "append_args list" where
  "demo_args \<equiv> [(demo_clock, None, Some [1], None, None), (demo_clock, None, Some [2], None, None),
     (demo_clock, None, Some [3], None, None)]"

lemma demo_partition_reachable:
  "partition_reachable ''t'' 0 (demo_config cap)
     (demo_append b (partition_new ''t'' 0 (demo_config cap)))"
  by (intro reach_step [OF reach_new] step_append) (simp add: partition_new_def end_offset_def)

lemmas demo_defs = demo_clock_def demo_config_def partition_new_def build_policies_def
  partition_append_def append_message_def end_offset_def first_offset_def notify_def
  evict_buffer_def unix_millis_def wrap_i64_def stored_new_def i64_as_usize_def

text \<open>C16: In every reachable partition the buffer is a contiguous window of the log that ends at
  the next offset: message \<open>j\<close> of the buffer carries the offset \<open>first_offset + j\<close>, the
  partition's own topic and id, no offset is negative; the buffer stays below a configured
  buffer capacity and within a configured retention capacity.\<close>

theorem partition_window_invariant:
  assumes "partition_reachable t i c p"
  shows "0 \<le> first_offset p \<and>
    (\<forall>j < length (buf_log (buffer p)).
       msg_offset (buf_log (buffer p) ! j) = first_offset p + int j \<and>
       msg_topic (buf_log (buffer p) ! j) = t \<and> msg_partition (buf_log (buffer p) ! j) = i) \<and>
    (0 < pc_max_capacity c \<longrightarrow> length (buf_log (buffer p)) < pc_max_capacity c) \<and>
    (\<forall>r. pc_retention_capacity c = Some r \<longrightarrow> length (buf_log (buffer p)) \<le> r)"
  using partition_reachable_wf [OF assms] partition_reachable_config [OF assms]
    partition_reachable_retention [OF assms]
  by (auto simp: wf_partition_def offsets_from_def)

theorem partition_window_invariant_witness:
  "0 \<le> first_offset (demo_append [1] (partition_new ''t'' 0 (demo_config 5)))"
  using partition_window_invariant [OF demo_partition_reachable [of 5 "[1]"]] by blast

text \<open>An append to a well-formed partition with room in \<open>i64\<close> answers with the partition's id
  and the next offset, moves the next offset by one, wakes the waiting consumers, and leaves a
  suffix of the old buffer followed by the new message, which carries exactly the key, payload,
  headers and timestamp given (the wall clock when no timestamp is given).\<close>

theorem partition_append_spec:
  assumes "wf_partition p" and "end_offset p + 1 < 2 ^ 63"
  shows "\<exists>n. fst (partition_append c k pl h ts p) = Ok (partition_id p, end_offset p) \<and>
    end_offset (snd (partition_append c k pl h ts p)) = end_offset p + 1 \<and>
    notifications (snd (partition_append c k pl h ts p)) = Suc (notifications p) \<and>
    buf_log (buffer (snd (partition_append c k pl h ts p))) =
      drop n (buf_log (buffer p) @
        [stored_new k pl (topic_name p) (partition_id p) (end_offset p)
           (case ts of Some t \<Rightarrow> t | None \<Rightarrow> unix_millis c) h (mono c 0)])"
proof -
  have "in_i64 (end_offset p + 1)"
    using assms wf_partitionD(1,2) [OF assms(1)] by (simp add: in_i64_def)
  then show ?thesis
    using append_message_suffix [of p c]
    unfolding partition_append_def Let_def end_offset_def [of "snd _"] by fastforce
qed

theorem partition_append_spec_witness:
  "end_offset (demo_append [1] (partition_new ''t'' 0 (demo_config 5))) = 1"
  using partition_append_spec [of "partition_new ''t'' 0 (demo_config 5)" demo_clock None "Some [1]"
      None None]
  by (simp add: wf_new) (auto simp: partition_new_def end_offset_def)

text \<open>A read at an offset of a reachable partition never panics and has exactly these
  answers: the message with that offset when it is in the window; nothing at the next offset
  (and at 0 when the buffer is empty); \<open>OffsetOutOfRange\<close> with the offset asked for otherwise.\<close>

theorem read_one_total:
  assumes "partition_reachable t i c p"
  shows "(if first_offset p \<le> off \<and> off < end_offset p
            then \<exists>m \<in> set (buf_log (buffer p)). read_one p off = Ok (Some m) \<and> msg_offset m = off
          else if off = end_offset p \<or> (off = 0 \<and> buf_log (buffer p) = [])
            then read_one p off = Ok None
          else read_one p off = Err (OffsetOutOfRange t i off))"
  using read_one_hit [OF partition_reachable_wf [OF assms]] partition_reachable_config [OF assms]
  by (auto simp: read_one_wf [OF partition_reachable_wf [OF assms]] out_of_range_def
      wf_partition_log_empty [OF partition_reachable_wf [OF assms]])

theorem read_one_total_witness:
  "read_one (demo_append [1] (partition_new ''t'' 0 (demo_config 5))) 7 =
     Err (OffsetOutOfRange ''t'' 0 7)"
  using read_one_total [OF demo_partition_reachable [of 5 "[1]"], of 7]
  by (simp add: demo_defs)


text \<open>A message appended to a partition without retention policies, and with a buffer
  capacity other than one, is read back at the offset the append returned, with the key,
  payload, headers and timestamp it was appended with.\<close>

theorem append_then_read:
  assumes "wf_partition p" and "end_offset p + 1 < 2 ^ 63"
    and "policies (buffer p) = []" and "max_capacity (buffer p) \<noteq> 1"
  shows "\<exists>m. read_one (snd (partition_append c k pl h (Some t) p)) (end_offset p) = Ok (Some m) \<and>
    msg_key m = k \<and> msg_payload m = pl \<and> msg_headers m = h \<and> msg_timestamp m = t \<and>
    msg_offset m = end_offset p"
proof -
  let ?mk = "\<lambda>off. stored_new k pl (topic_name p) (partition_id p) off t h (mono c 0)"
  have wfq: "wf_partition (snd (append_message c ?mk p))"
    by (rule wf_append_message [OF assms(1,2)]) simp_all
  have "buf_log (buffer (snd (append_message c ?mk p))) \<noteq> []"
    using assms(4) by (simp add: append_log_no_policy [OF assms(3)] trim_nonempty)
  from append_message_read [OF assms(1,2) wfq this] show ?thesis
    by (simp add: partition_append_def)
qed

theorem append_then_read_witness:
  "\<exists>m. read_one (snd (partition_append demo_clock None (Some [1]) None (Some 9)
          (partition_new ''t'' 0 (demo_config 5) :: nat partition))) 0 = Ok (Some m) \<and>
     msg_payload m = Some [1] \<and> msg_timestamp m = 9"
  using append_then_read [of "partition_new ''t'' 0 (demo_config 5) :: nat partition"
      demo_clock None "Some [1]" None 9]
  by (auto simp: wf_new) (auto simp: demo_defs)

text \<open>With a buffer capacity of one no message survives its own append: the buffer is empty
  after it, no offset can be read, and the watermarks still report the range from 0 to the
  offset just appended.\<close>

theorem capacity_one_keeps_nothing:
  assumes "wf_partition p" and "end_offset p + 1 < 2 ^ 63" and "max_capacity (buffer p) = 1"
  shows "buf_log (buffer (snd (partition_append c k pl h ts p))) = [] \<and>
    (\<forall>off m. read_one (snd (partition_append c k pl h ts p)) off \<noteq> Ok (Some m)) \<and>
    partition_watermarks (snd (partition_append c k pl h ts p)) = (0, end_offset p)"
proof -
  let ?q = "snd (partition_append c k pl h ts p)"
  have wfq: "wf_partition ?q" using assms(1,2) by (rule wf_append)
  then have empty: "buf_log (buffer ?q) = []"
    using assms(3) by (simp add: wf_partition_def)
  have "in_i64 (end_offset p + 1)"
    using assms(2) wf_partitionD(1,2) [OF assms(1)] by (simp add: in_i64_def)
  then have "end_offset ?q = end_offset p + 1"
    by (simp add: partition_append_def Let_def end_offset_def [of "snd _"])
  with empty wfq show ?thesis
    by (auto simp: partition_watermarks_wf wf_partition_log_empty [OF wfq] read_one_def Let_def
        split: if_splits)
qed

theorem capacity_one_keeps_nothing_witness:
  "buf_log (buffer (demo_append [1] (partition_new ''t'' 0 (demo_config 1)))) = []"
  using capacity_one_keeps_nothing [of "partition_new ''t'' 0 (demo_config 1)" demo_clock None
      "Some [1]" None None]
  by (simp add: wf_new) (simp add: demo_defs)

text \<open>A new partition without retention policies and with a buffer capacity \<open>cap > 0\<close> holds,
  after any number of appends, exactly the last \<open>min n (cap - 1)\<close> of the \<open>n\<close> messages: the
  window ends at \<open>n\<close> and the oldest readable offset is \<open>n - min n (cap - 1)\<close>.\<close>

theorem retained_window:
  fixes p :: "'v partition"
  assumes "p = append_all as (partition_new t i c)" and "int (length as) < 2 ^ 63"
    and "pc_max_capacity c = cap" and "0 < cap"
    and "pc_retention_ms c = None" and "pc_retention_capacity c = None"
  shows "length (buf_log (buffer p)) = min (length as) (cap - 1) \<and>
    end_offset p = int (length as) \<and>
    first_offset p = int (length as) - int (min (length as) (cap - 1))"
proof -
  let ?p = "partition_new t i c :: 'v partition"
  have new: "policies (buffer ?p) = []" "max_capacity (buffer ?p) = cap"
    "buf_log (buffer ?p) = []" "end_offset ?p = 0"
    using assms(3,5,6) by (simp_all add: partition_new_def build_policies_def end_offset_def)
  have "length (buf_log (buffer p)) = min (length as) (cap - 1)"
    using append_all_length [OF new(1,2) assms(4), of as] assms(1,4) by (simp add: new(3))
  moreover have "end_offset p = int (length as)"
    using append_all_end [of ?p as] assms(1,2) by (simp add: new(4))
  ultimately show ?thesis by (simp add: first_offset_def end_offset_def)
qed

theorem retained_window_witness:
  "length (buf_log (buffer (append_all demo_args
     (partition_new ''t'' 0 (demo_config 3) :: nat partition)))) = 2"
  using retained_window [of "append_all demo_args
      (partition_new ''t'' 0 (demo_config 3) :: nat partition)" demo_args "''t''" 0
      "demo_config 3" 3]
  by (simp add: demo_config_def)

text \<open>A bulk read is the sequence of single reads: it returns as many messages as are asked
  for and available, and the \<open>j\<close>-th is what a read at \<open>off + j\<close> returns.\<close>

theorem bulk_read_is_single_reads:
  assumes "wf_partition p" and "first_offset p \<le> off" and "off < end_offset p"
    and "max_count < 2 ^ 63"
  shows "\<exists>ms. partition_read p off max_count = Ok ms \<and>
    length ms = min max_count (nat (end_offset p - off)) \<and>
    (\<forall>j < length ms. read_one p (off + int j) = Ok (Some (ms ! j)))"
proof -
  let ?s = "nat (off - first_offset p)"
  let ?ms = "take max_count (drop ?s (buf_log (buffer p)))"
  have len: "length (buf_log (buffer p)) - ?s = nat (end_offset p - off)"
    using assms(2,3) wf_partitionD(4) [OF assms(1)] by linarith
  have "read_one p (off + int j) = Ok (Some (?ms ! j))" if "j < length ?ms" for j
  proof -
    have j: "off + int j < end_offset p" using that len assms(3) by auto
    moreover have "nat (off + int j - first_offset p) = ?s + j"
      using assms(2) by linarith
    moreover have "drop ?s (buf_log (buffer p)) ! j = buf_log (buffer p) ! (?s + j)"
      using that by (intro nth_drop) auto
    ultimately show ?thesis
      using that assms(2) by (simp add: read_one_wf [OF assms(1)])
  qed
  then show ?thesis
    using partition_read_wf [OF assms] len by (intro exI [of _ ?ms]) auto
qed

theorem bulk_read_is_single_reads_witness:
  "\<exists>ms. partition_read (demo_append [1] (partition_new ''t'' 0 (demo_config 5))) 0 10 = Ok ms \<and>
     length ms = 1"
  using bulk_read_is_single_reads [OF partition_reachable_wf
      [OF demo_partition_reachable [of 5 "[1]"]], of 0 10]
  by (auto simp: demo_defs)


text \<open>Eviction drops exactly the longest prefix of expired messages: message \<open>j\<close> of the
  dropped prefix was named by a policy when it was the front (at the clock reading of its
  turn and the buffer length of that moment), and the message left at the front is named by
  none. Nothing else of the partition changes.\<close>

theorem evict_drops_expired_prefix:
  "\<exists>n \<le> length (buf_log (buffer p)).
     partition_evict now p =
       p\<lparr>buffer := (buffer p)\<lparr>buf_log := drop n (buf_log (buffer p))\<rparr>\<rparr> \<and>
     (\<forall>j < n. \<exists>pol \<in> set (policies (buffer p)).
        should_evict (now j) pol (length (buf_log (buffer p)) - j) (buf_log (buffer p) ! j)) \<and>
     (n < length (buf_log (buffer p)) \<longrightarrow> (\<forall>pol \<in> set (policies (buffer p)).
        \<not> should_evict (now n) pol (length (buf_log (buffer p)) - n) (buf_log (buffer p) ! n)))"
proof -
  obtain n where "n \<le> length (buf_log (buffer p))"
    "evict_loop now (policies (buffer p)) (buf_log (buffer p)) = drop n (buf_log (buffer p))"
    "\<forall>j < n. \<exists>pol \<in> set (policies (buffer p)).
        should_evict (now j) pol (length (buf_log (buffer p)) - j) (buf_log (buffer p) ! j)"
    "n < length (buf_log (buffer p)) \<longrightarrow> (\<forall>pol \<in> set (policies (buffer p)).
        \<not> should_evict (now n) pol (length (buf_log (buffer p)) - n) (buf_log (buffer p) ! n))"
    using evict_loop_exact by blast
  then show ?thesis
    by (intro exI [of _ n]) (auto simp: partition_evict_def evict_buffer_def)
qed

theorem evict_drops_expired_prefix_witness:
  "partition_evict (\<lambda>i. i) (demo_append [1] (partition_new ''t'' 0 (demo_config 5))) =
     demo_append [1] (partition_new ''t'' 0 (demo_config 5))"
  using evict_drops_expired_prefix [of "demo_append [1] (partition_new ''t'' 0 (demo_config 5))"]
  by (simp add: demo_defs partition_evict_def)

text \<open>A message that is still in the window after any sequence of appends and evictions is
  the message that was there before, at the same offset.\<close>

theorem message_stays_put:
  assumes "partition_reachable t i c p" and "partition_step\<^sup>*\<^sup>* p q"
    and "first_offset q \<le> off" and "off < end_offset p"
  shows "read_one q off = read_one p off"
  using plog.run_fetch [OF assms(2) partition_reachable_wf [OF assms(1)] assms(3,4)] .

theorem message_stays_put_witness:
  "read_one (demo_append [2] (demo_append [1] (partition_new ''t'' 0 (demo_config 5)))) 0 =
     read_one (demo_append [1] (partition_new ''t'' 0 (demo_config 5))) 0"
  by (rule message_stays_put [OF demo_partition_reachable
        r_into_rtranclp [where r = partition_step, OF step_append]])
     (simp_all add: demo_defs)

text \<open>A reader that starts inside the log, moves past every message it gets and restarts at
  the low watermark when its position is out of range, interleaved with any appends and
  evictions, gets messages in strictly increasing offset order, so none twice; and every
  offset between its start and its position that it did not get has been evicted.\<close>

theorem reader_in_order_without_gaps:
  assumes "partition_reachable t i c p" and "pos \<le> end_offset p"
    and "reads read_one (\<lambda>p. fst (partition_watermarks p)) partition_step p pos ms q pos'"
  shows "sorted_wrt (<) (map msg_offset ms) \<and>
    (\<forall>off. pos \<le> off \<longrightarrow> off < pos' \<longrightarrow> off \<in> msg_offset ` set ms \<or> off < first_offset q)"
  using plog.reads_invariant [OF assms(3) partition_reachable_wf [OF assms(1)] assms(2)] by blast

theorem reader_in_order_without_gaps_witness:
  "\<exists>m. read_one (demo_append [1] (partition_new ''t'' 0 (demo_config 5))) 0 = Ok (Some m) \<and>
     sorted_wrt (<) (map msg_offset [m])"
proof -
  let ?p = "demo_append [1] (partition_new ''t'' 0 (demo_config 5))"
  obtain m where m: "read_one ?p 0 = Ok (Some m)" by (simp add: demo_defs read_one_def)
  have "reads read_one (\<lambda>p. fst (partition_watermarks p)) partition_step ?p 0 ([] @ [m]) ?p (0 + 1)"
    by (rule reads_message [where q = 0]) (rule reads_begin m)+
  from reader_in_order_without_gaps [OF demo_partition_reachable _ this] m show ?thesis
    by (simp add: demo_defs)
qed

end
