(* ===== verification/Partitioner.thy ===== *)
theory Partitioner
  imports Rmq_Error
begin

unbundle bit_operations_syntax

text \<open>
  \<open>src/partitioner.rs\<close>: how a producer's message is routed to a partition. Counters and states
  are atomics that each call reads and updates once; they are 32-bit words read as \<open>i32\<close>. The
  trait object the broker holds is the datatype \<open>partitioner\<close>: one of the three partitioners of
  the crate, or one supplied by the application, which is a parameter: what it answers at its
  \<open>n\<close>-th call.
\<close>


section \<open>FNV-1a\<close>

definition fnv1a_step :: "32 word \<Rightarrow> 8 word \<Rightarrow> 32 word" where
  "fnv1a_step hash byte = (hash XOR ucast byte) * 16777619"

definition fnv1a_32 :: "bytes \<Rightarrow> 32 word" where
  "fnv1a_32 data = foldl fnv1a_step 2166136261 data"


section \<open>The partitioners\<close>

record round_robin =
  rr_counter :: "32 word"

definition round_robin_new :: round_robin where
  "round_robin_new = \<lparr>rr_counter = 0\<rparr>"

text \<open>\<open>((prev % n) + n) % n\<close> on \<open>i32\<close>, with Rust's remainder that truncates towards zero.\<close>

definition rem_index :: "i32 \<Rightarrow> i32 \<Rightarrow> i32" where
  "rem_index prev n = wrap_i32 (prev smod n + n) smod n"

definition round_robin_partition ::
    "string \<Rightarrow> bytes option \<Rightarrow> i32 \<Rightarrow> round_robin \<Rightarrow> i32 \<times> round_robin" where
  "round_robin_partition topic key n s =
     (if n \<le> 0 then (0, s)
      else (let prev = rr_counter s
            in (rem_index (sint prev) n, s\<lparr>rr_counter := prev + 1\<rparr>)))"

record consistent =
  cp_fallback :: round_robin

definition consistent_new :: consistent where
  "consistent_new = \<lparr>cp_fallback = round_robin_new\<rparr>"

definition consistent_partition ::
    "string \<Rightarrow> bytes option \<Rightarrow> i32 \<Rightarrow> consistent \<Rightarrow> i32 \<times> consistent" where
  "consistent_partition topic key n s =
     (if n \<le> 0 then (0, s)
      else case key of
        Some k \<Rightarrow> (sint (fnv1a_32 k mod (word_of_int n :: 32 word)), s)
      | None \<Rightarrow>
          (let (p, fb) = round_robin_partition topic None n (cp_fallback s)
           in (p, s\<lparr>cp_fallback := fb\<rparr>)))"

record random_partitioner =
  rp_state :: "32 word"

text \<open>\<open>base\<close> is the process-wide seed counter before this call, \<open>nanos\<close> the wall clock in
  nanoseconds since the epoch (\<open>None\<close> before it).\<close>

definition random_new :: "64 word \<Rightarrow> nat option \<Rightarrow> random_partitioner" where
  "random_new base nanos =
     (let seed = (ucast base :: 32 word) * 1103515245 +
            (case nanos of Some d \<Rightarrow> of_nat d | None \<Rightarrow> 1)
      in \<lparr>rp_state = (if seed = 0 then 1 else seed)\<rparr>)"

definition random_partition ::
    "string \<Rightarrow> bytes option \<Rightarrow> i32 \<Rightarrow> random_partitioner \<Rightarrow> i32 \<times> random_partitioner" where
  "random_partition topic key n s =
     (if n \<le> 0 then (0, s)
      else (let prev = rp_state s
            in (rem_index (wrap_i32 \<bar>sint prev\<bar>) n,
                s\<lparr>rp_state := prev * 1103515245 + 12345\<rparr>)))"

datatype partitioner =
    RoundRobin round_robin
  | Consistent consistent
  | RandomSelect random_partitioner
  | CustomPartitioner "nat \<Rightarrow> string \<Rightarrow> bytes option \<Rightarrow> i32 \<Rightarrow> i32" nat

fun choose_partition :: "string \<Rightarrow> bytes option \<Rightarrow> i32 \<Rightarrow> partitioner \<Rightarrow> i32 \<times> partitioner" where
  "choose_partition topic key n (RoundRobin s) =
     (case round_robin_partition topic key n s of (p, s') \<Rightarrow> (p, RoundRobin s'))"
| "choose_partition topic key n (Consistent s) =
     (case consistent_partition topic key n s of (p, s') \<Rightarrow> (p, Consistent s'))"
| "choose_partition topic key n (RandomSelect s) =
     (case random_partition topic key n s of (p, s') \<Rightarrow> (p, RandomSelect s'))"
| "choose_partition topic key n (CustomPartitioner f calls) =
     (f calls topic key n, CustomPartitioner f (Suc calls))"


section \<open>The contract of a partitioner\<close>

text \<open>A run of calls with the same partition count; each has its topic and key.\<close>

fun picks ::
    "(string \<Rightarrow> bytes option \<Rightarrow> i32 \<Rightarrow> 's \<Rightarrow> i32 \<times> 's) \<Rightarrow> i32
     \<Rightarrow> (string \<times> bytes option) list \<Rightarrow> 's \<Rightarrow> i32 list" where
  "picks part n [] s = []"
| "picks part n ((t, k) # rs) s = (case part t k n s of (p, s') \<Rightarrow> p # picks part n rs s')"

locale partitioner_contract =
  fixes part :: "string \<Rightarrow> bytes option \<Rightarrow> i32 \<Rightarrow> 's \<Rightarrow> i32 \<times> 's"
    and bound :: i32
  assumes part_in_range: "0 < n \<Longrightarrow> n \<le> bound \<Longrightarrow> 0 \<le> fst (part t k n s) \<and> fst (part t k n s) < n"
    and part_nonpos: "n \<le> 0 \<Longrightarrow> part t k n s = (0, s)"
begin

lemma picks_in_range:
  assumes "0 < n" and "n \<le> bound" and "p \<in> set (picks part n rs s)"
  shows "0 \<le> p \<and> p < n"
  using assms(3)
proof (induction rs arbitrary: s)
  case Nil
  then show ?case by simp
next
  case (Cons r rs)
  obtain t k where "r = (t, k)" by (cases r)
  moreover obtain q s' where "part t k n s = (q, s')" by (cases "part t k n s")
  ultimately show ?case
    using Cons part_in_range [OF assms(1,2), of t k s] by auto
qed

lemma picks_nonpos: "n \<le> 0 \<Longrightarrow> picks part n rs s = replicate (length rs) 0"
  by (induction rs) (auto simp: part_nonpos)

end

text \<open>\<open>((x % n) + n) % n\<close> is the non-negative remainder as long as \<open>2 * n\<close> fits in \<open>i32\<close>.\<close>

lemma smod_bounds:
  assumes "0 < (n::int)"
  shows "- n < x smod n" and "x smod n < n"
proof -
  have "0 \<le> \<bar>x\<bar> mod n" "\<bar>x\<bar> mod n < n" using assms by simp_all
  moreover have "x smod n = \<bar>x\<bar> mod n \<or> x smod n = - (\<bar>x\<bar> mod n)"
    using assms by (auto simp: signed_modulo_int_def sgn_if)
  ultimately show "- n < x smod n" "x smod n < n" using assms by linarith+
qed

lemma smod_mod: "0 < (n::int) \<Longrightarrow> (x smod n) mod n = x mod n"
  by (simp add: signed_modulo_int_def sgn_if mod_minus_eq)

lemma rem_index_eq:
  assumes "0 < n" and "n \<le> 2 ^ 30"
  shows "rem_index x n = x mod n"
proof -
  have "in_i32 (x smod n + n)"
    using smod_bounds [OF assms(1), of x] assms by (simp add: in_i32_def)
  then have "rem_index x n = (x smod n + n) smod n" by (simp add: rem_index_def)
  also have "\<dots> = (x smod n + n) mod n"
    using smod_bounds [OF assms(1), of x] assms(1) by (auto simp: signed_modulo_int_def sgn_if)
  also have "\<dots> = x mod n" using assms(1) by (simp add: smod_mod)
  finally show ?thesis .
qed

lemma rem_index_range: "0 < n \<Longrightarrow> n \<le> 2 ^ 30 \<Longrightarrow> 0 \<le> rem_index x n \<and> rem_index x n < n"
  by (simp add: rem_index_eq)

lemma consistent_hash_eq:
  assumes "0 < n" and "n < 2 ^ 31"
  shows "sint ((h :: 32 word) mod word_of_int n) = uint h mod n"
proof -
  have "uint (word_of_int n :: 32 word) = n"
    using assms by (simp add: uint_word_of_int)
  then have u: "uint (h mod word_of_int n) = uint h mod n" by (simp add: uint_mod)
  moreover have "uint h mod n < 2 ^ 31"
    using pos_mod_bound [OF assms(1), of "uint h"] assms(2) by simp
  moreover have "0 \<le> uint h mod n" using assms(1) by simp
  ultimately have "signed_take_bit 31 (uint h mod n) = uint h mod n"
    by (intro signed_take_bit_int_eq_self) linarith+
  then show ?thesis by (simp add: sint_uint u)
qed

interpretation rr: partitioner_contract round_robin_partition "2 ^ 30"
  by unfold_locales (auto simp: round_robin_partition_def Let_def rem_index_range)

interpretation ch: partitioner_contract consistent_partition "2 ^ 30"
  by unfold_locales
     (auto simp: consistent_partition_def consistent_hash_eq Let_def round_robin_partition_def
       rem_index_range split: option.splits)

interpretation rnd: partitioner_contract random_partition "2 ^ 30"
  by unfold_locales (auto simp: random_partition_def Let_def rem_index_range)



section \<open>Round robin\<close>

lemma sint_word_plus_1:
  fixes w :: "32 word"
  assumes "sint w + 1 < 2 ^ 31"
  shows "sint (w + 1) = sint w + 1"
proof -
  have "- (2 ^ 31) \<le> sint w" using sint_ge [of w] by simp
  then show ?thesis
    using assms by (simp add: sint_word_ariths signed_take_bit_int_eq_self_iff)
qed

lemma sint_of_i32:
  assumes "- (2 ^ 31) \<le> m" and "m < 2 ^ 31"
  shows "sint (word_of_int m :: 32 word) = m"
  using assms by (simp add: int_word_sint)

text \<open>Without a wrap of the counter, pick \<open>j\<close> is \<open>(counter + j) mod n\<close>.\<close>

lemma round_robin_picks:
  assumes "0 < n" and "n \<le> 2 ^ 30" and "sint (rr_counter s) + int (length rs) < 2 ^ 31"
  shows "picks round_robin_partition n rs s =
    map (\<lambda>j. (sint (rr_counter s) + int j) mod n) [0..<length rs]"
  using assms(3)
proof (induction rs arbitrary: s)
  case Nil
  then show ?case by simp
next
  case (Cons r rs)
  obtain t k where r: "r = (t, k)" by (cases r)
  let ?s = "s\<lparr>rr_counter := rr_counter s + 1\<rparr>"
  have c: "sint (rr_counter ?s) = sint (rr_counter s) + 1"
    using Cons.prems by (simp add: sint_word_plus_1)
  have "picks round_robin_partition n rs ?s =
      map (\<lambda>j. (sint (rr_counter s) + 1 + int j) mod n) [0..<length rs]"
    using Cons.IH [of ?s] Cons.prems c by simp
  moreover have "round_robin_partition t k n s = (sint (rr_counter s) mod n, ?s)"
    using assms(1,2) by (simp add: round_robin_partition_def Let_def rem_index_eq)
  ultimately show ?case
    by (simp add: r map_upt_Suc algebra_simps del: upt_Suc)
qed

lemma mod_window_distinct:
  "0 < n \<Longrightarrow> m \<le> nat n \<Longrightarrow> distinct (map (\<lambda>j. (c + int j) mod n) [0..<m])"
proof -
  assume n: "0 < n" "m \<le> nat n"
  have "i = j" if "i < m" "j < m" "(c + int i) mod n = (c + int j) mod n" for i j
  proof -
    have "n dvd int i - int j"
      using that(3) by (metis add_diff_cancel_left mod_eq_dvd_iff)
    moreover have "\<bar>int i - int j\<bar> < n" using that(1,2) n by linarith
    ultimately have "int i - int j = 0" using zdvd_not_zless by (metis abs_dvd_iff dvd_abs_iff zero_less_abs_iff)
    then show ?thesis by simp
  qed
  then show ?thesis by (auto simp: distinct_map inj_on_def)
qed


section \<open>Properties\<close>

definition some_reqs :: "(string \<times> bytes option) list" where
  "some_reqs = [(''t'', None), (''t'', Some [1]), (''u'', None)]"

text \<open>C37: Each of the crate's partitioners answers with a valid partition index for every
  partition count from 1 to \<open>2^30\<close>, whatever its state, the topic and the key.\<close>

theorem choose_partition_in_range:
  assumes "0 < n" and "n \<le> 2 ^ 30"
    and "pt = RoundRobin s1 \<or> pt = Consistent s2 \<or> pt = RandomSelect s3"
  shows "0 \<le> fst (choose_partition t k n pt) \<and> fst (choose_partition t k n pt) < n"
  using assms(3) rr.part_in_range [OF assms(1,2), of t k s1]
    ch.part_in_range [OF assms(1,2), of t k s2] rnd.part_in_range [OF assms(1,2), of t k s3]
  by (auto split: prod.splits)

theorem choose_partition_in_range_witness:
  "0 \<le> fst (choose_partition ''t'' None 3 (RoundRobin \<lparr>rr_counter = 2147483648\<rparr>)) \<and>
   fst (choose_partition ''t'' None 3 (RoundRobin \<lparr>rr_counter = 2147483648\<rparr>)) < 3"
  by (rule choose_partition_in_range) simp_all

text \<open>As long as the counter does not wrap, any \<open>n\<close> consecutive calls of the round-robin
  partitioner with \<open>n\<close> partitions choose every partition exactly once.\<close>

theorem round_robin_fair:
  assumes "0 < n" and "n \<le> 2 ^ 30" and "sint (rr_counter s) + n < 2 ^ 31"
    and "length rs = nat n"
  shows "distinct (picks round_robin_partition n rs s) \<and>
    set (picks round_robin_partition n rs s) = {0..<n}"
proof -
  let ?ps = "picks round_robin_partition n rs s"
  have d: "distinct ?ps"
    using round_robin_picks [OF assms(1,2), of s rs] assms
    by (simp add: mod_window_distinct)
  have sub: "set ?ps \<subseteq> {0..<n}"
    using rr.picks_in_range [OF assms(1,2)] by fastforce
  have "length ?ps = nat n"
    using round_robin_picks [OF assms(1,2), of s rs] assms by simp
  then have "card (set ?ps) = card {0..<n}" using distinct_card [OF d] by simp
  then have "set ?ps = {0..<n}" using sub by (intro card_subset_eq) simp_all
  with d show ?thesis by simp
qed

theorem round_robin_fair_witness:
  "set (picks round_robin_partition 3 some_reqs round_robin_new) = {0..<3}"
  using round_robin_fair [of 3 round_robin_new some_reqs]
  by (simp add: some_reqs_def round_robin_new_def)

text \<open>The consistent partitioner sends a key to the partition \<open>fnv1a_32 key mod n\<close>, whatever
  its state and the topic, and does not change its state; without a key it answers as the
  round-robin partitioner it falls back to.\<close>

theorem consistent_partition_spec:
  assumes "0 < n" and "n < 2 ^ 31"
  shows "consistent_partition t (Some key) n s = (uint (fnv1a_32 key) mod n, s) \<and>
    fst (consistent_partition t None n s) =
      fst (round_robin_partition t None n (cp_fallback s)) \<and>
    cp_fallback (snd (consistent_partition t None n s)) =
      snd (round_robin_partition t None n (cp_fallback s))"
  using assms by (simp add: consistent_partition_def consistent_hash_eq split: prod.splits)

theorem consistent_partition_spec_witness:
  "fst (consistent_partition ''t'' (Some [97]) 10 consistent_new) = 3826002220 mod 10"
  using consistent_partition_spec [of 10 "''t''" "[97]" consistent_new]
  by (simp add: fnv1a_32_def fnv1a_step_def)

text \<open>The hash is 32-bit FNV-1a: it gives the published values for the empty string, \<open>a\<close>
  and \<open>foobar\<close>, and hashing a concatenation continues from the hash of the first part.\<close>

theorem fnv1a_known_answers:
  "fnv1a_32 [] = 0x811c9dc5 \<and> fnv1a_32 [0x61] = 0xe40c292c \<and>
   fnv1a_32 [0x66, 0x6f, 0x6f, 0x62, 0x61, 0x72] = 0xbf9cf968 \<and>
   fnv1a_32 (xs @ ys) = foldl fnv1a_step (fnv1a_32 xs) ys"
  by (simp add: fnv1a_32_def fnv1a_step_def)

text \<open>Above \<open>2^30\<close> partitions the range guarantee is lost: when the counter is at \<open>n - 1\<close>,
  the sum \<open>prev % n + n\<close> leaves the range of \<open>i32\<close>, wraps, and the round-robin partitioner
  answers with a negative partition.\<close>

theorem round_robin_overflow:
  assumes "2 ^ 30 < n" and "n < 2 ^ 31"
  shows "fst (round_robin_partition t k n \<lparr>rr_counter = word_of_int (n - 1)\<rparr>) < 0"
proof -
  have c: "sint (word_of_int n - 1 :: 32 word) = n - 1"
    using sint_of_i32 [of "n - 1"] assms by simp
  have "(n - 1) smod n = n - 1"
    using assms mod_pos_pos_trivial [of "n - 1" n] by (simp add: signed_modulo_int_def sgn_if)
  moreover have "wrap_i32 (n - 1 + n) = 2 * n - 1 - 2 ^ 32"
  proof -
    have "(n - 1 + n + 2 ^ 31) mod 2 ^ 32 = (2 * n - 1 - 2 ^ 31 + 2 ^ 32) mod 2 ^ 32"
      by (simp add: algebra_simps)
    also have "\<dots> = (2 * n - 1 - 2 ^ 31) mod 2 ^ 32"
      by (rule mod_add_self2)
    also have "\<dots> = 2 * n - 1 - 2 ^ 31"
      using assms by (intro mod_pos_pos_trivial) simp_all
    finally show ?thesis by (simp add: wrap_i32_def)
  qed
  ultimately have r: "fst (round_robin_partition t k n \<lparr>rr_counter = word_of_int (n - 1)\<rparr>) =
      (2 * n - 1 - 2 ^ 32) smod n"
    using assms c by (simp add: round_robin_partition_def Let_def rem_index_def)
  have "(2 ^ 32 + 1 - 2 * n) mod n \<noteq> 0"
  proof
    assume "(2 ^ 32 + 1 - 2 * n) mod n = 0"
    then have "n dvd 2 ^ 32 + 1 - 2 * n" by (simp add: mod_eq_0_iff_dvd)
    then obtain q where q: "2 ^ 32 + 1 - 2 * n = n * q" by (auto simp: dvd_def)
    have "n * q < n * 2" unfolding q [symmetric] using assms by simp
    moreover have "0 < n * q" unfolding q [symmetric] using assms by simp
    ultimately have "q = 1" using assms by (auto simp: zero_less_mult_iff)
    then have "3 * n = 4294967297" using q by simp
    then show False by presburger
  qed
  moreover have "0 \<le> (2 ^ 32 + 1 - 2 * n) mod n" using assms by simp
  ultimately have "0 < (2 ^ 32 + 1 - 2 * n) mod n" by linarith
  moreover have "\<bar>2 * n - 1 - 2 ^ 32\<bar> = 2 ^ 32 + 1 - 2 * n" "sgn (2 * n - 1 - 2 ^ 32) = -1"
    using assms by (simp_all add: sgn_if)
  ultimately show ?thesis
    unfolding r signed_modulo_int_def using assms by simp
qed

theorem round_robin_overflow_witness:
  "fst (round_robin_partition ''t'' None 1073741825 \<lparr>rr_counter = 1073741824\<rparr>) < 0"
  using round_robin_overflow [of 1073741825 "''t''" None] by simp

end
