(* ===== verification/Config.thy ===== *)
theory Config
  imports Rmq_Error
begin

text \<open>
  \<open>src/config.rs\<close>: the client configuration, a string map, and the broker configuration parsed
  from it. The integer parser is that of the Rust standard library (\<open>str::parse\<close>), with its
  four errors and their texts.
\<close>


section \<open>Client configuration\<close>

record client_config =
  conf_map :: "(string, string) hashmap"

definition config_new :: client_config where
  "config_new = \<lparr>conf_map = []\<rparr>"

definition config_get :: "client_config \<Rightarrow> string \<Rightarrow> string option" where
  "config_get c k = map_of (conf_map c) k"

definition config_set :: "string \<Rightarrow> string \<Rightarrow> client_config \<Rightarrow> client_config" where
  "config_set k v c = c\<lparr>conf_map := AList.update k v (conf_map c)\<rparr>"

definition config_remove :: "string \<Rightarrow> client_config \<Rightarrow> client_config" where
  "config_remove k c = c\<lparr>conf_map := AList.delete k (conf_map c)\<rparr>"

definition BROKER_ID :: string where "BROKER_ID = ''broker.id''"
definition NUM_PARTITIONS :: string where "NUM_PARTITIONS = ''default.num.partitions''"
definition BUFFER_CAPACITY :: string where "BUFFER_CAPACITY = ''partition.buffer.capacity''"
definition RETENTION_POLICY :: string where "RETENTION_POLICY = ''retention.policy''"
definition RETENTION_CAPACITY :: string where "RETENTION_CAPACITY = ''retention.capacity''"
definition RETENTION_MS :: string where "RETENTION_MS = ''retention.ms''"
definition GROUP_SESSION_TIMEOUT :: string where
  "GROUP_SESSION_TIMEOUT = ''group.session.timeout.ms''"
definition GROUP_ID :: string where "GROUP_ID = ''group.id''"

lemmas config_keys = BROKER_ID_def NUM_PARTITIONS_def BUFFER_CAPACITY_def RETENTION_POLICY_def
  RETENTION_CAPACITY_def RETENTION_MS_def GROUP_SESSION_TIMEOUT_def GROUP_ID_def

lemma config_get_set [simp]:
  "config_get (config_set k v c) k' = (if k' = k then Some v else config_get c k')"
  by (simp add: config_get_def config_set_def)

lemma config_get_remove [simp]:
  "config_get (config_remove k c) k' = (if k' = k then None else config_get c k')"
  by (simp add: config_get_def config_remove_def)

lemma config_get_new [simp]: "config_get config_new k = None"
  by (simp add: config_get_def config_new_def)


section \<open>Parsing integers\<close>

datatype int_error = EmptyString | InvalidDigit | PosOverflow | NegOverflow

fun int_error_text :: "int_error \<Rightarrow> string" where
  "int_error_text EmptyString = ''cannot parse integer from empty string''"
| "int_error_text InvalidDigit = ''invalid digit found in string''"
| "int_error_text PosOverflow = ''number too large to fit in target type''"
| "int_error_text NegOverflow = ''number too small to fit in target type''"

definition to_digit :: "char \<Rightarrow> int option" where
  "to_digit c = (let n = of_char c :: int in if 48 \<le> n \<and> n \<le> 57 then Some (n - 48) else None)"

text \<open>The digits after the sign, accumulated upwards or downwards, checked at every step.\<close>

fun parse_digits :: "bool \<Rightarrow> int \<Rightarrow> int \<Rightarrow> int \<Rightarrow> string \<Rightarrow> int_error + int" where
  "parse_digits pos lo hi acc [] = Inr acc"
| "parse_digits pos lo hi acc (c # cs) =
     (case to_digit c of
        None \<Rightarrow> Inl InvalidDigit
      | Some d \<Rightarrow>
          (let mul = acc * 10; next = (if pos then mul + d else mul - d)
           in if mul < lo \<or> hi < mul \<or> next < lo \<or> hi < next
              then Inl (if pos then PosOverflow else NegOverflow)
              else parse_digits pos lo hi next cs))"

definition parse_int :: "bool \<Rightarrow> int \<Rightarrow> int \<Rightarrow> string \<Rightarrow> int_error + int" where
  "parse_int is_signed lo hi s =
     (case s of
        [] \<Rightarrow> Inl EmptyString
      | c # cs \<Rightarrow>
          if cs = [] \<and> (c = CHR ''+'' \<or> c = CHR ''-'') then Inl InvalidDigit
          else if c = CHR ''+'' then parse_digits True lo hi 0 cs
          else if c = CHR ''-'' \<and> is_signed then parse_digits False lo hi 0 cs
          else parse_digits True lo hi 0 s)"

definition parse_i32 :: "string \<Rightarrow> int_error + i32" where
  "parse_i32 s = parse_int True (- (2 ^ 31)) (2 ^ 31 - 1) s"

definition parse_usize :: "string \<Rightarrow> int_error + nat" where
  "parse_usize s =
     (case parse_int False 0 (2 ^ 64 - 1) s of Inl e \<Rightarrow> Inl e | Inr n \<Rightarrow> Inr (nat n))"


section \<open>Broker configuration\<close>

record broker_config =
  broker_id :: string
  default_num_partitions :: i32
  buffer_capacity :: usize
  retention_policy :: string
  bc_retention_ms :: "u64 option"
  bc_retention_capacity :: "usize option"
  group_session_timeout_ms :: u64

text \<open>\<open>config.get(key).map(parse).transpose().map_err(..)\<close>\<close>

definition get_parsed ::
    "client_config \<Rightarrow> string \<Rightarrow> (string \<Rightarrow> int_error + 'a) \<Rightarrow> 'a option res" where
  "get_parsed c key parse =
     (case config_get c key of
        None \<Rightarrow> Ok None
      | Some s \<Rightarrow>
          (case parse s of
             Inl e \<Rightarrow> Err (InvalidConfig (''Invalid '' @ key @ '': '' @ int_error_text e))
           | Inr x \<Rightarrow> Ok (Some x)))"

definition broker_config_from :: "client_config \<Rightarrow> broker_config res" where
  "broker_config_from c =
     (case config_get c BROKER_ID of
        None \<Rightarrow> Err (InvalidConfig (BROKER_ID @ '' is required''))
      | Some bid \<Rightarrow>
          res_bind (get_parsed c NUM_PARTITIONS parse_i32) (\<lambda>num.
          res_bind (get_parsed c BUFFER_CAPACITY parse_usize) (\<lambda>cap.
          (let policy = (case config_get c RETENTION_POLICY of Some s \<Rightarrow> s | None \<Rightarrow> ''none'') in
          res_bind (get_parsed c RETENTION_CAPACITY parse_usize) (\<lambda>rcap.
          res_bind (get_parsed c RETENTION_MS parse_usize) (\<lambda>rms.
          res_bind (get_parsed c GROUP_SESSION_TIMEOUT parse_usize) (\<lambda>tmo.
          Ok \<lparr>broker_id = bid,
              default_num_partitions = (case num of Some n \<Rightarrow> n | None \<Rightarrow> 1),
              buffer_capacity = (case cap of Some n \<Rightarrow> n | None \<Rightarrow> 10000),
              retention_policy = policy,
              bc_retention_ms = rms,
              bc_retention_capacity = rcap,
              group_session_timeout_ms = (case tmo of Some n \<Rightarrow> n | None \<Rightarrow> 30000)\<rparr>)))))))"


section \<open>Decimal notation is parsed back\<close>

fun show_nat :: "nat \<Rightarrow> string" where
  "show_nat n = (if n < 10 then [char_of (48 + n)] else show_nat (n div 10) @ [char_of (48 + n mod 10)])"

declare show_nat.simps [simp del]

definition show_int :: "int \<Rightarrow> string" where
  "show_int n = (if n < 0 then CHR ''-'' # show_nat (nat (- n)) else show_nat (nat n))"

lemma to_digit_char: "d < 10 \<Longrightarrow> to_digit (char_of (48 + d :: nat)) = Some (int d)"
proof -
  assume "d < 10"
  then have "of_char (char_of (48 + d) :: char) = (48 + d :: nat)"
    by (simp add: of_char_of)
  then have "(of_char (char_of (48 + d) :: char) :: int) = 48 + int d"
    by (metis of_nat_add of_nat_numeral of_nat_of_char)
  with \<open>d < 10\<close> show ?thesis by (simp add: to_digit_def Let_def)
qed

lemma parse_digits_append:
  "parse_digits pos lo hi acc (xs @ ys) =
     (case parse_digits pos lo hi acc xs of
        Inl e \<Rightarrow> Inl e | Inr a \<Rightarrow> parse_digits pos lo hi a ys)"
  by (induction pos lo hi acc xs rule: parse_digits.induct)
     (auto simp: Let_def split: option.splits)

lemma parse_digits_show:
  assumes "lo \<le> 0" and "int n \<le> hi"
  shows "parse_digits True lo hi 0 (show_nat n) = Inr (int n)"
  using assms
proof (induction n rule: show_nat.induct)
  case (1 n)
  show ?case
  proof (cases "n < 10")
    case True
    with 1 show ?thesis by (simp add: show_nat.simps [of n] to_digit_char)
  next
    case False
    have le: "n div 10 * 10 \<le> n" "n div 10 * 10 + n mod 10 = n" by simp_all
    with 1 False have "parse_digits True lo hi 0 (show_nat (n div 10)) = Inr (int (n div 10))"
      by (simp add: zdiv_int)
    moreover have "int (n div 10) * 10 \<le> hi" "int (n div 10) * 10 + int (n mod 10) = int n"
      using le "1.prems" by (metis of_nat_le_iff of_nat_mult of_nat_numeral order_trans,
        metis of_nat_add of_nat_mult of_nat_numeral)
    ultimately show ?thesis
      using False "1.prems"
      by (simp add: show_nat.simps [of n] parse_digits_append to_digit_char Let_def
          del: of_nat_mod zmod_int zdiv_int)
  qed
qed

lemma parse_digits_show_neg:
  assumes "0 \<le> hi" and "lo \<le> - int n"
  shows "parse_digits False lo hi 0 (show_nat n) = Inr (- int n)"
  using assms
proof (induction n rule: show_nat.induct)
  case (1 n)
  show ?case
  proof (cases "n < 10")
    case True
    with 1 show ?thesis by (simp add: show_nat.simps [of n] to_digit_char)
  next
    case False
    have le: "int (n div 10) * 10 + int (n mod 10) = int n"
      by (metis div_mult_mod_eq of_nat_add of_nat_mult of_nat_numeral)
    then have "int (n div 10) * 10 \<le> int n" "int (n div 10) \<le> int n"
      by linarith+
    with le 1 False show ?thesis
      by (simp add: show_nat.simps [of n] parse_digits_append to_digit_char Let_def
          del: of_nat_mod zmod_int zdiv_int)
  qed
qed


lemma show_nat_first:
  "\<exists>d cs. d < 10 \<and> show_nat n = char_of (48 + d :: nat) # cs"
proof (induction n rule: show_nat.induct)
  case (1 n)
  show ?case
  proof (cases "n < 10")
    case True
    then show ?thesis by (auto simp: show_nat.simps [of n])
  next
    case False
    with 1 obtain d cs where "d < 10" "show_nat (n div 10) = char_of (48 + d :: nat) # cs" by blast
    with False show ?thesis by (auto simp: show_nat.simps [of n])
  qed
qed

lemma digit_not_sign:
  assumes "d < 10"
  shows "char_of (48 + d :: nat) \<noteq> CHR ''+''" and "char_of (48 + d :: nat) \<noteq> CHR ''-''"
proof -
  have "to_digit CHR ''+'' = None" "to_digit CHR ''-'' = None"
    by (simp_all add: to_digit_def)
  then show "char_of (48 + d :: nat) \<noteq> CHR ''+''" "char_of (48 + d :: nat) \<noteq> CHR ''-''"
    using to_digit_char [OF assms] by auto
qed

lemma parse_int_show_nat:
  assumes "lo \<le> 0" and "int n \<le> hi"
  shows "parse_int sg lo hi (show_nat n) = Inr (int n)"
proof -
  obtain d cs where d: "d < 10" "show_nat n = char_of (48 + d :: nat) # cs"
    using show_nat_first by blast
  then show ?thesis
    using digit_not_sign [OF d(1)] parse_digits_show [OF assms] by (simp add: parse_int_def)
qed

lemma show_nat_not_Nil: "show_nat n \<noteq> []"
  using show_nat_first [of n] by auto

lemma parse_usize_show: "n < 2 ^ 64 \<Longrightarrow> parse_usize (show_nat n) = Inr n"
  by (simp add: parse_usize_def parse_int_show_nat)

lemma parse_i32_show:
  assumes "in_i32 n"
  shows "parse_i32 (show_int n) = Inr n"
proof (cases "n < 0")
  case True
  then show ?thesis
    using assms parse_digits_show_neg [of "2 ^ 31 - 1" "- (2 ^ 31)" "nat (- n)"]
    by (simp add: parse_i32_def parse_int_def show_int_def show_nat_not_Nil in_i32_def)
next
  case False
  then show ?thesis
    using assms by (simp add: parse_i32_def parse_int_show_nat show_int_def in_i32_def)
qed

lemma config_keys_distinct [simp]:
  "NUM_PARTITIONS \<noteq> BROKER_ID" "BUFFER_CAPACITY \<noteq> BROKER_ID" "RETENTION_POLICY \<noteq> BROKER_ID"
  "RETENTION_CAPACITY \<noteq> BROKER_ID" "RETENTION_MS \<noteq> BROKER_ID" "GROUP_SESSION_TIMEOUT \<noteq> BROKER_ID"
  "BROKER_ID \<noteq> NUM_PARTITIONS" "BUFFER_CAPACITY \<noteq> NUM_PARTITIONS"
  "RETENTION_POLICY \<noteq> NUM_PARTITIONS" "RETENTION_CAPACITY \<noteq> NUM_PARTITIONS"
  "RETENTION_MS \<noteq> NUM_PARTITIONS" "GROUP_SESSION_TIMEOUT \<noteq> NUM_PARTITIONS"
  "BROKER_ID \<noteq> BUFFER_CAPACITY" "NUM_PARTITIONS \<noteq> BUFFER_CAPACITY"
  "RETENTION_POLICY \<noteq> BUFFER_CAPACITY" "RETENTION_CAPACITY \<noteq> BUFFER_CAPACITY"
  "RETENTION_MS \<noteq> BUFFER_CAPACITY" "GROUP_SESSION_TIMEOUT \<noteq> BUFFER_CAPACITY"
  "BROKER_ID \<noteq> RETENTION_POLICY" "NUM_PARTITIONS \<noteq> RETENTION_POLICY"
  "BUFFER_CAPACITY \<noteq> RETENTION_POLICY" "RETENTION_CAPACITY \<noteq> RETENTION_POLICY"
  "RETENTION_MS \<noteq> RETENTION_POLICY" "GROUP_SESSION_TIMEOUT \<noteq> RETENTION_POLICY"
  "BROKER_ID \<noteq> RETENTION_CAPACITY" "NUM_PARTITIONS \<noteq> RETENTION_CAPACITY"
  "BUFFER_CAPACITY \<noteq> RETENTION_CAPACITY" "RETENTION_POLICY \<noteq> RETENTION_CAPACITY"
  "RETENTION_MS \<noteq> RETENTION_CAPACITY" "GROUP_SESSION_TIMEOUT \<noteq> RETENTION_CAPACITY"
  "BROKER_ID \<noteq> RETENTION_MS" "NUM_PARTITIONS \<noteq> RETENTION_MS" "BUFFER_CAPACITY \<noteq> RETENTION_MS"
  "RETENTION_POLICY \<noteq> RETENTION_MS" "RETENTION_CAPACITY \<noteq> RETENTION_MS"
  "GROUP_SESSION_TIMEOUT \<noteq> RETENTION_MS"
  "BROKER_ID \<noteq> GROUP_SESSION_TIMEOUT" "NUM_PARTITIONS \<noteq> GROUP_SESSION_TIMEOUT"
  "BUFFER_CAPACITY \<noteq> GROUP_SESSION_TIMEOUT" "RETENTION_POLICY \<noteq> GROUP_SESSION_TIMEOUT"
  "RETENTION_CAPACITY \<noteq> GROUP_SESSION_TIMEOUT" "RETENTION_MS \<noteq> GROUP_SESSION_TIMEOUT"
  by (simp_all add: config_keys)


lemma get_parsed_set_other [simp]:
  "key \<noteq> k \<Longrightarrow> get_parsed (config_set k v c) key parse = get_parsed c key parse"
  by (simp add: get_parsed_def)

text \<open>What a configuration parse can come to: a value or an \<open>InvalidConfig\<close> error.\<close>

definition config_outcome :: "'a res \<Rightarrow> bool" where
  "config_outcome r \<longleftrightarrow> (\<exists>x. r = Ok x) \<or> (\<exists>msg. r = Err (InvalidConfig msg))"

lemma config_outcome_intros [simp]:
  "config_outcome (Ok x)" "config_outcome (Err (InvalidConfig msg))"
  "config_outcome (get_parsed c k parse)"
  by (auto simp: config_outcome_def get_parsed_def split: option.splits sum.splits)

lemma config_outcome_bind:
  "config_outcome r \<Longrightarrow> (\<And>x. config_outcome (f x)) \<Longrightarrow> config_outcome (res_bind r f)"
  by (cases r) (auto simp: config_outcome_def)

lemma broker_config_outcome: "config_outcome (broker_config_from c)"
  by (simp add: broker_config_from_def Let_def config_outcome_bind split: option.split)


section \<open>Properties\<close>

definition written_config :: "string \<Rightarrow> int \<Rightarrow> nat \<Rightarrow> string \<Rightarrow> nat \<Rightarrow> nat \<Rightarrow> nat \<Rightarrow> client_config" where
  "written_config bid n cap pol rcap rms tmo =
     config_set GROUP_SESSION_TIMEOUT (show_nat tmo) (config_set RETENTION_MS (show_nat rms)
     (config_set RETENTION_CAPACITY (show_nat rcap) (config_set RETENTION_POLICY pol
     (config_set BUFFER_CAPACITY (show_nat cap) (config_set NUM_PARTITIONS (show_int n)
     (config_set BROKER_ID bid config_new))))))"

text \<open>A configuration whose numbers are written in decimal is read back exactly: every field
  of the broker configuration is the value written, for every value of the field's type.\<close>

theorem config_roundtrip:
  assumes "in_i32 n" and "cap < 2 ^ 64" and "rcap < 2 ^ 64" and "rms < 2 ^ 64" and "tmo < 2 ^ 64"
  shows "broker_config_from (written_config bid n cap pol rcap rms tmo) =
    Ok \<lparr>broker_id = bid, default_num_partitions = n, buffer_capacity = cap,
        retention_policy = pol, bc_retention_ms = Some rms, bc_retention_capacity = Some rcap,
        group_session_timeout_ms = tmo\<rparr>"
  using assms
  by (simp add: broker_config_from_def get_parsed_def written_config_def parse_usize_show
      parse_i32_show Let_def)

theorem config_roundtrip_witness:
  "\<exists>b. broker_config_from (written_config ''b'' (-3) 50 ''none'' 60 70 80) = Ok b \<and>
     default_num_partitions b = -3 \<and> bc_retention_capacity b = Some 60"
  by (subst config_roundtrip) (simp_all add: in_i32_def)

text \<open>Without \<open>broker.id\<close> the broker configuration is an \<open>InvalidConfig\<close> error; with only
  \<open>broker.id\<close> it has the documented defaults; and any other outcome than a configuration or
  an \<open>InvalidConfig\<close> error is impossible.\<close>

theorem config_defaults_and_errors:
  "broker_config_from config_new = Err (InvalidConfig ''broker.id is required'') \<and>
   broker_config_from (config_set BROKER_ID bid config_new) =
     Ok \<lparr>broker_id = bid, default_num_partitions = 1, buffer_capacity = 10000,
         retention_policy = ''none'', bc_retention_ms = None, bc_retention_capacity = None,
         group_session_timeout_ms = 30000\<rparr> \<and>
   ((\<exists>b. broker_config_from c = Ok b) \<or> (\<exists>msg. broker_config_from c = Err (InvalidConfig msg)))"
proof (intro conjI)
  show "broker_config_from config_new = Err (InvalidConfig ''broker.id is required'')"
    by (simp add: broker_config_from_def BROKER_ID_def)
  show "broker_config_from (config_set BROKER_ID bid config_new) =
     Ok \<lparr>broker_id = bid, default_num_partitions = 1, buffer_capacity = 10000,
         retention_policy = ''none'', bc_retention_ms = None, bc_retention_capacity = None,
         group_session_timeout_ms = 30000\<rparr>"
    by (simp add: broker_config_from_def get_parsed_def Let_def)
  show "(\<exists>b. broker_config_from c = Ok b) \<or>
      (\<exists>msg. broker_config_from c = Err (InvalidConfig msg))"
    using broker_config_outcome [of c] by (simp add: config_outcome_def)
qed

text \<open>The value of \<open>retention.policy\<close> has no effect on the limits: setting it changes the
  field that records it and nothing else, so \<open>retention.ms\<close> and \<open>retention.capacity\<close> apply
  under every policy.\<close>

theorem retention_policy_is_inert:
  "broker_config_from (config_set RETENTION_POLICY pol c) =
     res_map (\<lambda>b. b\<lparr>retention_policy := pol\<rparr>) (broker_config_from c)"
proof (cases "config_get c BROKER_ID")
  case None
  then show ?thesis by (simp add: broker_config_from_def)
next
  case (Some bid)
  then show ?thesis by (simp add: broker_config_from_def Let_def res_map_bind)
qed

end
