(* ===== verification/Topic.thy ===== *)
theory Topic
  imports Partition
begin

text \<open>
  \<open>src/topic.rs\<close>: a topic, a fixed list of partitions addressed by index. The partitions are
  shared by reference in Rust and mutated in place; here an operation on a partition returns
  the topic with that partition replaced. A notification handle is the topic and partition it
  belongs to.
\<close>

record 'v topic =
  tp_name :: string
  tp_partitions :: "'v partition list"
  tp_partition_count :: i32
  tp_config :: partition_config

type_synonym notify_handle = "string \<times> i32"

definition topic_new :: "string \<Rightarrow> i32 \<Rightarrow> partition_config \<Rightarrow> 'v topic" where
  "topic_new name n c =
     \<lparr>tp_name = name, tp_partitions = map (\<lambda>i. partition_new name (int i) c) [0..<nat n],
      tp_partition_count = n, tp_config = c\<rparr>"

definition topic_get_partition :: "'v topic \<Rightarrow> i32 \<Rightarrow> 'v partition res" where
  "topic_get_partition t i =
     (if i < 0 \<or> length (tp_partitions t) \<le> nat i then Err (PartitionOutOfRange (tp_name t) i)
      else Ok (tp_partitions t ! nat i))"

definition topic_get_partition_notify :: "'v topic \<Rightarrow> i32 \<Rightarrow> notify_handle res" where
  "topic_get_partition_notify t i =
     res_map (\<lambda>p. (topic_name p, partition_id p)) (topic_get_partition t i)"

definition topic_set_partition :: "i32 \<Rightarrow> 'v partition \<Rightarrow> 'v topic \<Rightarrow> 'v topic" where
  "topic_set_partition i p t = t\<lparr>tp_partitions := (tp_partitions t)[nat i := p]\<rparr>"

definition topic_produce ::
    "clock \<Rightarrow> i32 \<Rightarrow> bytes option \<Rightarrow> bytes option \<Rightarrow> owned_headers option \<Rightarrow> i64 option
     \<Rightarrow> 'v topic \<Rightarrow> (i32 \<times> i64) res \<times> 'v topic" where
  "topic_produce c i key payload headers ts t =
     (case topic_get_partition t i of
        Ok p \<Rightarrow>
          (let (r, p') = partition_append c key payload headers ts p
           in (r, topic_set_partition i p' t))
      | Err e \<Rightarrow> (Err e, t)
      | Panic x \<Rightarrow> (Panic x, t))"

definition topic_produce_typed ::
    "clock \<Rightarrow> i32 \<Rightarrow> 'v dyn_any \<Rightarrow> 'v dyn_any option \<Rightarrow> owned_headers option \<Rightarrow> i64 option
     \<Rightarrow> 'v topic \<Rightarrow> (i32 \<times> i64) res \<times> 'v topic" where
  "topic_produce_typed c i typed_payload typed_key headers ts t =
     (case topic_get_partition t i of
        Ok p \<Rightarrow>
          (let (r, p') = partition_append_typed c typed_payload typed_key headers ts p
           in (r, topic_set_partition i p' t))
      | Err e \<Rightarrow> (Err e, t)
      | Panic x \<Rightarrow> (Panic x, t))"

definition topic_fetch :: "'v topic \<Rightarrow> i32 \<Rightarrow> i64 \<Rightarrow> usize \<Rightarrow> 'v stored_message list res" where
  "topic_fetch t i off max_count =
     res_bind (topic_get_partition t i) (\<lambda>p. partition_read p off max_count)"

definition topic_fetch_one :: "'v topic \<Rightarrow> i32 \<Rightarrow> i64 \<Rightarrow> 'v stored_message option res" where
  "topic_fetch_one t i off = res_bind (topic_get_partition t i) (\<lambda>p. read_one p off)"

definition topic_watermarks :: "'v topic \<Rightarrow> i32 \<Rightarrow> (i64 \<times> i64) res" where
  "topic_watermarks t i = res_map partition_watermarks (topic_get_partition t i)"

text \<open>Waking every waiting consumer of a topic, as a shutdown does.\<close>

definition topic_notify_all :: "'v topic \<Rightarrow> 'v topic" where
  "topic_notify_all t =
     t\<lparr>tp_partitions := map notify (take (nat (tp_partition_count t)) (tp_partitions t)) @
                       drop (nat (tp_partition_count t)) (tp_partitions t)\<rparr>"


section \<open>Well-formed topics\<close>

text \<open>Partition \<open>j\<close> of a topic has id \<open>j\<close> and is in a state its operations can reach.\<close>

definition wf_topic :: "'v topic \<Rightarrow> bool" where
  "wf_topic t \<longleftrightarrow> length (tp_partitions t) = nat (tp_partition_count t) \<and>
     (\<forall>j < length (tp_partitions t).
        partition_reachable (tp_name t) (int j) (tp_config t) (tp_partitions t ! j))"

definition valid_partition :: "'v topic \<Rightarrow> i32 \<Rightarrow> bool" where
  "valid_partition t i \<longleftrightarrow> 0 \<le> i \<and> nat i < length (tp_partitions t)"

text \<open>Room in \<open>i64\<close> for one more offset in partition \<open>i\<close>.\<close>

definition topic_room :: "'v topic \<Rightarrow> i32 \<Rightarrow> bool" where
  "topic_room t i \<longleftrightarrow> (\<forall>p. topic_get_partition t i = Ok p \<longrightarrow> end_offset p + 1 < 2 ^ 63)"

lemma topic_get_partition_cases:
  "topic_get_partition t i =
     (if valid_partition t i then Ok (tp_partitions t ! nat i)
      else Err (PartitionOutOfRange (tp_name t) i))"
  by (auto simp: topic_get_partition_def valid_partition_def)

lemma topic_get_partition_Ok:
  "topic_get_partition t i = Ok p \<longleftrightarrow> valid_partition t i \<and> p = tp_partitions t ! nat i"
  by (auto simp: topic_get_partition_cases)

lemma topic_set_partition_sel [simp]:
  "tp_name (topic_set_partition i p t) = tp_name t"
  "tp_partition_count (topic_set_partition i p t) = tp_partition_count t"
  "tp_config (topic_set_partition i p t) = tp_config t"
  "length (tp_partitions (topic_set_partition i p t)) = length (tp_partitions t)"
  "valid_partition (topic_set_partition i p t) j = valid_partition t j"
  by (simp_all add: topic_set_partition_def valid_partition_def)

lemma topic_get_set_partition:
  assumes "valid_partition t i"
  shows "topic_get_partition (topic_set_partition i p t) j =
    (if j = i then Ok p else topic_get_partition t j)"
  using assms
  by (auto simp: topic_get_partition_cases valid_partition_def topic_set_partition_def
      nth_list_update)

lemma wf_topicD:
  assumes "wf_topic t" and "topic_get_partition t i = Ok p"
  shows "partition_reachable (tp_name t) i (tp_config t) p"
  using assms unfolding wf_topic_def
  by (auto simp: topic_get_partition_Ok valid_partition_def dest!: spec [of _ "nat i"])

lemma wf_topic_partition:
  assumes "wf_topic t" and "topic_get_partition t i = Ok p"
  shows "wf_partition p" and "topic_name p = tp_name t" and "partition_id p = i"
    and "max_capacity (buffer p) = pc_max_capacity (tp_config t)"
    and "policies (buffer p) = build_policies (tp_config t)"
  using partition_reachable_wf [OF wf_topicD [OF assms]]
    partition_reachable_config [OF wf_topicD [OF assms]] by simp_all

lemma wf_topic_set_partition:
  assumes "wf_topic t" and "topic_get_partition t i = Ok p" and "partition_step p q"
  shows "wf_topic (topic_set_partition i q t)"
proof -
  have q: "partition_reachable (tp_name t) i (tp_config t) q"
    using wf_topicD [OF assms(1,2)] assms(3) by (rule reach_step)
  have i: "0 \<le> i" "nat i < length (tp_partitions t)"
    using assms(2) by (simp_all add: topic_get_partition_Ok valid_partition_def)
  have "partition_reachable (tp_name t) (int j) (tp_config t) ((tp_partitions t)[nat i := q] ! j)"
    if "j < length (tp_partitions t)" for j
    using that assms(1) q i by (cases "j = nat i") (simp_all add: wf_topic_def)
  then show ?thesis
    using assms(1) unfolding wf_topic_def topic_set_partition_def by simp
qed

lemma wf_topic_new [rmq_wf]: "wf_topic (topic_new name n c)"
  by (simp add: wf_topic_def topic_new_def reach_new)

lemma wf_topic_produce [rmq_wf]:
  assumes wf: "wf_topic t" and room: "topic_room t i"
  shows "wf_topic (snd (topic_produce c i k pl h ts t))"
proof (cases "topic_get_partition t i")
  case (Ok p)
  then have "partition_step p (snd (partition_append c k pl h ts p))"
    using room by (intro step_append) (simp add: topic_room_def)
  then show ?thesis
    using wf Ok by (simp add: topic_produce_def split_beta wf_topic_set_partition)
qed (simp_all add: topic_produce_def wf)

lemma wf_topic_produce_typed [rmq_wf]:
  assumes wf: "wf_topic t" and room: "topic_room t i"
  shows "wf_topic (snd (topic_produce_typed c i tp tk h ts t))"
proof (cases "topic_get_partition t i")
  case (Ok p)
  then have "partition_step p (snd (partition_append_typed c tp tk h ts p))"
    using room by (intro step_append_typed) (simp add: topic_room_def)
  then show ?thesis
    using wf Ok by (simp add: topic_produce_typed_def split_beta wf_topic_set_partition)
qed (simp_all add: topic_produce_typed_def wf)

lemma topic_notify_all_nth:
  "wf_topic t \<Longrightarrow> tp_partitions (topic_notify_all t) = map notify (tp_partitions t)"
  by (simp add: topic_notify_all_def wf_topic_def)

lemma topic_notify_all_sel [simp]:
  "tp_name (topic_notify_all t) = tp_name t"
  "tp_partition_count (topic_notify_all t) = tp_partition_count t"
  "tp_config (topic_notify_all t) = tp_config t"
  by (simp_all add: topic_notify_all_def)

lemma wf_topic_notify_all [rmq_wf]:
  assumes "wf_topic t"
  shows "wf_topic (topic_notify_all t)"
  using assms
  by (simp add: wf_topic_def [of "topic_notify_all t"] topic_notify_all_nth)
     (auto simp: wf_topic_def intro: reach_step [OF _ step_notify])

lemma topic_produce_sel [simp]:
  "tp_name (snd (topic_produce c i k pl h ts t)) = tp_name t"
  "tp_partition_count (snd (topic_produce c i k pl h ts t)) = tp_partition_count t"
  "tp_config (snd (topic_produce c i k pl h ts t)) = tp_config t"
  "tp_name (snd (topic_produce_typed c i tp tk h ts t)) = tp_name t"
  "tp_partition_count (snd (topic_produce_typed c i tp tk h ts t)) = tp_partition_count t"
  "tp_config (snd (topic_produce_typed c i tp tk h ts t)) = tp_config t"
  by (simp_all add: topic_produce_def topic_produce_typed_def split_beta split: res.splits)

text \<open>Producing to a partition is an append to that partition and leaves the others alone.\<close>

lemma topic_produce_Ok:
  assumes "topic_get_partition t i = Ok p"
  shows "topic_produce c i k pl h ts t =
    (fst (partition_append c k pl h ts p),
     topic_set_partition i (snd (partition_append c k pl h ts p)) t)"
  using assms by (simp add: topic_produce_def split_beta)

lemma topic_produce_typed_Ok:
  assumes "topic_get_partition t i = Ok p"
  shows "topic_produce_typed c i tp tk h ts t =
    (fst (partition_append_typed c tp tk h ts p),
     topic_set_partition i (snd (partition_append_typed c tp tk h ts p)) t)"
  using assms by (simp add: topic_produce_typed_def split_beta)

lemma topic_produce_other:
  assumes "j \<noteq> i"
  shows "topic_get_partition (snd (topic_produce c i k pl h ts t)) j = topic_get_partition t j"
  using assms
  by (auto simp: topic_produce_def split_beta topic_get_set_partition topic_get_partition_Ok
      split: res.splits)

lemma topic_produce_typed_other:
  assumes "j \<noteq> i"
  shows "topic_get_partition (snd (topic_produce_typed c i tp tk h ts t)) j = topic_get_partition t j"
  using assms
  by (auto simp: topic_produce_typed_def split_beta topic_get_set_partition topic_get_partition_Ok
      split: res.splits)

lemma topic_get_notify_all:
  assumes "wf_topic t"
  shows "topic_get_partition (topic_notify_all t) i =
    (case topic_get_partition t i of Ok p \<Rightarrow> Ok (notify p) | r \<Rightarrow> r)"
  using assms
  by (auto simp: topic_get_partition_cases valid_partition_def topic_notify_all_nth)

lemma topic_room_produce:
  "topic_get_partition t i = Ok p \<Longrightarrow> topic_room t i \<longleftrightarrow> end_offset p + 1 < 2 ^ 63"
  by (auto simp: topic_room_def)

lemma topic_get_partition_new:
  "topic_get_partition (topic_new name n c) i =
    (if 0 \<le> i \<and> i < n then Ok (partition_new name i c) else Err (PartitionOutOfRange name i))"
  by (auto simp: topic_get_partition_def topic_new_def)

lemma topic_get_partition_panic [simp]: "topic_get_partition t i \<noteq> Panic x"
  by (simp add: topic_get_partition_cases)

end
