(* ===== verification/Backend_Api.thy ===== *)
theory Backend_Api
  imports Topic
begin

text \<open>
  \<open>src/metadata.rs\<close> and the trait \<open>BrokerBackend\<close> of \<open>src/broker_backend.rs\<close>: the methods a broker
  calls its storage through, as a record of functions, and the contract it relies on, as a
  locale. The contract speaks of a backend through what a client can observe: whether it is
  closed, which topics it has with how many partitions, and the window \<open>(lo, hi)\<close> of offsets
  each partition holds.
\<close>


section \<open>Metadata\<close>

record partition_metadata =
  pmd_id :: i32
  pmd_oldest_offset :: i64
  pmd_newest_offset :: i64
  pmd_message_count :: i64

record topic_metadata =
  tmd_name :: string
  tmd_partitions :: "partition_metadata list"
  tmd_error :: "rmq_error option"

record metadata =
  md_broker_id :: string
  md_topics :: "topic_metadata list"


section \<open>The trait\<close>

text \<open>
  The methods of \<open>dyn BrokerBackend\<close>, on a backend state of any type. The reading methods take
  \<open>&self\<close> and are functions of the state.
\<close>

record ('b, 'v) backend_ops =
  be_ensure_topic :: "string \<Rightarrow> i32 \<Rightarrow> 'b \<Rightarrow> unit res \<times> 'b"
  be_produce :: "clock \<Rightarrow> string \<Rightarrow> i32 \<Rightarrow> bytes option \<Rightarrow> bytes option \<Rightarrow> owned_headers option
     \<Rightarrow> i64 option \<Rightarrow> 'b \<Rightarrow> (i32 \<times> i64 \<times> i64) res \<times> 'b"
  be_fetch :: "string \<Rightarrow> i32 \<Rightarrow> i64 \<Rightarrow> usize \<Rightarrow> 'b \<Rightarrow> 'v stored_message list res"
  be_fetch_one :: "string \<Rightarrow> i32 \<Rightarrow> i64 \<Rightarrow> 'b \<Rightarrow> 'v stored_message option res"
  be_watermarks :: "string \<Rightarrow> i32 \<Rightarrow> 'b \<Rightarrow> (i64 \<times> i64) res"
  be_metadata :: "string \<Rightarrow> string option \<Rightarrow> 'b \<Rightarrow> metadata res"
  be_get_partition_notifies :: "string list \<Rightarrow> 'b \<Rightarrow> notify_handle list res"
  be_wait_for_messages :: "(nat \<Rightarrow> nat) \<Rightarrow> (nat \<Rightarrow> notify_handle \<Rightarrow> nat \<Rightarrow> bool) \<Rightarrow> string list
     \<Rightarrow> nat \<Rightarrow> 'b \<Rightarrow> bool res"
  be_shutdown :: "'b \<Rightarrow> unit res \<times> 'b"


section \<open>The contract\<close>

locale broker_backend =
  fixes ops :: "('b, 'v) backend_ops"
    and inv :: "'b \<Rightarrow> bool"
    and closed :: "'b \<Rightarrow> bool"
    and count :: "'b \<Rightarrow> string \<Rightarrow> i32 option"
    and window :: "'b \<Rightarrow> string \<Rightarrow> i32 \<Rightarrow> (i64 \<times> i64) option"
  assumes window_le: "inv s \<Longrightarrow> window s t i = Some (lo, hi) \<Longrightarrow> 0 \<le> lo \<and> lo \<le> hi \<and> hi < 2 ^ 63"
    and window_count: "inv s \<Longrightarrow>
      window s t i \<noteq> None \<longleftrightarrow> (\<exists>n. count s t = Some n \<and> 0 \<le> i \<and> i < n)"
    and ensure_closed: "closed s \<Longrightarrow> be_ensure_topic ops t n s = (Err BrokerShutdown, s)"
    and produce_closed: "closed s \<Longrightarrow> be_produce ops c t i k pl h ts s = (Err BrokerShutdown, s)"
    and fetch_one_closed: "closed s \<Longrightarrow> be_fetch_one ops t i off s = Err BrokerShutdown"
    and watermarks_closed: "closed s \<Longrightarrow> be_watermarks ops t i s = Err BrokerShutdown"
    and metadata_closed: "closed s \<Longrightarrow> be_metadata ops bid topic s = Err BrokerShutdown"
    and shutdown_ok: "inv s \<Longrightarrow>
      fst (be_shutdown ops s) = Ok () \<and> inv (snd (be_shutdown ops s)) \<and> closed (snd (be_shutdown ops s))"
    and ensure_ok: "inv s \<Longrightarrow> \<not> closed s \<Longrightarrow>
      fst (be_ensure_topic ops t n s) = Ok () \<and> inv (snd (be_ensure_topic ops t n s)) \<and>
      \<not> closed (snd (be_ensure_topic ops t n s))"
    and ensure_count: "inv s \<Longrightarrow> \<not> closed s \<Longrightarrow>
      count (snd (be_ensure_topic ops t n s)) t' =
        (if t' = t \<and> count s t = None then Some n else count s t')"
    and ensure_window: "inv s \<Longrightarrow> \<not> closed s \<Longrightarrow>
      window (snd (be_ensure_topic ops t n s)) t' i =
        (if t' = t \<and> count s t = None then (if 0 \<le> i \<and> i < n then Some (0, 0) else None)
         else window s t' i)"
    and metadata_one: "inv s \<Longrightarrow> \<not> closed s \<Longrightarrow> count s t = Some n \<Longrightarrow> 0 \<le> n \<Longrightarrow>
      \<exists>md tm. be_metadata ops bid (Some t) s = Ok md \<and> md_topics md = [tm] \<and>
        length (tmd_partitions tm) = nat n"
    and produce_ok: "inv s \<Longrightarrow> \<not> closed s \<Longrightarrow> window s t i = Some (lo, hi) \<Longrightarrow> hi + 1 < 2 ^ 63 \<Longrightarrow>
      fst (be_produce ops c t i k pl h ts s) =
        Ok (i, hi, case ts of Some x \<Rightarrow> x | None \<Rightarrow> unix_millis c) \<and>
      inv (snd (be_produce ops c t i k pl h ts s)) \<and> \<not> closed (snd (be_produce ops c t i k pl h ts s)) \<and>
      (\<exists>lo'. window (snd (be_produce ops c t i k pl h ts s)) t i = Some (lo', hi + 1) \<and> lo \<le> lo')"
    and produce_frame: "inv s \<Longrightarrow> (t', j) \<noteq> (t, i) \<Longrightarrow>
      window (snd (be_produce ops c t i k pl h ts s)) t' j = window s t' j"
    and produce_count: "inv s \<Longrightarrow> count (snd (be_produce ops c t i k pl h ts s)) = count s"
    and produce_bad: "inv s \<Longrightarrow> \<not> closed s \<Longrightarrow> count s t \<noteq> None \<Longrightarrow> window s t i = None \<Longrightarrow>
      be_produce ops c t i k pl h ts s = (Err (PartitionOutOfRange t i), s)"
    and fetch_one_ok: "inv s \<Longrightarrow> \<not> closed s \<Longrightarrow> window s t i = Some (lo, hi) \<Longrightarrow>
      (if lo \<le> off \<and> off < hi
         then \<exists>m. be_fetch_one ops t i off s = Ok (Some m) \<and> msg_offset m = off
       else be_fetch_one ops t i off s =
         (if off = hi \<or> (off = 0 \<and> lo = hi) then Ok None else Err (OffsetOutOfRange t i off)))"
    and watermarks_ok: "inv s \<Longrightarrow> \<not> closed s \<Longrightarrow> window s t i = Some (lo, hi) \<Longrightarrow>
      be_watermarks ops t i s = Ok (if lo = hi then 0 else lo, hi - 1)"

end
