(* ===== verification/Backend.thy ===== *)
theory Backend
  imports Backend_Api Config
begin

text \<open>
  \<open>src/broker_backend.rs\<close>: the in-memory backend, a map from topic names to topics and a
  shutdown flag, and its implementation of the trait \<open>BrokerBackend\<close>.

  The operations take the state and return the result with the state after. The iteration
  order of the topic map, which the listing of all topics shows, is the argument \<open>h\<close>; the
  clock and the outcome of waiting on a notification are arguments too.
\<close>


section \<open>The in-memory backend\<close>

record 'v in_memory =
  im_topics :: "(string, 'v topic) hashmap"
  im_shutdown :: bool
  im_config :: broker_config

definition inmem_new :: "broker_config \<Rightarrow> 'v in_memory" where
  "inmem_new c = \<lparr>im_topics = [], im_shutdown = False, im_config = c\<rparr>"

definition inmem_check_shutdown :: "'v in_memory \<Rightarrow> unit res" where
  "inmem_check_shutdown b = (if im_shutdown b then Err BrokerShutdown else Ok ())"

definition make_partition_config :: "'v in_memory \<Rightarrow> partition_config" where
  "make_partition_config b =
     \<lparr>pc_max_capacity = buffer_capacity (im_config b),
      pc_retention_ms = bc_retention_ms (im_config b),
      pc_retention_capacity = bc_retention_capacity (im_config b)\<rparr>"

definition inmem_get_topic :: "string \<Rightarrow> 'v in_memory \<Rightarrow> 'v topic res" where
  "inmem_get_topic name b =
     (case map_of (im_topics b) name of Some t \<Rightarrow> Ok t | None \<Rightarrow> Err (TopicNotFound name))"

definition partition_metadata_of :: "'v topic \<Rightarrow> i32 \<Rightarrow> partition_metadata" where
  "partition_metadata_of t i =
     (let (oldest, newest) = (case topic_watermarks t i of Ok w \<Rightarrow> w | _ \<Rightarrow> (0, -1));
          count = (case topic_get_partition t i of Ok p \<Rightarrow> message_count p | _ \<Rightarrow> 0)
      in \<lparr>pmd_id = i, pmd_oldest_offset = oldest, pmd_newest_offset = newest,
          pmd_message_count = count\<rparr>)"

text \<open>\<open>Vec::with_capacity(num_partitions as usize)\<close> panics for a negative count, which is a \<open>usize\<close>
  beyond the largest allocation.\<close>

definition topic_metadata_of :: "'v topic \<Rightarrow> topic_metadata res" where
  "topic_metadata_of t =
     (let n = tp_partition_count t
      in if n < 0 then Panic CapacityOverflow
         else Ok \<lparr>tmd_name = tp_name t,
                   tmd_partitions = map (\<lambda>i. partition_metadata_of t (int i)) [0..<nat n],
                   tmd_error = None\<rparr>)"

definition inmem_ensure_topic ::
    "string \<Rightarrow> i32 \<Rightarrow> 'v in_memory \<Rightarrow> unit res \<times> 'v in_memory" where
  "inmem_ensure_topic name n b =
     (case inmem_check_shutdown b of
        Ok _ \<Rightarrow>
          (if map_of (im_topics b) name \<noteq> None then (Ok (), b)
           else (Ok (), b\<lparr>im_topics :=
                  AList.update name (topic_new name n (make_partition_config b)) (im_topics b)\<rparr>))
      | Err e \<Rightarrow> (Err e, b)
      | Panic x \<Rightarrow> (Panic x, b))"

definition inmem_set_topic :: "string \<Rightarrow> 'v topic \<Rightarrow> 'v in_memory \<Rightarrow> 'v in_memory" where
  "inmem_set_topic name t b = b\<lparr>im_topics := AList.update name t (im_topics b)\<rparr>"

text \<open>The common body of \<open>produce\<close> and \<open>produce_typed\<close>; \<open>app\<close> is the call on the topic.\<close>

definition inmem_produce_with ::
    "clock \<Rightarrow> string \<Rightarrow> i64 option
     \<Rightarrow> (i64 option \<Rightarrow> 'v topic \<Rightarrow> (i32 \<times> i64) res \<times> 'v topic)
     \<Rightarrow> 'v in_memory \<Rightarrow> (i32 \<times> i64 \<times> i64) res \<times> 'v in_memory" where
  "inmem_produce_with c name timestamp app b =
     (case inmem_check_shutdown b of
        Ok _ \<Rightarrow>
          (let ts = (case timestamp of Some t \<Rightarrow> t | None \<Rightarrow> unix_millis c)
           in case inmem_get_topic name b of
                Ok t \<Rightarrow>
                  (let (r, t') = app (Some ts) t
                   in (res_map (\<lambda>(pid, off). (pid, off, ts)) r, inmem_set_topic name t' b))
              | Err e \<Rightarrow> (Err e, b)
              | Panic x \<Rightarrow> (Panic x, b))
      | Err e \<Rightarrow> (Err e, b)
      | Panic x \<Rightarrow> (Panic x, b))"

definition inmem_produce ::
    "clock \<Rightarrow> string \<Rightarrow> i32 \<Rightarrow> bytes option \<Rightarrow> bytes option \<Rightarrow> owned_headers option \<Rightarrow> i64 option
     \<Rightarrow> 'v in_memory \<Rightarrow> (i32 \<times> i64 \<times> i64) res \<times> 'v in_memory" where
  "inmem_produce c name i key payload headers timestamp b =
     inmem_produce_with c name timestamp (\<lambda>ts. topic_produce c i key payload headers ts) b"

definition inmem_produce_typed ::
    "clock \<Rightarrow> string \<Rightarrow> i32 \<Rightarrow> 'v dyn_any \<Rightarrow> 'v dyn_any option \<Rightarrow> owned_headers option \<Rightarrow> i64 option
     \<Rightarrow> 'v in_memory \<Rightarrow> (i32 \<times> i64 \<times> i64) res \<times> 'v in_memory" where
  "inmem_produce_typed c name i typed_payload typed_key headers timestamp b =
     inmem_produce_with c name timestamp
       (\<lambda>ts. topic_produce_typed c i typed_payload typed_key headers ts) b"

definition inmem_fetch ::
    "string \<Rightarrow> i32 \<Rightarrow> i64 \<Rightarrow> usize \<Rightarrow> 'v in_memory \<Rightarrow> 'v stored_message list res" where
  "inmem_fetch name i off max_count b =
     res_bind (inmem_check_shutdown b) (\<lambda>_.
     res_bind (inmem_get_topic name b) (\<lambda>t. topic_fetch t i off max_count))"

definition inmem_fetch_one ::
    "string \<Rightarrow> i32 \<Rightarrow> i64 \<Rightarrow> 'v in_memory \<Rightarrow> 'v stored_message option res" where
  "inmem_fetch_one name i off b =
     res_bind (inmem_check_shutdown b) (\<lambda>_.
     res_bind (inmem_get_topic name b) (\<lambda>t. topic_fetch_one t i off))"

definition inmem_watermarks :: "string \<Rightarrow> i32 \<Rightarrow> 'v in_memory \<Rightarrow> (i64 \<times> i64) res" where
  "inmem_watermarks name i b =
     res_bind (inmem_check_shutdown b) (\<lambda>_.
     res_bind (inmem_get_topic name b) (\<lambda>t. topic_watermarks t i))"

definition inmem_metadata ::
    "(string list \<Rightarrow> string list) \<Rightarrow> string \<Rightarrow> string option \<Rightarrow> 'v in_memory \<Rightarrow> metadata res" where
  "inmem_metadata h bid topic b =
     res_bind (inmem_check_shutdown b) (\<lambda>_.
     res_map (\<lambda>ts. \<lparr>md_broker_id = bid, md_topics = ts\<rparr>)
       (case topic of
          Some name \<Rightarrow>
            (case map_of (im_topics b) name of
               None \<Rightarrow> Err (TopicNotFound name)
             | Some t \<Rightarrow> res_map (\<lambda>m. [m]) (topic_metadata_of t))
        | None \<Rightarrow>
            res_collect (map (\<lambda>k. topic_metadata_of (the (map_of (im_topics b) k)))
              (h (map fst (im_topics b))))))"

fun ok_list :: "'a res list \<Rightarrow> 'a list" where
  "ok_list [] = []"
| "ok_list (Ok x # rs) = x # ok_list rs"
| "ok_list (_ # rs) = ok_list rs"

definition inmem_get_partition_notifies ::
    "string list \<Rightarrow> 'v in_memory \<Rightarrow> notify_handle list res" where
  "inmem_get_partition_notifies topics b =
     Ok (concat (map (\<lambda>name.
       (case map_of (im_topics b) name of
          None \<Rightarrow> []
        | Some t \<Rightarrow> ok_list (map (\<lambda>i. topic_get_partition_notify t (int i))
                            [0..<nat (tp_partition_count t)]))) topics))"

text \<open>
  Waiting. \<open>now i\<close> is the \<open>i\<close>-th reading of the monotonic clock, \<open>wait i n d\<close> tells whether the
  \<open>i\<close>-th wait of the call, on handle \<open>n\<close> for at most \<open>d\<close>, timed out (\<open>PartitionNotify::wait\<close>). The
  loop visits the handles in order and stops at the deadline.
\<close>

fun wait_loop ::
    "(nat \<Rightarrow> nat) \<Rightarrow> (nat \<Rightarrow> notify_handle \<Rightarrow> nat \<Rightarrow> bool) \<Rightarrow> nat \<Rightarrow> nat \<Rightarrow> notify_handle list \<Rightarrow> bool" where
  "wait_loop now wait deadline i [] = False"
| "wait_loop now wait deadline i (n # ns) =
     (let remaining = deadline - now (Suc i)
      in if remaining = 0 then False
         else if \<not> wait i n remaining then True
         else wait_loop now wait deadline (Suc i) ns)"

definition inmem_wait_for_messages ::
    "(nat \<Rightarrow> nat) \<Rightarrow> (nat \<Rightarrow> notify_handle \<Rightarrow> nat \<Rightarrow> bool) \<Rightarrow> string list \<Rightarrow> nat \<Rightarrow> 'v in_memory
     \<Rightarrow> bool res" where
  "inmem_wait_for_messages now wait topics timeout b =
     res_bind (inmem_get_partition_notifies topics b) (\<lambda>notifies.
       case notifies of
         [] \<Rightarrow> Ok False
       | [n] \<Rightarrow> Ok (wait 0 n timeout)
       | _ \<Rightarrow> Ok (wait_loop now wait (now 0 + timeout) 0 notifies))"

definition inmem_shutdown :: "'v in_memory \<Rightarrow> unit res \<times> 'v in_memory" where
  "inmem_shutdown b =
     (Ok (), b\<lparr>im_shutdown := True,
              im_topics := map (\<lambda>(k, t). (k, topic_notify_all t)) (im_topics b)\<rparr>)"


section \<open>The trait implementation\<close>

definition inmem_ops ::
    "(string list \<Rightarrow> string list) \<Rightarrow> ('v in_memory, 'v) backend_ops" where
  "inmem_ops h =
     \<lparr>be_ensure_topic = inmem_ensure_topic, be_produce = inmem_produce, be_fetch = inmem_fetch,
      be_fetch_one = inmem_fetch_one, be_watermarks = inmem_watermarks,
      be_metadata = inmem_metadata h,
      be_get_partition_notifies = inmem_get_partition_notifies,
      be_wait_for_messages = inmem_wait_for_messages, be_shutdown = inmem_shutdown\<rparr>"


section \<open>Well-formed backends\<close>

text \<open>Every topic is filed under its own name, has the backend's configuration, and its partitions
  are in states that partition operations reach.\<close>

definition wf_backend :: "'v in_memory \<Rightarrow> bool" where
  "wf_backend b \<longleftrightarrow> hm_wf (im_topics b) \<and>
     (\<forall>k t. map_of (im_topics b) k = Some t \<longrightarrow>
        wf_topic t \<and> tp_name t = k \<and> tp_config t = make_partition_config b)"

text \<open>The partition that a topic name and a partition index denote.\<close>

definition inmem_partition :: "'v in_memory \<Rightarrow> string \<Rightarrow> i32 \<Rightarrow> 'v partition option" where
  "inmem_partition b name i =
     (case map_of (im_topics b) name of
        None \<Rightarrow> None
      | Some t \<Rightarrow> (case topic_get_partition t i of Ok p \<Rightarrow> Some p | _ \<Rightarrow> None))"

definition inmem_count :: "'v in_memory \<Rightarrow> string \<Rightarrow> i32 option" where
  "inmem_count b name = map_option tp_partition_count (map_of (im_topics b) name)"

definition inmem_room :: "'v in_memory \<Rightarrow> string \<Rightarrow> i32 \<Rightarrow> bool" where
  "inmem_room b name i \<longleftrightarrow>
     (\<forall>p. inmem_partition b name i = Some p \<longrightarrow> end_offset p + 1 < 2 ^ 63)"

lemma wf_backend_topic:
  assumes "wf_backend b" and "map_of (im_topics b) k = Some t"
  shows "wf_topic t" and "tp_name t = k" and "tp_config t = make_partition_config b"
  using assms by (auto simp: wf_backend_def)

lemma inmem_partition_Some:
  "inmem_partition b name i = Some p \<longleftrightarrow>
     (\<exists>t. map_of (im_topics b) name = Some t \<and> topic_get_partition t i = Ok p)"
  by (auto simp: inmem_partition_def split: option.splits res.splits)

lemma inmem_partition_count:
  assumes "wf_backend b"
  shows "inmem_partition b name i \<noteq> None \<longleftrightarrow> (\<exists>n. inmem_count b name = Some n \<and> 0 \<le> i \<and> i < n)"
proof (cases "map_of (im_topics b) name")
  case (Some t)
  then have "length (tp_partitions t) = nat (tp_partition_count t)"
    using wf_backend_topic(1) [OF assms] by (simp add: wf_topic_def)
  with Some show ?thesis
    by (auto simp: inmem_partition_def inmem_count_def topic_get_partition_cases valid_partition_def)
qed (simp add: inmem_partition_def inmem_count_def)

lemma make_partition_config_cong:
  "im_config b = im_config b' \<Longrightarrow> make_partition_config b = make_partition_config b'"
  by (simp add: make_partition_config_def)

lemma wf_set_topic:
  assumes "wf_backend b" and "wf_topic t" and "tp_name t = name"
    and "tp_config t = make_partition_config b"
  shows "wf_backend (inmem_set_topic name t b)"
  using assms by (auto simp: wf_backend_def inmem_set_topic_def make_partition_config_def)

lemma inmem_set_topic_sel [simp]:
  "im_shutdown (inmem_set_topic name t b) = im_shutdown b"
  "im_config (inmem_set_topic name t b) = im_config b"
  "map_of (im_topics (inmem_set_topic name t b)) = (map_of (im_topics b))(name \<mapsto> t)"
  by (simp_all add: inmem_set_topic_def)

lemma inmem_ensure_topic_open:
  assumes "\<not> im_shutdown b"
  shows "inmem_ensure_topic name n b =
    (Ok (), if map_of (im_topics b) name \<noteq> None then b
            else inmem_set_topic name (topic_new name n (make_partition_config b)) b)"
  using assms by (simp add: inmem_ensure_topic_def inmem_check_shutdown_def inmem_set_topic_def)

lemma topic_new_sel [simp]:
  "tp_name (topic_new name n c) = name" "tp_config (topic_new name n c) = c"
  "tp_partition_count (topic_new name n c) = n"
  by (simp_all add: topic_new_def)

lemma inmem_config_stable [simp]:
  "im_config (snd (inmem_ensure_topic name n b)) = im_config b"
  "im_config (snd (inmem_produce_with c name ts app b)) = im_config b"
  "im_config (snd (inmem_produce c name i k pl h ts b)) = im_config b"
  "im_config (snd (inmem_produce_typed c name i tp tk h ts b)) = im_config b"
  "im_config (snd (inmem_shutdown b)) = im_config b"
  by (simp_all add: inmem_ensure_topic_def inmem_produce_def inmem_produce_typed_def
      inmem_produce_with_def inmem_shutdown_def split_beta Let_def split: res.splits)

lemma inmem_shutdown_stable [simp]:
  "im_shutdown (snd (inmem_ensure_topic name n b)) = im_shutdown b"
  "im_shutdown (snd (inmem_produce_with c name ts app b)) = im_shutdown b"
  "im_shutdown (snd (inmem_produce c name i k pl h ts b)) = im_shutdown b"
  "im_shutdown (snd (inmem_produce_typed c name i tp tk h ts b)) = im_shutdown b"
  by (simp_all add: inmem_ensure_topic_def inmem_produce_def inmem_produce_typed_def
      inmem_produce_with_def split_beta Let_def split: res.splits)

lemma inmem_new_sel [simp]:
  "im_topics (inmem_new c) = []" "im_shutdown (inmem_new c) = False" "im_config (inmem_new c) = c"
  by (simp_all add: inmem_new_def)

lemma wf_backend_new [rmq_wf]: "wf_backend (inmem_new c)"
  by (simp add: wf_backend_def)

lemma wf_ensure_topic [rmq_wf]:
  assumes "wf_backend b"
  shows "wf_backend (snd (inmem_ensure_topic name n b))"
proof (cases "im_shutdown b")
  case False
  then show ?thesis
    using assms by (auto simp: inmem_ensure_topic_open intro!: wf_set_topic wf_topic_new)
qed (use assms in \<open>simp add: inmem_ensure_topic_def inmem_check_shutdown_def\<close>)

lemma inmem_produce_with_open:
  assumes "\<not> im_shutdown b" and "map_of (im_topics b) name = Some t"
  shows "inmem_produce_with c name timestamp app b =
    (let ts = (case timestamp of Some t \<Rightarrow> t | None \<Rightarrow> unix_millis c)
     in (res_map (\<lambda>(pid, off). (pid, off, ts)) (fst (app (Some ts) t)),
         inmem_set_topic name (snd (app (Some ts) t)) b))"
  using assms
  by (simp add: inmem_produce_with_def inmem_check_shutdown_def inmem_get_topic_def split_beta Let_def)

lemma wf_produce_with:
  assumes wf: "wf_backend b"
    and app: "\<And>t ts. map_of (im_topics b) name = Some t \<Longrightarrow> wf_topic (snd (app ts t)) \<and>
      tp_name (snd (app ts t)) = tp_name t \<and> tp_config (snd (app ts t)) = tp_config t"
  shows "wf_backend (snd (inmem_produce_with c name timestamp app b))"
proof (cases "im_shutdown b \<or> map_of (im_topics b) name = None")
  case True
  then show ?thesis
    using wf by (auto simp: inmem_produce_with_def inmem_check_shutdown_def inmem_get_topic_def)
next
  case False
  then obtain t where t: "\<not> im_shutdown b" "map_of (im_topics b) name = Some t" by auto
  show ?thesis
    using app [OF t(2)] wf_backend_topic [OF wf t(2)]
    by (auto simp: inmem_produce_with_open [OF t] Let_def intro!: wf_set_topic [OF wf])
qed

lemma inmem_room_topic:
  "inmem_room b name i \<Longrightarrow> map_of (im_topics b) name = Some t \<Longrightarrow> topic_room t i"
  by (auto simp: inmem_room_def topic_room_def inmem_partition_Some)

lemma wf_inmem_produce [rmq_wf]:
  assumes "wf_backend b" and "inmem_room b name i"
  shows "wf_backend (snd (inmem_produce c name i k pl h ts b))"
  unfolding inmem_produce_def
  using assms by (intro wf_produce_with)
    (auto intro: wf_topic_produce wf_backend_topic inmem_room_topic)

lemma wf_inmem_produce_typed [rmq_wf]:
  assumes "wf_backend b" and "inmem_room b name i"
  shows "wf_backend (snd (inmem_produce_typed c name i tp tk h ts b))"
  unfolding inmem_produce_typed_def
  using assms by (intro wf_produce_with)
    (auto intro: wf_topic_produce_typed wf_backend_topic inmem_room_topic)

lemma map_of_shutdown:
  "map_of (im_topics (snd (inmem_shutdown b))) k =
     map_option topic_notify_all (map_of (im_topics b) k)"
  by (simp add: inmem_shutdown_def map_of_map)

lemma wf_inmem_shutdown [rmq_wf]:
  assumes "wf_backend b"
  shows "wf_backend (snd (inmem_shutdown b))"
proof -
  have "hm_wf (im_topics (snd (inmem_shutdown b)))"
    using assms by (simp add: wf_backend_def hm_wf_def inmem_shutdown_def comp_def split_beta)
  moreover have "wf_topic t \<and> tp_name t = k \<and> tp_config t = make_partition_config (snd (inmem_shutdown b))"
    if "map_of (im_topics (snd (inmem_shutdown b))) k = Some t" for k t
    using that wf_backend_topic [OF assms]
    by (auto simp: map_of_shutdown make_partition_config_def intro: wf_topic_notify_all)
  ultimately show ?thesis unfolding wf_backend_def by blast
qed


section \<open>Reachable backends\<close>

text \<open>Every operation of the backend that changes its state. A produce needs room in \<open>i64\<close>.\<close>

inductive backend_step :: "'v in_memory \<Rightarrow> 'v in_memory \<Rightarrow> bool" where
  bstep_ensure: "backend_step b (snd (inmem_ensure_topic name n b))"
| bstep_produce: "inmem_room b name i \<Longrightarrow>
    backend_step b (snd (inmem_produce c name i k pl h ts b))"
| bstep_produce_typed: "inmem_room b name i \<Longrightarrow>
    backend_step b (snd (inmem_produce_typed c name i tp tk h ts b))"
| bstep_shutdown: "backend_step b (snd (inmem_shutdown b))"

inductive backend_reachable :: "broker_config \<Rightarrow> 'v in_memory \<Rightarrow> bool" for c :: broker_config where
  breach_new: "backend_reachable c (inmem_new c)"
| breach_step: "backend_reachable c b \<Longrightarrow> backend_step b b' \<Longrightarrow> backend_reachable c b'"

lemma inmem_ensure_room:
  assumes "\<forall>name i. inmem_room b name i"
  shows "inmem_room (snd (inmem_ensure_topic t n b)) name i"
proof (cases "im_shutdown b")
  case True
  then show ?thesis
    using assms by (simp add: inmem_ensure_topic_def inmem_check_shutdown_def)
next
  case False
  then show ?thesis
    using assms by (auto simp: inmem_room_def inmem_ensure_topic_open inmem_partition_Some
        topic_get_partition_new partition_new_def end_offset_def split: if_splits)
qed

lemma wf_backend_step [rmq_wf]: "backend_step b b' \<Longrightarrow> wf_backend b \<Longrightarrow> wf_backend b'"
  by (induction rule: backend_step.induct) (auto intro: rmq_wf)

lemma backend_step_config: "backend_step b b' \<Longrightarrow> im_config b' = im_config b"
  by (induction rule: backend_step.induct) simp_all

lemma backend_reachable_wf: "backend_reachable c b \<Longrightarrow> wf_backend b \<and> im_config b = c"
  by (induction rule: backend_reachable.induct)
     (auto intro: rmq_wf dest: backend_step_config)


section \<open>What the operations do to the partitions\<close>

lemma inmem_partition_set_topic:
  "inmem_partition (inmem_set_topic name t b) name' j =
    (if name' = name then (case topic_get_partition t j of Ok p \<Rightarrow> Some p | _ \<Rightarrow> None)
     else inmem_partition b name' j)"
  by (simp add: inmem_partition_def)

lemma inmem_partition_ensure:
  assumes "\<not> im_shutdown b"
  shows "inmem_partition (snd (inmem_ensure_topic name n b)) name' i =
    (if name' = name \<and> inmem_count b name = None
     then (if 0 \<le> i \<and> i < n then Some (partition_new name i (make_partition_config b)) else None)
     else inmem_partition b name' i)"
  using assms
  by (auto simp: inmem_ensure_topic_open inmem_partition_set_topic topic_get_partition_new
      inmem_count_def)

lemma inmem_count_ensure:
  assumes "\<not> im_shutdown b"
  shows "inmem_count (snd (inmem_ensure_topic name n b)) name' =
    (if name' = name \<and> inmem_count b name = None then Some n else inmem_count b name')"
  using assms by (auto simp: inmem_ensure_topic_open inmem_count_def)

text \<open>A produce to an existing partition is an append to it, and nothing else changes.\<close>

lemma inmem_produce_partition:
  assumes "\<not> im_shutdown b" and "inmem_partition b name i = Some p"
  shows "fst (inmem_produce c name i k pl h ts b) =
      res_map (\<lambda>(pid, off). (pid, off, case ts of Some x \<Rightarrow> x | None \<Rightarrow> unix_millis c))
        (fst (partition_append c k pl h
           (Some (case ts of Some x \<Rightarrow> x | None \<Rightarrow> unix_millis c)) p)) \<and>
    inmem_partition (snd (inmem_produce c name i k pl h ts b)) name' j =
      (if name' = name \<and> j = i
       then Some (snd (partition_append c k pl h
              (Some (case ts of Some x \<Rightarrow> x | None \<Rightarrow> unix_millis c)) p))
       else inmem_partition b name' j)"
proof -
  obtain t where t: "map_of (im_topics b) name = Some t" "topic_get_partition t i = Ok p"
    using assms(2) by (auto simp: inmem_partition_Some)
  then have "valid_partition t i" by (simp add: topic_get_partition_Ok)
  then show ?thesis
    using t assms(1)
    by (auto simp: inmem_produce_def inmem_produce_with_open topic_produce_Ok Let_def
        inmem_partition_set_topic topic_get_set_partition inmem_partition_def)
qed

lemma inmem_produce_typed_partition:
  assumes "\<not> im_shutdown b" and "inmem_partition b name i = Some p"
  shows "fst (inmem_produce_typed c name i tp tk h ts b) =
      res_map (\<lambda>(pid, off). (pid, off, case ts of Some x \<Rightarrow> x | None \<Rightarrow> unix_millis c))
        (fst (partition_append_typed c tp tk h
           (Some (case ts of Some x \<Rightarrow> x | None \<Rightarrow> unix_millis c)) p)) \<and>
    inmem_partition (snd (inmem_produce_typed c name i tp tk h ts b)) name' j =
      (if name' = name \<and> j = i
       then Some (snd (partition_append_typed c tp tk h
              (Some (case ts of Some x \<Rightarrow> x | None \<Rightarrow> unix_millis c)) p))
       else inmem_partition b name' j)"
proof -
  obtain t where t: "map_of (im_topics b) name = Some t" "topic_get_partition t i = Ok p"
    using assms(2) by (auto simp: inmem_partition_Some)
  then have "valid_partition t i" by (simp add: topic_get_partition_Ok)
  then show ?thesis
    using t assms(1)
    by (auto simp: inmem_produce_typed_def inmem_produce_with_open topic_produce_typed_Ok Let_def
        inmem_partition_set_topic topic_get_set_partition inmem_partition_def)
qed

lemma update_same: "map_of m k = Some v \<Longrightarrow> AList.update k v m = m"
  by (induction m) auto

lemma inmem_produce_bad:
  assumes "wf_backend b" and "\<not> im_shutdown b" and "inmem_count b name \<noteq> None"
    and "inmem_partition b name i = None"
  shows "inmem_produce c name i k pl h ts b = (Err (PartitionOutOfRange name i), b)"
proof -
  obtain t where t: "map_of (im_topics b) name = Some t"
    using assms(3) by (auto simp: inmem_count_def)
  then have "topic_get_partition t i = Err (PartitionOutOfRange name i)"
    using assms(4) wf_backend_topic(2) [OF assms(1) t]
    by (auto simp: inmem_partition_def topic_get_partition_cases split: if_splits)
  then show ?thesis
    using t assms(2)
    by (simp add: inmem_produce_def inmem_produce_with_open Let_def topic_produce_def
        inmem_set_topic_def update_same)
qed

lemma inmem_produce_missing:
  assumes "\<not> im_shutdown b" and "inmem_count b name = None"
  shows "inmem_produce c name i k pl h ts b = (Err (TopicNotFound name), b)"
  using assms
  by (simp add: inmem_produce_def inmem_produce_with_def inmem_check_shutdown_def
      inmem_get_topic_def inmem_count_def Let_def)

lemma inmem_closed:
  assumes "im_shutdown b"
  shows "inmem_ensure_topic name n b = (Err BrokerShutdown, b)"
    and "inmem_produce c name i k pl h ts b = (Err BrokerShutdown, b)"
    and "inmem_produce_typed c name i tp tk h ts b = (Err BrokerShutdown, b)"
    and "inmem_fetch name i off m b = Err BrokerShutdown"
    and "inmem_fetch_one name i off b = Err BrokerShutdown"
    and "inmem_watermarks name i b = Err BrokerShutdown"
    and "inmem_metadata ord bid topic b = Err BrokerShutdown"
  using assms
  by (simp_all add: inmem_ensure_topic_def inmem_check_shutdown_def inmem_produce_def
      inmem_produce_typed_def inmem_produce_with_def inmem_fetch_def inmem_fetch_one_def
      inmem_watermarks_def inmem_metadata_def)

text \<open>The reading operations in terms of the partition they name.\<close>

lemma inmem_read_partition:
  assumes "\<not> im_shutdown b" and "inmem_partition b name i = Some p"
  shows "inmem_fetch name i off m b = partition_read p off m"
    and "inmem_fetch_one name i off b = read_one p off"
    and "inmem_watermarks name i b = Ok (partition_watermarks p)"
  using assms
  by (auto simp: inmem_partition_Some inmem_fetch_def inmem_fetch_one_def inmem_watermarks_def
      inmem_check_shutdown_def inmem_get_topic_def topic_fetch_def topic_fetch_one_def
      topic_watermarks_def)

lemma inmem_read_missing:
  assumes "wf_backend b" and "\<not> im_shutdown b" and "inmem_partition b name i = None"
  shows "inmem_fetch_one name i off b =
      Err (if inmem_count b name = None then TopicNotFound name else PartitionOutOfRange name i)"
    and "inmem_watermarks name i b =
      Err (if inmem_count b name = None then TopicNotFound name else PartitionOutOfRange name i)"
  using assms wf_backend_topic(2) [OF assms(1)]
  by (auto simp: inmem_partition_def inmem_fetch_one_def inmem_watermarks_def inmem_count_def
      inmem_check_shutdown_def inmem_get_topic_def topic_fetch_one_def topic_watermarks_def
      topic_get_partition_cases split: option.splits if_splits)

lemma inmem_partition_reachable:
  assumes "wf_backend b" and "inmem_partition b name i = Some p"
  shows "partition_reachable name i (make_partition_config b) p"
proof -
  obtain t where t: "map_of (im_topics b) name = Some t" "topic_get_partition t i = Ok p"
    using assms(2) by (auto simp: inmem_partition_Some)
  show ?thesis
    using wf_topicD [OF wf_backend_topic(1) [OF assms(1) t(1)] t(2)]
      wf_backend_topic(2,3) [OF assms(1) t(1)] by simp
qed

lemma inmem_partition_wf:
  "wf_backend b \<Longrightarrow> inmem_partition b name i = Some p \<Longrightarrow> wf_partition p"
  by (blast intro: partition_reachable_wf inmem_partition_reachable)

lemma inmem_produce_count [simp]:
  "inmem_count (snd (inmem_produce c name i k pl h ts b)) = inmem_count b"
  by (auto simp: inmem_produce_def inmem_produce_with_def inmem_get_topic_def inmem_count_def
      split_beta Let_def fun_eq_iff split: res.splits option.splits)

lemma inmem_produce_frame:
  assumes "wf_backend b" and "(name', j) \<noteq> (name, i)"
  shows "inmem_partition (snd (inmem_produce c name i k pl h ts b)) name' j =
    inmem_partition b name' j"
proof -
  consider "im_shutdown b" | "\<not> im_shutdown b" "inmem_count b name = None"
    | "\<not> im_shutdown b" "inmem_count b name \<noteq> None" "inmem_partition b name i = None"
    | p where "\<not> im_shutdown b" "inmem_partition b name i = Some p" by fastforce
  then show ?thesis
  proof cases
    case 4
    then show ?thesis using assms(2) inmem_produce_partition [OF 4] by auto
  qed (simp_all add: inmem_closed inmem_produce_missing inmem_produce_bad [OF assms(1)])
qed

lemma inmem_metadata_one:
  assumes "wf_backend b" and "\<not> im_shutdown b" and "map_of (im_topics b) name = Some t"
  shows "inmem_metadata ord bid (Some name) b =
    (if tp_partition_count t < 0 then Panic CapacityOverflow
     else Ok \<lparr>md_broker_id = bid,
              md_topics = [\<lparr>tmd_name = name,
                 tmd_partitions =
                   map (\<lambda>i. partition_metadata_of t (int i)) [0..<nat (tp_partition_count t)],
                 tmd_error = None\<rparr>]\<rparr>)"
  using assms wf_backend_topic(2) [OF assms(1,3)]
  by (simp add: inmem_metadata_def inmem_check_shutdown_def topic_metadata_of_def Let_def)

lemma partition_metadata_of_partition:
  assumes "wf_backend b" and "map_of (im_topics b) name = Some t"
    and "inmem_partition b name i = Some p"
  shows "partition_metadata_of t i =
    \<lparr>pmd_id = i,
     pmd_oldest_offset = (if first_offset p = end_offset p then 0 else first_offset p),
     pmd_newest_offset = end_offset p - 1,
     pmd_message_count = end_offset p - first_offset p\<rparr>"
proof -
  have p: "topic_get_partition t i = Ok p" using assms(2,3) by (auto simp: inmem_partition_Some)
  have "wf_partition p" using assms(1,3) by (rule inmem_partition_wf)
  then show ?thesis
    by (simp add: partition_metadata_of_def topic_watermarks_def p partition_watermarks_wf
        message_count_def) (simp add: first_offset_def end_offset_def)
qed


section \<open>The in-memory backend keeps the contract\<close>

definition inmem_window :: "'v in_memory \<Rightarrow> string \<Rightarrow> i32 \<Rightarrow> (i64 \<times> i64) option" where
  "inmem_window b name i =
     map_option (\<lambda>p. (first_offset p, end_offset p)) (inmem_partition b name i)"

lemma append_window:
  assumes "wf_partition p" and "end_offset p + 1 < 2 ^ 63"
  shows "end_offset (snd (partition_append c k pl h ts p)) = end_offset p + 1"
    and "first_offset p \<le> first_offset (snd (partition_append c k pl h ts p))"
    and "fst (partition_append c k pl h ts p) = Ok (partition_id p, end_offset p)"
proof -
  have "in_i64 (end_offset p + 1)"
    using assms wf_partitionD(1,2) [OF assms(1)] by (simp add: in_i64_def)
  then show "end_offset (snd (partition_append c k pl h ts p)) = end_offset p + 1"
    by (simp add: partition_append_def Let_def end_offset_def [of "snd _"])
  show "first_offset p \<le> first_offset (snd (partition_append c k pl h ts p))"
    using partition_step_window(1) [OF step_append [OF assms(2)] assms(1)] .
  show "fst (partition_append c k pl h ts p) = Ok (partition_id p, end_offset p)"
    by (simp add: partition_append_def Let_def)
qed

lemma inmem_ops_sel [simp]:
  "be_ensure_topic (inmem_ops ord) = inmem_ensure_topic"
  "be_produce (inmem_ops ord) = inmem_produce"
  "be_fetch (inmem_ops ord) = inmem_fetch"
  "be_fetch_one (inmem_ops ord) = inmem_fetch_one"
  "be_watermarks (inmem_ops ord) = inmem_watermarks"
  "be_metadata (inmem_ops ord) = inmem_metadata ord"
  "be_get_partition_notifies (inmem_ops ord) = inmem_get_partition_notifies"
  "be_wait_for_messages (inmem_ops ord) = inmem_wait_for_messages"
  "be_shutdown (inmem_ops ord) = inmem_shutdown"
  by (simp_all add: inmem_ops_def)

lemma inmem_produce_contract:
  assumes "wf_backend b" and "\<not> im_shutdown b" and "inmem_window b name i = Some (lo, hi)"
    and "hi + 1 < 2 ^ 63"
  shows "fst (inmem_produce c name i k pl h ts b) =
      Ok (i, hi, case ts of Some x \<Rightarrow> x | None \<Rightarrow> unix_millis c) \<and>
    wf_backend (snd (inmem_produce c name i k pl h ts b)) \<and>
    (\<exists>lo'. inmem_window (snd (inmem_produce c name i k pl h ts b)) name i = Some (lo', hi + 1) \<and>
       lo \<le> lo')"
proof -
  obtain p where p: "inmem_partition b name i = Some p" "first_offset p = lo" "end_offset p = hi"
    using assms(3) by (auto simp: inmem_window_def)
  have wf: "wf_partition p" using assms(1) p(1) by (rule inmem_partition_wf)
  have "partition_id p = i"
    using partition_reachable_config [OF inmem_partition_reachable [OF assms(1) p(1)]] by simp
  moreover have "inmem_room b name i" using p assms(4) by (simp add: inmem_room_def)
  ultimately show ?thesis
    using inmem_produce_partition [OF assms(2) p(1)] append_window [OF wf] p assms(1,4)
    by (simp add: inmem_window_def wf_inmem_produce)
qed

lemma inmem_fetch_contract:
  assumes "wf_backend b" and "\<not> im_shutdown b" and "inmem_window b name i = Some (lo, hi)"
  shows "(if lo \<le> off \<and> off < hi
       then \<exists>m. inmem_fetch_one name i off b = Ok (Some m) \<and> msg_offset m = off
     else inmem_fetch_one name i off b =
       (if off = hi \<or> (off = 0 \<and> lo = hi) then Ok None else Err (OffsetOutOfRange name i off)))"
    and "inmem_watermarks name i b = Ok (if lo = hi then 0 else lo, hi - 1)"
proof -
  obtain p where p: "inmem_partition b name i = Some p" "first_offset p = lo" "end_offset p = hi"
    using assms(3) by (auto simp: inmem_window_def)
  have wf: "wf_partition p" using assms(1) p(1) by (rule inmem_partition_wf)
  have "topic_name p = name" "partition_id p = i"
    using partition_reachable_config [OF inmem_partition_reachable [OF assms(1) p(1)]] by simp_all
  then show "(if lo \<le> off \<and> off < hi
       then \<exists>m. inmem_fetch_one name i off b = Ok (Some m) \<and> msg_offset m = off
     else inmem_fetch_one name i off b =
       (if off = hi \<or> (off = 0 \<and> lo = hi) then Ok None else Err (OffsetOutOfRange name i off)))"
    using read_one_hit [OF wf, of off] p
    by (auto simp: inmem_read_partition [OF assms(2) p(1)] read_one_wf [OF wf] out_of_range_def)
  show "inmem_watermarks name i b = Ok (if lo = hi then 0 else lo, hi - 1)"
    using p by (auto simp: inmem_read_partition [OF assms(2) p(1)] partition_watermarks_wf [OF wf])
qed

interpretation mem: broker_backend "inmem_ops ord" wf_backend im_shutdown inmem_count inmem_window
  for ord :: "string list \<Rightarrow> string list"
proof (unfold_locales, goal_cases)
  case (1 s t i lo hi)
  then obtain p where "inmem_partition s t i = Some p" "lo = first_offset p" "hi = end_offset p"
    by (auto simp: inmem_window_def)
  moreover from this(1) have "wf_partition p" using 1 by (blast intro: inmem_partition_wf)
  ultimately show ?case using wf_partitionD(1-3) [of p] by simp
next
  case (2 s t i)
  then show ?case using inmem_partition_count [of s t i] by (simp add: inmem_window_def)
next
  case (12 s t n bid)
  then show ?case
    by (auto simp: inmem_count_def inmem_metadata_one)
next
  case (13 s t i lo hi c k pl h ts)
  then show ?case using inmem_produce_contract [of s t i lo hi c k pl h ts] by simp
next
  case (14 s t' j t i c k pl h ts)
  then show ?case
    using inmem_produce_frame [of s t' j t i c k pl h ts] by (simp add: inmem_window_def)
next
  case (16 s t i c k pl h ts)
  then show ?case
    using inmem_produce_bad [of s t i c k pl h ts] by (simp add: inmem_window_def)
next
  case (17 s t i lo hi off)
  then show ?case using inmem_fetch_contract(1) [of s t i lo hi off] by simp
next
  case (18 s t i lo hi)
  then show ?case using inmem_fetch_contract(2) [of s t i lo hi] by simp
next
  case (11 s t n t' i)
  then show ?case
    by (auto simp: inmem_window_def inmem_partition_ensure partition_new_def first_offset_def
        end_offset_def)
next
  case (8 s)
  then show ?case by (simp add: wf_inmem_shutdown) (simp add: inmem_shutdown_def)
next
  case (9 s t n)
  moreover have "fst (inmem_ensure_topic t n s) = Ok ()"
    using 9 by (simp add: inmem_ensure_topic_open)
  ultimately show ?case by (simp add: wf_ensure_topic)
qed (simp_all add: inmem_closed inmem_count_ensure)

text \<open>No operation of the backend does anything else to an existing partition than partition steps.\<close>

definition evolves :: "'v in_memory \<Rightarrow> 'v in_memory \<Rightarrow> bool" where
  "evolves b b' \<longleftrightarrow> (\<forall>name i p. inmem_partition b name i = Some p \<longrightarrow>
     (\<exists>p'. inmem_partition b' name i = Some p' \<and> partition_step\<^sup>*\<^sup>* p p'))"

lemma evolves_refl [simp]: "evolves b b"
  by (simp add: evolves_def)

lemma evolves_trans: "evolves a b \<Longrightarrow> evolves b c \<Longrightarrow> evolves a c"
  unfolding evolves_def by (meson rtranclp_trans)

lemma evolves_ensure: "evolves b (snd (inmem_ensure_topic name n b))"
proof (cases "im_shutdown b")
  case True
  then show ?thesis by (simp add: inmem_closed)
next
  case False
  have "inmem_partition (snd (inmem_ensure_topic name n b)) t i = Some p"
    if "inmem_partition b t i = Some p" for t i p
    using that by (auto simp: inmem_partition_ensure [OF False] inmem_partition_Some inmem_count_def)
  then show ?thesis by (auto simp: evolves_def)
qed

lemma evolves_produce_with:
  assumes "\<And>t ts i p. map_of (im_topics b) name = Some t \<Longrightarrow> topic_get_partition t i = Ok p \<Longrightarrow>
      \<exists>p'. topic_get_partition (snd (app ts t)) i = Ok p' \<and> partition_step\<^sup>*\<^sup>* p p'"
  shows "evolves b (snd (inmem_produce_with c name timestamp app b))"
proof (cases "im_shutdown b \<or> map_of (im_topics b) name = None")
  case True
  then show ?thesis
    by (auto simp: inmem_produce_with_def inmem_check_shutdown_def inmem_get_topic_def)
next
  case False
  then obtain t where t: "\<not> im_shutdown b" "map_of (im_topics b) name = Some t" by auto
  have "\<exists>p'. inmem_partition (inmem_set_topic name (snd (app ts t)) b) name' i = Some p' \<and>
      partition_step\<^sup>*\<^sup>* p p'" if "inmem_partition b name' i = Some p" for name' i p ts
    using that assms [OF t(2), of i p ts] t(2)
    by (cases "name' = name") (auto simp: inmem_partition_set_topic inmem_partition_Some)
  then show ?thesis by (simp add: evolves_def inmem_produce_with_open [OF t] Let_def)
qed

lemma topic_produce_evolves:
  assumes "topic_room t j" and "topic_get_partition t i = Ok p"
  shows "\<exists>p'. topic_get_partition (snd (topic_produce c j k pl h ts t)) i = Ok p' \<and>
    partition_step\<^sup>*\<^sup>* p p'"
proof (cases "i = j")
  case True
  then have "valid_partition t j" using assms(2) by (simp add: topic_get_partition_Ok)
  moreover have "partition_step p (snd (partition_append c k pl h ts p))"
    using assms True by (intro step_append) (simp add: topic_room_def)
  ultimately show ?thesis
    using assms(2) True by (auto simp: topic_produce_Ok topic_get_set_partition)
next
  case False
  then show ?thesis using assms(2) by (auto simp: topic_produce_other)
qed

lemma topic_produce_typed_evolves:
  assumes "topic_room t j" and "topic_get_partition t i = Ok p"
  shows "\<exists>p'. topic_get_partition (snd (topic_produce_typed c j tp tk h ts t)) i = Ok p' \<and>
    partition_step\<^sup>*\<^sup>* p p'"
proof (cases "i = j")
  case True
  then have "valid_partition t j" using assms(2) by (simp add: topic_get_partition_Ok)
  moreover have "partition_step p (snd (partition_append_typed c tp tk h ts p))"
    using assms True by (intro step_append_typed) (simp add: topic_room_def)
  ultimately show ?thesis
    using assms(2) True by (auto simp: topic_produce_typed_Ok topic_get_set_partition)
next
  case False
  then show ?thesis using assms(2) by (auto simp: topic_produce_typed_other)
qed

lemma evolves_produce:
  "inmem_room b name i \<Longrightarrow> evolves b (snd (inmem_produce c name i k pl h ts b))"
  unfolding inmem_produce_def
  by (intro evolves_produce_with topic_produce_evolves inmem_room_topic)

lemma evolves_produce_typed:
  "inmem_room b name i \<Longrightarrow> evolves b (snd (inmem_produce_typed c name i tp tk h ts b))"
  unfolding inmem_produce_typed_def
  by (intro evolves_produce_with topic_produce_typed_evolves inmem_room_topic)

lemma evolves_shutdown:
  assumes "wf_backend b"
  shows "evolves b (snd (inmem_shutdown b))"
proof -
  have "inmem_partition (snd (inmem_shutdown b)) name i = Some (notify p)"
    if "inmem_partition b name i = Some p" for name i p
    using that wf_backend_topic(1) [OF assms]
    by (auto simp: inmem_partition_Some map_of_shutdown topic_get_notify_all)
  then show ?thesis unfolding evolves_def by (blast intro: r_into_rtranclp step_notify)
qed

text \<open>The listing of all topics: every topic once, with its number of partitions.\<close>

lemma find_map_key:
  assumes "distinct ks" and "\<forall>k \<in> set ks. name (f k) = k"
  shows "find (\<lambda>x. name x = t) (map f ks) = (if t \<in> set ks then Some (f t) else None)"
  using assms by (induction ks) auto

lemma inmem_metadata_all:
  assumes wf: "wf_backend b" and "\<not> im_shutdown b" and ord: "hash_order ord"
    and nonneg: "\<forall>k n. inmem_count b k = Some n \<longrightarrow> 0 \<le> n"
  shows "\<exists>md. inmem_metadata ord bid None b = Ok md \<and>
    (\<forall>t. map_option (\<lambda>tm. int (length (tmd_partitions tm)))
       (find (\<lambda>tm. tmd_name tm = t) (md_topics md)) = inmem_count b t)"
proof -
  let ?ks = "ord (map fst (im_topics b))"
  let ?tm = "\<lambda>k. let t = the (map_of (im_topics b) k) in
     \<lparr>tmd_name = tp_name t,
      tmd_partitions = map (\<lambda>i. partition_metadata_of t (int i)) [0..<nat (tp_partition_count t)],
      tmd_error = None\<rparr>"
  have ks: "distinct ?ks" "set ?ks = fst ` set (im_topics b)"
    using hash_orderD [OF ord, of "map fst (im_topics b)"] by simp_all
  have t: "\<exists>t. map_of (im_topics b) k = Some t" if "k \<in> set ?ks" for k
    using that ks(2) keys_map_of [of k "im_topics b"] by auto
  have "topic_metadata_of (the (map_of (im_topics b) k)) = Ok (?tm k)" if k: "k \<in> set ?ks" for k
  proof -
    obtain u where u: "map_of (im_topics b) k = Some u" using t [OF k] by blast
    then have "0 \<le> tp_partition_count u" using nonneg by (auto simp: inmem_count_def)
    with u show ?thesis by (simp add: topic_metadata_of_def Let_def)
  qed
  then have "inmem_metadata ord bid None b = Ok \<lparr>md_broker_id = bid, md_topics = map ?tm ?ks\<rparr>"
    using assms(2) res_collect_Ok_all [of ?ks _ ?tm]
    by (simp add: inmem_metadata_def inmem_check_shutdown_def)
  moreover have "\<forall>k \<in> set ?ks. tmd_name (?tm k) = k"
    using t wf_backend_topic(2) [OF wf] by (force simp: Let_def)
  note find_map_key [where name = tmd_name, OF ks(1) this]
  moreover have "inmem_count b k = None" if "k \<notin> set ?ks" for k
    using that ks(2) keys_map_of [of k "im_topics b"] by (simp add: inmem_count_def)
  moreover have "inmem_count b k = Some (int (length (tmd_partitions (?tm k))))"
    if k: "k \<in> set ?ks" for k
  proof -
    obtain u where u: "map_of (im_topics b) k = Some u" using t [OF k] by blast
    then have "0 \<le> tp_partition_count u" using nonneg by (auto simp: inmem_count_def)
    with u show ?thesis by (simp add: inmem_count_def Let_def)
  qed
  ultimately show ?thesis by auto
qed


section \<open>Waiting\<close>

lemma wait_loop_True:
  "wait_loop now wait deadline i ns \<longleftrightarrow>
     (\<exists>j < length ns. \<not> wait (i + j) (ns ! j) (deadline - now (Suc (i + j))) \<and>
        (\<forall>k < j. wait (i + k) (ns ! k) (deadline - now (Suc (i + k)))) \<and>
        (\<forall>k \<le> j. now (Suc (i + k)) < deadline))"
    (is "_ \<longleftrightarrow> (\<exists>j < length ns. ?P i ns j)")
proof (induction ns arbitrary: i)
  case Nil
  then show ?case by simp
next
  case (Cons n ns)
  let ?r = "now (Suc i) < deadline"
  have split: "?P i (n # ns) 0 \<longleftrightarrow> ?r \<and> \<not> wait i n (deadline - now (Suc i))"
    "?P i (n # ns) (Suc j) \<longleftrightarrow> ?r \<and> wait i n (deadline - now (Suc i)) \<and> ?P (Suc i) ns j" for j
    by (auto simp: All_less_Suc2 le_Suc_eq less_Suc_eq_le [symmetric])
  have "(\<exists>j < length (n # ns). ?P i (n # ns) j) \<longleftrightarrow>
      ?P i (n # ns) 0 \<or> (\<exists>j < length ns. ?P i (n # ns) (Suc j))"
    by (simp only: length_Cons Ex_less_Suc2)
  also have "\<dots> \<longleftrightarrow> wait_loop now wait deadline i (n # ns)"
    by (simp only: split wait_loop.simps Let_def Cons.IH) auto
  finally show ?case by simp
qed


section \<open>Properties\<close>

definition demo_broker_config :: broker_config where
  "demo_broker_config =
     \<lparr>broker_id = ''b'', default_num_partitions = 2, buffer_capacity = 10,
      retention_policy = ''none'', bc_retention_ms = None, bc_retention_capacity = None,
      group_session_timeout_ms = 30000\<rparr>"

definition demo_backend :: "nat in_memory" where
  "demo_backend = snd (inmem_ensure_topic ''t'' 2 (inmem_new demo_broker_config))"

lemma demo_backend_reachable: "backend_reachable demo_broker_config demo_backend"
  unfolding demo_backend_def by (intro breach_step [OF breach_new] bstep_ensure)

lemma demo_backend_open [simp]: "\<not> im_shutdown demo_backend"
  by (simp add: demo_backend_def)

lemma demo_backend_partition:
  "inmem_partition demo_backend ''t'' 1 = Some (partition_new ''t'' 1 (demo_config 10))"
  by (simp add: demo_backend_def inmem_partition_ensure inmem_count_def make_partition_config_def
      demo_broker_config_def demo_config_def)

text \<open>However the operations of the backend are ordered, every partition of every topic is a
  state that the operations of one partition reach from an empty partition with the topic's
  name, that index and the configuration of the broker; so what holds of reachable partitions
  holds of all partitions of the backend.\<close>

theorem backend_partitions_reachable:
  assumes "backend_reachable c b" and "inmem_partition b name i = Some p"
  shows "partition_reachable name i
    \<lparr>pc_max_capacity = buffer_capacity c, pc_retention_ms = bc_retention_ms c,
     pc_retention_capacity = bc_retention_capacity c\<rparr> p"
  using inmem_partition_reachable [of b name i p] backend_reachable_wf [OF assms(1)] assms(2)
  by (simp add: make_partition_config_def)

theorem backend_partitions_reachable_witness:
  "partition_reachable ''t'' 1 (demo_config 10) (partition_new ''t'' 1 (demo_config 10) :: nat partition)"
  using backend_partitions_reachable [OF demo_backend_reachable demo_backend_partition]
  by (simp add: demo_broker_config_def demo_config_def)

text \<open>On an open backend, ensuring a topic succeeds. A topic that exists is left as it is, with
  whatever number of partitions it has; a new one gets exactly the partitions \<open>0\<close> to \<open>n - 1\<close>, all
  empty with the backend's configuration (none for a negative \<open>n\<close>); all other topics stay.\<close>

theorem ensure_topic_spec:
  assumes "\<not> im_shutdown b"
  shows "fst (inmem_ensure_topic name n b) = Ok () \<and>
    (inmem_count b name \<noteq> None \<longrightarrow> snd (inmem_ensure_topic name n b) = b) \<and>
    (inmem_count b name = None \<longrightarrow>
       inmem_count (snd (inmem_ensure_topic name n b)) name = Some n \<and>
       (\<forall>i. inmem_partition (snd (inmem_ensure_topic name n b)) name i =
          (if 0 \<le> i \<and> i < n then Some (partition_new name i (make_partition_config b)) else None))) \<and>
    (\<forall>name' i. name' \<noteq> name \<longrightarrow>
       inmem_partition (snd (inmem_ensure_topic name n b)) name' i = inmem_partition b name' i)"
  using inmem_partition_ensure [OF assms] inmem_count_ensure [OF assms] assms
  by (auto simp: inmem_ensure_topic_open) (auto simp: inmem_count_def)

theorem ensure_topic_spec_witness:
  "inmem_partition (snd (inmem_ensure_topic ''u'' 1 demo_backend)) ''t'' 1 =
     Some (partition_new ''t'' 1 (demo_config 10))"
  using ensure_topic_spec [of demo_backend "''u''" 1] by (simp add: demo_backend_partition)

text \<open>Producing to partition \<open>i\<close> of a topic of an open, well-formed backend answers with \<open>i\<close>, the
  partition's next offset and the message's timestamp; it appends to that partition and to no
  other; and fetching one message at any offset of that partition afterwards answers as the
  appended-to partition does, at any other partition as before.\<close>

theorem produce_appends_to_one_partition:
  assumes "wf_backend b" and "\<not> im_shutdown b" and "inmem_partition b name i = Some p"
    and "end_offset p + 1 < 2 ^ 63" and "ts' = (case ts of Some x \<Rightarrow> x | None \<Rightarrow> unix_millis c)"
  shows "fst (inmem_produce c name i k pl h ts b) = Ok (i, end_offset p, ts') \<and>
    inmem_fetch_one name i off (snd (inmem_produce c name i k pl h ts b)) =
      read_one (snd (partition_append c k pl h (Some ts') p)) off \<and>
    ((name', j) \<noteq> (name, i) \<longrightarrow>
       inmem_partition (snd (inmem_produce c name i k pl h ts b)) name' j = inmem_partition b name' j)"
proof -
  let ?b = "snd (inmem_produce c name i k pl h ts b)"
  have "inmem_partition ?b name i = Some (snd (partition_append c k pl h (Some ts') p))"
    using inmem_produce_partition [OF assms(2,3)] assms(5) by simp
  moreover have "\<not> im_shutdown ?b" using assms(2) by simp
  ultimately have "inmem_fetch_one name i off ?b =
      read_one (snd (partition_append c k pl h (Some ts') p)) off"
    by (rule inmem_read_partition(2) [rotated])
  moreover have "inmem_window b name i = Some (first_offset p, end_offset p)"
    using assms(3) by (simp add: inmem_window_def)
  then have "fst (inmem_produce c name i k pl h ts b) = Ok (i, end_offset p, ts')"
    using inmem_produce_contract [OF assms(1,2)] assms(4,5) by blast
  ultimately show ?thesis using inmem_produce_frame [OF assms(1)] by blast
qed

theorem produce_appends_to_one_partition_witness:
  "fst (inmem_produce demo_clock ''t'' 1 None (Some [1]) None None demo_backend) = Ok (1, 0, 7)"
  using produce_appends_to_one_partition [where b = demo_backend and name = "''t''"
      and i = 1 and ts = None and ts' = 7 and c = demo_clock and k = None and pl = "Some [1]"
      and h = None]
    backend_reachable_wf [OF demo_backend_reachable]
  by (auto simp: demo_backend_partition) (simp add: demo_defs)

text \<open>After a shutdown every operation that goes to the storage answers \<open>BrokerShutdown\<close> and
  changes nothing, in every later state; each partition still holds its messages and has been
  notified once more; waiting and listing the notification handles still work.\<close>

theorem backend_shutdown_final:
  assumes "wf_backend b" and "b' = snd (inmem_shutdown b)"
  shows "fst (inmem_shutdown b) = Ok () \<and>
    inmem_ensure_topic name n b' = (Err BrokerShutdown, b') \<and>
    inmem_produce c name i k pl h ts b' = (Err BrokerShutdown, b') \<and>
    inmem_produce_typed c name i tp tk h ts b' = (Err BrokerShutdown, b') \<and>
    inmem_fetch name i off m b' = Err BrokerShutdown \<and>
    inmem_fetch_one name i off b' = Err BrokerShutdown \<and>
    inmem_watermarks name i b' = Err BrokerShutdown \<and>
    inmem_metadata ord bid topic b' = Err BrokerShutdown \<and>
    inmem_partition b' name i = map_option notify (inmem_partition b name i) \<and>
    (\<forall>topics. inmem_get_partition_notifies topics b' = inmem_get_partition_notifies topics b)"
proof -
  have closed: "im_shutdown b'" by (simp add: assms(2) inmem_shutdown_def)
  have m: "map_of (im_topics b') k = map_option topic_notify_all (map_of (im_topics b) k)" for k
    by (simp add: assms(2) map_of_shutdown)
  have part: "inmem_partition b' name i = map_option notify (inmem_partition b name i)"
    by (auto simp: inmem_partition_def m topic_get_notify_all wf_backend_topic(1) [OF assms(1)]
        split: option.splits res.splits)
  have "topic_get_partition_notify (topic_notify_all t) j = topic_get_partition_notify t j"
    if "map_of (im_topics b) k = Some t" for k t j
    using wf_backend_topic(1) [OF assms(1) that]
    by (auto simp: topic_get_partition_notify_def topic_get_notify_all split: res.splits)
  then have "inmem_get_partition_notifies topics b' = inmem_get_partition_notifies topics b" for topics
    by (auto simp: inmem_get_partition_notifies_def m split: option.splits
        intro!: arg_cong [where f = concat])
  then show ?thesis
    using part by (simp add: inmem_closed [OF closed]) (simp add: inmem_shutdown_def)
qed

theorem backend_shutdown_final_witness:
  "inmem_fetch_one ''t'' 1 0 (snd (inmem_shutdown demo_backend)) = Err BrokerShutdown"
  using backend_shutdown_final [of demo_backend] backend_reachable_wf [OF demo_backend_reachable]
  by blast

text \<open>What waiting for messages returns. Without a partition to wait on it is false after the
  timeout. With exactly one partition it is true exactly when the wait timed out. With several
  it is true exactly when one of the waits, taken in order, did not time out, all before it did,
  and the deadline had not passed at any of them. So the answer's meaning is the opposite with
  one partition and with several.\<close>

theorem wait_for_messages_meaning:
  assumes "inmem_get_partition_notifies topics b = Ok ns"
  shows "\<exists>r. inmem_wait_for_messages now wait topics timeout b = Ok r \<and>
    (length ns = 0 \<longrightarrow> \<not> r) \<and>
    (length ns = 1 \<longrightarrow> r = wait 0 (ns ! 0) timeout) \<and>
    (1 < length ns \<longrightarrow> r =
       (\<exists>j < length ns. \<not> wait j (ns ! j) (now 0 + timeout - now (Suc j)) \<and>
          (\<forall>k < j. wait k (ns ! k) (now 0 + timeout - now (Suc k))) \<and>
          (\<forall>k \<le> j. now (Suc k) < now 0 + timeout)))"
  using assms
  by (auto simp: inmem_wait_for_messages_def wait_loop_True [where i = 0, simplified]
      split: list.splits simp del: wait_loop.simps)

theorem wait_for_messages_meaning_witness:
  "inmem_wait_for_messages (\<lambda>_. 0) (\<lambda>_ _ _. True) [''u''] 5
     (snd (inmem_ensure_topic ''u'' 1 demo_backend)) = Ok True \<and>
   inmem_wait_for_messages (\<lambda>_. 0) (\<lambda>_ _ _. True) [''t''] 5 demo_backend = Ok False"
  using wait_for_messages_meaning [of "[''u'']" "snd (inmem_ensure_topic ''u'' 1 demo_backend)"
      "[(''u'', 0)]" "\<lambda>_. 0" "\<lambda>_ _ _. True" 5]
    wait_for_messages_meaning [of "[''t'']" demo_backend "[(''t'', 0), (''t'', 1)]" "\<lambda>_. 0"
      "\<lambda>_ _ _. True" 5]
  by (auto simp: inmem_get_partition_notifies_def demo_backend_def inmem_ensure_topic_open
      inmem_set_topic_def topic_get_partition_notify_def topic_get_partition_new
      numeral_2_eq_2 partition_new_def)

text \<open>The metadata of one topic of an open, well-formed backend lists its partitions in order,
  each with its index, its window and its number of messages. If the topic was created with a
  negative number of partitions, which the configuration allows, asking for its metadata
  panics.\<close>

theorem topic_metadata_spec:
  assumes "wf_backend b" and "\<not> im_shutdown b" and "inmem_count b name = Some n"
  shows "(n < 0 \<longrightarrow> inmem_metadata ord bid (Some name) b = Panic CapacityOverflow) \<and>
    (0 \<le> n \<longrightarrow> (\<exists>pms. inmem_metadata ord bid (Some name) b =
         Ok \<lparr>md_broker_id = bid,
             md_topics = [\<lparr>tmd_name = name, tmd_partitions = pms, tmd_error = None\<rparr>]\<rparr> \<and>
       length pms = nat n \<and>
       (\<forall>i p. inmem_partition b name i = Some p \<longrightarrow>
          pms ! nat i =
            \<lparr>pmd_id = i,
             pmd_oldest_offset = (if first_offset p = end_offset p then 0 else first_offset p),
             pmd_newest_offset = end_offset p - 1,
             pmd_message_count = end_offset p - first_offset p\<rparr>)))"
proof -
  obtain t where t: "map_of (im_topics b) name = Some t" "tp_partition_count t = n"
    using assms(3) by (auto simp: inmem_count_def)
  have "0 \<le> i \<and> nat i < nat n" if "inmem_partition b name i = Some p" for i p
    using inmem_partition_count [OF assms(1), of name i] that assms(3) by auto
  then show ?thesis
    using inmem_metadata_one [OF assms(1,2) t(1), of ord bid] t
      partition_metadata_of_partition [OF assms(1) t(1)] by auto
qed

theorem topic_metadata_spec_witness:
  "inmem_metadata remdups ''b'' (Some ''u'') (snd (inmem_ensure_topic ''u'' (-1) demo_backend)) =
     Panic CapacityOverflow"
proof -
  have "wf_backend (snd (inmem_ensure_topic ''u'' (-1) demo_backend))"
    using backend_reachable_wf [OF demo_backend_reachable] by (simp add: wf_ensure_topic)
  moreover have "inmem_count demo_backend ''u'' = None"
    by (simp add: demo_backend_def inmem_count_ensure) (simp add: inmem_count_def)
  ultimately show ?thesis
    using topic_metadata_spec [of "snd (inmem_ensure_topic ''u'' (-1) demo_backend)" "''u''" "-1"
        remdups "''b''"]
    by (simp add: inmem_count_ensure)
qed

end
