(* ===== verification/Offset_Store.thy ===== *)
theory Offset_Store
  imports Rmq_Error
begin

text \<open>
  \<open>src/offset_store.rs\<close>: the committed offsets of the consumer groups, a map keyed by group, topic
  and partition, and the contract of the trait \<open>OffsetStore\<close>.
\<close>

type_synonym offset_key = "string \<times> string \<times> i32"

record offset_store =
  os_offsets :: "(offset_key, i64) hashmap"

definition offset_store_new :: offset_store where
  "offset_store_new = \<lparr>os_offsets = []\<rparr>"

definition offset_commit ::
    "string \<Rightarrow> string \<Rightarrow> i32 \<Rightarrow> i64 \<Rightarrow> offset_store \<Rightarrow> unit res \<times> offset_store" where
  "offset_commit g t p off s =
     (Ok (), s\<lparr>os_offsets := AList.update (g, t, p) off (os_offsets s)\<rparr>)"

definition offset_committed ::
    "string \<Rightarrow> string \<Rightarrow> i32 \<Rightarrow> offset_store \<Rightarrow> i64 option res" where
  "offset_committed g t p s = Ok (map_of (os_offsets s) (g, t, p))"


section \<open>The contract of an offset store\<close>

locale offset_store_contract =
  fixes commit :: "string \<Rightarrow> string \<Rightarrow> i32 \<Rightarrow> i64 \<Rightarrow> 's \<Rightarrow> unit res \<times> 's"
    and committed :: "string \<Rightarrow> string \<Rightarrow> i32 \<Rightarrow> 's \<Rightarrow> i64 option res"
  assumes commit_ok: "fst (commit g t p off s) = Ok ()"
    and committed_commit: "committed g' t' p' (snd (commit g t p off s)) =
      (if (g', t', p') = (g, t, p) then Ok (Some off) else committed g' t' p' s)"
begin

text \<open>After any sequence of commits, a key answers with its latest commit, or as before.\<close>

lemma committed_run:
  "committed g t p (fold (\<lambda>((g, t, p), off) s. snd (commit g t p off s)) cs s) =
     (case map_of (rev cs) (g, t, p) of Some off \<Rightarrow> Ok (Some off) | None \<Rightarrow> committed g t p s)"
proof (induction cs rule: rev_induct)
  case Nil
  then show ?case by simp
next
  case (snoc c cs)
  obtain g' t' p' off where c: "c = ((g', t', p'), off)" by (metis surj_pair)
  show ?case using snoc by (simp add: c committed_commit)
qed

end

interpretation ostore: offset_store_contract offset_commit offset_committed
  by unfold_locales (auto simp: offset_commit_def offset_committed_def)

end
