(* ===== verification/Assignor.thy ===== *)
theory Assignor
  imports Topic_Partition "HOL-Library.Char_ord" "HOL-Library.List_Lexorder"
begin

text \<open>
  \<open>src/partition_assignor.rs\<close>: how the partitions of the subscribed topics are divided among the
  members of a consumer group. Member names are compared as byte strings, which is the order
  of Rust's \<open>str\<close>. The set of all topics is iterated in the unspecified order of a \<open>HashSet\<close>, the
  argument \<open>h\<close>.
\<close>

type_synonym member_topics = "(string, string list) hashmap"
type_synonym partition_counts = "(string, i32) hashmap"
type_synonym assignments = "(string, topic_partition_list) hashmap"


section \<open>The round-robin assignor\<close>

definition assignor_name :: string where
  "assignor_name = ''roundrobin''"

definition sorted_members :: "member_topics \<Rightarrow> string list" where
  "sorted_members mt = sort (map fst mt)"

definition subscribed_members :: "member_topics \<Rightarrow> string \<Rightarrow> string list" where
  "subscribed_members mt topic =
     filter (\<lambda>m. case map_of mt m of Some ts \<Rightarrow> topic \<in> set ts | None \<Rightarrow> False) (sorted_members mt)"

definition assign_one ::
    "string \<Rightarrow> string list \<Rightarrow> i32 \<Rightarrow> assignments \<Rightarrow> assignments res" where
  "assign_one topic subscribed p a =
     (let m = subscribed ! (nat p mod length subscribed)
      in case map_of a m of
           None \<Rightarrow> Panic (ExpectNone ''called `Option::unwrap()` on a `None` value'')
         | Some l \<Rightarrow> Ok (AList.update m (tpl_add_partition topic p l) a))"

fun assign_partitions ::
    "string \<Rightarrow> string list \<Rightarrow> i32 list \<Rightarrow> assignments \<Rightarrow> assignments res" where
  "assign_partitions topic subscribed [] a = Ok a"
| "assign_partitions topic subscribed (p # ps) a =
     res_bind (assign_one topic subscribed p a) (assign_partitions topic subscribed ps)"

definition assign_topic ::
    "member_topics \<Rightarrow> partition_counts \<Rightarrow> string \<Rightarrow> assignments \<Rightarrow> assignments res" where
  "assign_topic mt pc topic a =
     (case map_of pc topic of
        None \<Rightarrow> Ok a
      | Some n \<Rightarrow>
          (let subscribed = subscribed_members mt topic
           in if length subscribed = 0 \<or> n = 0 then Ok a
              else assign_partitions topic subscribed (map int [0..<nat n]) a))"

fun assign_topics ::
    "member_topics \<Rightarrow> partition_counts \<Rightarrow> string list \<Rightarrow> assignments \<Rightarrow> assignments res" where
  "assign_topics mt pc [] a = Ok a"
| "assign_topics mt pc (t # ts) a = res_bind (assign_topic mt pc t a) (assign_topics mt pc ts)"

definition round_robin_assign ::
    "(string list \<Rightarrow> string list) \<Rightarrow> member_topics \<Rightarrow> partition_counts \<Rightarrow> assignments res" where
  "round_robin_assign h mt pc =
     (let assignments = map (\<lambda>m. (m, tpl_new)) (sorted_members mt);
          all_topics = h (concat (map snd mt))
      in assign_topics mt pc all_topics assignments)"


section \<open>What it assigns\<close>

text \<open>The owner of a partition: the subscribers of its topic take turns.\<close>

definition owner :: "member_topics \<Rightarrow> partition_counts \<Rightarrow> string \<Rightarrow> i32 \<Rightarrow> string option" where
  "owner mt pc t p =
     (case map_of pc t of
        None \<Rightarrow> None
      | Some n \<Rightarrow>
          (let subs = subscribed_members mt t
           in if 0 \<le> p \<and> p < n \<and> subs \<noteq> [] then Some (subs ! (nat p mod length subs)) else None))"

definition keys_of :: "assignments \<Rightarrow> string \<Rightarrow> (string \<times> i32) list" where
  "keys_of a m = (case map_of a m of Some l \<Rightarrow> tpl_keys l | None \<Rightarrow> [])"

lemma subscribed_members_iff:
  "m \<in> set (subscribed_members mt t) \<longleftrightarrow> (\<exists>ts. map_of mt m = Some ts \<and> t \<in> set ts)"
proof -
  have "m \<in> fst ` set mt" if "map_of mt m = Some ts" for ts
    using that by (simp add: keys_map_of)
  then show ?thesis
    by (auto simp: subscribed_members_def sorted_members_def split: option.splits)
qed

lemma subscribed_members_distinct: "hm_wf mt \<Longrightarrow> distinct (subscribed_members mt t)"
  by (simp add: subscribed_members_def sorted_members_def hm_wf_def)

lemma assign_one_ok:
  assumes "subs \<noteq> []" and "set subs \<subseteq> fst ` set a"
  shows "\<exists>l. assign_one t subs p a =
      Ok (AList.update (subs ! (nat p mod length subs)) (tpl_add_partition t p l) a) \<and>
    map_of a (subs ! (nat p mod length subs)) = Some l"
proof -
  have "subs ! (nat p mod length subs) \<in> set subs" using assms(1) by simp
  then obtain l where "map_of a (subs ! (nat p mod length subs)) = Some l"
    using assms(2) keys_map_of [of "subs ! (nat p mod length subs)" a] by auto
  then show ?thesis by (simp add: assign_one_def Let_def)
qed

text \<open>The loop over the partitions of one topic appends to each member the partitions it owns.\<close>

lemma assign_partitions_ok:
  assumes "subs \<noteq> []" and "set subs \<subseteq> fst ` set a" and "hm_wf a"
  shows "\<exists>a'. assign_partitions t subs ps a = Ok a' \<and> hm_wf a' \<and> fst ` set a' = fst ` set a \<and>
    (\<forall>m. keys_of a' m =
      keys_of a m @ map (\<lambda>p. (t, p)) (filter (\<lambda>p. subs ! (nat p mod length subs) = m) ps))"
  using assms(2,3)
proof (induction ps arbitrary: a)
  case Nil
  then show ?case by simp
next
  case (Cons p ps)
  let ?m = "subs ! (nat p mod length subs)"
  obtain l where l: "map_of a ?m = Some l"
    "assign_one t subs p a = Ok (AList.update ?m (tpl_add_partition t p l) a)"
    using assign_one_ok [OF assms(1) Cons.prems(1), of t p] by blast
  let ?a = "AList.update ?m (tpl_add_partition t p l) a"
  have in_a: "?m \<in> fst ` set a" using l(1) keys_map_of [of ?m a] by simp
  then have dom: "fst ` set ?a = fst ` set a" by auto
  obtain a' where a': "assign_partitions t subs ps ?a = Ok a'" "hm_wf a'"
    "fst ` set a' = fst ` set ?a"
    "\<forall>m. keys_of a' m =
      keys_of ?a m @ map (\<lambda>p. (t, p)) (filter (\<lambda>p. subs ! (nat p mod length subs) = m) ps)"
    using Cons.IH [of ?a] Cons.prems dom by (metis hm_wf_update)
  have "keys_of ?a m = keys_of a m @ (if ?m = m then [(t, p)] else [])" for m
    using l(1) by (auto simp: keys_of_def)
  with a' show ?case using l(2) dom by auto
qed

lemma assign_topic_ok:
  assumes "fst ` set a = fst ` set mt" and "hm_wf a"
  shows "\<exists>a'. assign_topic mt pc t a = Ok a' \<and> hm_wf a' \<and> fst ` set a' = fst ` set mt \<and>
    (\<forall>m. \<exists>ps. keys_of a' m = keys_of a m @ map (\<lambda>p. (t, p)) ps \<and> distinct ps \<and>
       (\<forall>p. p \<in> set ps \<longleftrightarrow> owner mt pc t p = Some m))"
proof (cases "map_of pc t")
  case None
  then show ?thesis
    using assms by (auto simp: assign_topic_def owner_def intro!: exI [of _ "[]"])
next
  case (Some n)
  let ?subs = "subscribed_members mt t"
  show ?thesis
  proof (cases "length ?subs = 0 \<or> n = 0")
    case True
    then show ?thesis
      using assms Some by (auto simp: assign_topic_def owner_def Let_def intro!: exI [of _ "[]"])
  next
    case False
    have "set ?subs \<subseteq> fst ` set a"
      using assms(1) keys_map_of [of _ mt] by (auto simp: subscribed_members_iff)
    then obtain a' where a': "assign_partitions t ?subs (map int [0..<nat n]) a = Ok a'" "hm_wf a'"
      "fst ` set a' = fst ` set a"
      "\<forall>m. keys_of a' m = keys_of a m @ map (\<lambda>p. (t, p))
         (filter (\<lambda>p. ?subs ! (nat p mod length ?subs) = m) (map int [0..<nat n]))"
      using assign_partitions_ok [of ?subs a t "map int [0..<nat n]"] False assms(2) by auto
    have "p \<in> set (filter (\<lambda>p. ?subs ! (nat p mod length ?subs) = m) (map int [0..<nat n])) \<longleftrightarrow>
        owner mt pc t p = Some m" for p m
      using False Some
      by (auto simp: owner_def Let_def image_iff intro: bexI [of _ "nat p"])
    moreover have "distinct (filter Q (map int [0..<nat n]))" for Q
      by (simp add: distinct_map)
    ultimately show ?thesis
      using a' False Some assms(1) by (auto simp: assign_topic_def Let_def)
  qed
qed

lemma assign_topics_ok:
  assumes "fst ` set a = fst ` set mt" and "hm_wf a" and "distinct ts"
    and "\<forall>m. distinct (keys_of a m) \<and> fst ` set (keys_of a m) \<inter> set ts = {}"
  shows "\<exists>a'. assign_topics mt pc ts a = Ok a' \<and> hm_wf a' \<and> fst ` set a' = fst ` set mt \<and>
    (\<forall>m. distinct (keys_of a' m) \<and> (\<forall>t p. (t, p) \<in> set (keys_of a' m) \<longleftrightarrow>
       (t, p) \<in> set (keys_of a m) \<or> (t \<in> set ts \<and> owner mt pc t p = Some m)))"
  using assms
proof (induction ts arbitrary: a)
  case Nil
  then show ?case by simp
next
  case (Cons t ts)
  obtain a1 where a1: "assign_topic mt pc t a = Ok a1" "hm_wf a1" "fst ` set a1 = fst ` set mt"
    "\<forall>m. \<exists>ps. keys_of a1 m = keys_of a m @ map (\<lambda>p. (t, p)) ps \<and> distinct ps \<and>
       (\<forall>p. p \<in> set ps \<longleftrightarrow> owner mt pc t p = Some m)"
    using assign_topic_ok [OF Cons.prems(1,2)] by blast
  have k: "distinct (keys_of a1 m) \<and> fst ` set (keys_of a1 m) \<inter> set ts = {} \<and>
      (\<forall>t' p. (t', p) \<in> set (keys_of a1 m) \<longleftrightarrow>
         (t', p) \<in> set (keys_of a m) \<or> (t' = t \<and> owner mt pc t p = Some m))" for m
  proof -
    obtain ps where "keys_of a1 m = keys_of a m @ map (\<lambda>p. (t, p)) ps" "distinct ps"
      "\<forall>p. p \<in> set ps \<longleftrightarrow> owner mt pc t p = Some m"
      using a1(4) by blast
    then show ?thesis
      using Cons.prems(3,4) by (fastforce simp: distinct_map inj_on_def image_iff)
  qed
  then obtain a2 where "assign_topics mt pc ts a1 = Ok a2" "hm_wf a2" "fst ` set a2 = fst ` set mt"
    "\<forall>m. distinct (keys_of a2 m) \<and> (\<forall>t p. (t, p) \<in> set (keys_of a2 m) \<longleftrightarrow>
       (t, p) \<in> set (keys_of a1 m) \<or> (t \<in> set ts \<and> owner mt pc t p = Some m))"
    using Cons.IH [OF a1(3,2)] Cons.prems(3) by (metis distinct.simps(2))
  then show ?case using a1(1) k by auto
qed

lemma owner_Some:
  assumes "owner mt pc t p = Some m"
  shows "\<exists>n. map_of pc t = Some n \<and> 0 \<le> p \<and> p < n"
    and "\<exists>ts. map_of mt m = Some ts \<and> t \<in> set ts"
proof -
  let ?subs = "subscribed_members mt t"
  obtain n where n: "map_of pc t = Some n" "0 \<le> p" "p < n" "?subs \<noteq> []"
    "m = ?subs ! (nat p mod length ?subs)"
    using assms by (auto simp: owner_def Let_def split: option.splits if_splits)
  then show "\<exists>n. map_of pc t = Some n \<and> 0 \<le> p \<and> p < n" by blast
  have "m \<in> set ?subs" using n(4,5) by simp
  then show "\<exists>ts. map_of mt m = Some ts \<and> t \<in> set ts" by (simp add: subscribed_members_iff)
qed

lemma owner_total:
  assumes "map_of pc t = Some n" and "0 \<le> p" and "p < n" and "map_of mt m = Some ts" and "t \<in> set ts"
  shows "\<exists>m'. owner mt pc t p = Some m'"
proof -
  have "m \<in> set (subscribed_members mt t)" using assms by (simp add: subscribed_members_iff)
  then show ?thesis using assms by (auto simp: owner_def Let_def)
qed

text \<open>The assignment, whatever the iteration order: every member gets the partitions it owns.\<close>

lemma round_robin_assign_ok:
  assumes "hm_wf mt" and "hash_order h"
  shows "\<exists>a. round_robin_assign h mt pc = Ok a \<and> hm_wf a \<and> fst ` set a = fst ` set mt \<and>
    (\<forall>m. distinct (keys_of a m) \<and>
       (\<forall>t p. (t, p) \<in> set (keys_of a m) \<longleftrightarrow> owner mt pc t p = Some m))"
proof -
  let ?a = "map (\<lambda>m. (m, tpl_new)) (sorted_members mt)"
  let ?ts = "h (concat (map snd mt))"
  have "map fst ?a = sorted_members mt" by (simp add: comp_def)
  then have a: "fst ` set ?a = fst ` set mt" "hm_wf ?a"
    using assms(1) by (simp_all add: image_image sorted_members_def hm_wf_def)
  have e: "keys_of ?a m = []" for m
    by (auto simp: keys_of_def map_of_eq_None_iff split: option.splits dest!: map_of_SomeD)
  have "\<forall>m. distinct (keys_of ?a m) \<and> fst ` set (keys_of ?a m) \<inter> set ?ts = {}"
    by (simp only: e) simp
  from assign_topics_ok [OF a hash_orderD(1) [OF assms(2)] this, of pc]
  obtain a' where a': "assign_topics mt pc ?ts ?a = Ok a'" "hm_wf a'" "fst ` set a' = fst ` set mt"
    "\<forall>m. distinct (keys_of a' m) \<and> (\<forall>t p. (t, p) \<in> set (keys_of a' m) \<longleftrightarrow>
       (t, p) \<in> set (keys_of ?a m) \<or> (t \<in> set ?ts \<and> owner mt pc t p = Some m))"
    by blast
  have "t \<in> set ?ts" if o: "owner mt pc t p = Some m" for t p m
  proof -
    obtain ts where "map_of mt m = Some ts" "t \<in> set ts" using owner_Some(2) [OF o] by blast
    then have "t \<in> set (concat (map snd mt))" by (force dest: map_of_SomeD)
    then show ?thesis by (simp add: hash_orderD(2) [OF assms(2)])
  qed
  with a' show ?thesis by (auto simp: round_robin_assign_def Let_def e)
qed


section \<open>The contract of an assignor\<close>

locale partition_assignor =
  fixes assign :: "(string list \<Rightarrow> string list) \<Rightarrow> member_topics \<Rightarrow> partition_counts \<Rightarrow> assignments res"
  assumes assign_ok: "hm_wf mt \<Longrightarrow> hash_order h \<Longrightarrow>
      \<exists>a. assign h mt pc = Ok a \<and> hm_wf a \<and> fst ` set a = fst ` set mt"
    and assign_distinct: "hm_wf mt \<Longrightarrow> hash_order h \<Longrightarrow> assign h mt pc = Ok a \<Longrightarrow> distinct (keys_of a m)"
    and assign_sound: "hm_wf mt \<Longrightarrow> hash_order h \<Longrightarrow> assign h mt pc = Ok a \<Longrightarrow>
      (t, p) \<in> set (keys_of a m) \<Longrightarrow>
      (\<exists>ts. map_of mt m = Some ts \<and> t \<in> set ts) \<and> (\<exists>n. map_of pc t = Some n \<and> 0 \<le> p \<and> p < n)"
    and assign_cover: "hm_wf mt \<Longrightarrow> hash_order h \<Longrightarrow> assign h mt pc = Ok a \<Longrightarrow>
      map_of mt m = Some ts \<Longrightarrow> t \<in> set ts \<Longrightarrow> map_of pc t = Some n \<Longrightarrow> 0 \<le> p \<Longrightarrow> p < n \<Longrightarrow>
      \<exists>!m'. (t, p) \<in> set (keys_of a m')"
begin

lemma assign_unique:
  assumes "hm_wf mt" and "hash_order h" and "assign h mt pc = Ok a"
    and "(t, p) \<in> set (keys_of a m)" and "(t, p) \<in> set (keys_of a m')"
  shows "m = m'"
  using assign_sound [OF assms(1-4)] assign_cover [OF assms(1-3)] assms(4,5) by metis

text \<open>A topic without a partition count is not assigned at all.\<close>

lemma assign_unknown_topic:
  assumes "hm_wf mt" and "hash_order h" and "assign h mt pc = Ok a" and "map_of pc t = None"
  shows "(t, p) \<notin> set (keys_of a m)"
  using assign_sound [OF assms(1-3), of t p m] assms(4) by auto

end

interpretation rra: partition_assignor round_robin_assign
proof (unfold_locales, goal_cases)
  case (1 mt h pc)
  then show ?case using round_robin_assign_ok [of mt h pc] by blast
next
  case (2 mt h pc a m)
  then show ?case using round_robin_assign_ok [of mt h pc] by auto
next
  case (3 mt h pc a t p m)
  then have "owner mt pc t p = Some m" using round_robin_assign_ok [of mt h pc] by auto
  then show ?case using owner_Some by blast
next
  case (4 mt h pc a m ts t n p)
  then have "\<forall>m'. (t, p) \<in> set (keys_of a m') \<longleftrightarrow> owner mt pc t p = Some m'"
    using round_robin_assign_ok [of mt h pc] by auto
  then show ?case using owner_total [of pc t n p mt m ts] 4 by auto
qed


section \<open>Balance\<close>

lemma card_residues:
  assumes "i < (k::nat)"
  shows "card {p. p < n \<and> p mod k = i} = n div k + (if i < n mod k then 1 else 0)"
proof (induction n)
  case 0
  then show ?case by simp
next
  case (Suc n)
  have "{p. p < Suc n \<and> p mod k = i} =
      (if n mod k = i then insert n {p. p < n \<and> p mod k = i} else {p. p < n \<and> p mod k = i})"
    by (auto simp: less_Suc_eq)
  then have "card {p. p < Suc n \<and> p mod k = i} =
      card {p. p < n \<and> p mod k = i} + (if n mod k = i then 1 else 0)"
    by simp
  then show ?case
    using Suc assms by (auto simp: mod_Suc div_Suc)
qed

lemma share_owner:
  assumes "hm_wf mt" and "map_of pc t = Some n" and "0 \<le> n"
    and "i < length (subscribed_members mt t)" and "subscribed_members mt t ! i = m"
  shows "card {p. owner mt pc t p = Some m} =
    nat n div length (subscribed_members mt t) +
      (if i < nat n mod length (subscribed_members mt t) then 1 else 0)"
proof -
  let ?subs = "subscribed_members mt t"
  have "?subs ! j = m \<longleftrightarrow> j = i" if "j < length ?subs" for j
    using nth_eq_iff_index_eq [OF subscribed_members_distinct [OF assms(1)] that assms(4)] assms(5)
    by auto
  moreover have pos: "0 < length ?subs" using assms(4) by linarith
  ultimately have turn: "?subs ! (q mod length ?subs) = m \<longleftrightarrow> q mod length ?subs = i" for q
    by simp
  have own: "owner mt pc t p = Some m \<longleftrightarrow>
      0 \<le> p \<and> p < n \<and> ?subs ! (nat p mod length ?subs) = m" for p
    using assms(2) pos by (auto simp: owner_def Let_def)
  have "{p. owner mt pc t p = Some m} = int ` {q. q < nat n \<and> q mod length ?subs = i}"
  proof (intro set_eqI iffI)
    fix p assume "p \<in> {p. owner mt pc t p = Some m}"
    then have "0 \<le> p" "nat p < nat n" "nat p mod length ?subs = i"
      using own turn by simp_all
    then show "p \<in> int ` {q. q < nat n \<and> q mod length ?subs = i}"
      by (intro image_eqI [of _ _ "nat p"]) simp_all
  next
    fix p assume "p \<in> int ` {q. q < nat n \<and> q mod length ?subs = i}"
    then show "p \<in> {p. owner mt pc t p = Some m}" using own turn by auto
  qed
  then show ?thesis
    using card_residues [OF assms(4), of "nat n"] by (simp add: card_image)
qed


section \<open>Properties\<close>

definition demo_members :: member_topics where
  "demo_members = [(''b'', [''t'']), (''a'', [''t'', ''u''])]"

lemma demo_members_wf [simp]: "hm_wf demo_members"
  by (simp add: demo_members_def hm_wf_def)

text \<open>C30: Whatever the iteration order of the set of topics, the round-robin assignor succeeds and
  gives every member of the group an entry. A member is assigned a partition only of a topic it
  subscribes to and whose partition count it is given, only a valid one, and no partition twice;
  and every partition of a subscribed topic with a known count is assigned to exactly one
  member.\<close>

theorem round_robin_assign_spec:
  assumes "hm_wf mt" and "hash_order h"
  shows "\<exists>a. round_robin_assign h mt pc = Ok a \<and> fst ` set a = fst ` set mt \<and>
    (\<forall>m. distinct (keys_of a m)) \<and>
    (\<forall>m t p. (t, p) \<in> set (keys_of a m) \<longrightarrow>
       (\<exists>ts. map_of mt m = Some ts \<and> t \<in> set ts) \<and> (\<exists>n. map_of pc t = Some n \<and> 0 \<le> p \<and> p < n)) \<and>
    (\<forall>m ts t n p. map_of mt m = Some ts \<longrightarrow> t \<in> set ts \<longrightarrow> map_of pc t = Some n \<longrightarrow> 0 \<le> p \<longrightarrow>
       p < n \<longrightarrow> (\<exists>!m'. (t, p) \<in> set (keys_of a m')))"
proof -
  obtain a where a: "round_robin_assign h mt pc = Ok a" "fst ` set a = fst ` set mt"
    using rra.assign_ok [OF assms, of pc] by blast
  show ?thesis
    by (intro exI [of _ a] conjI allI impI)
       (use a rra.assign_distinct [OF assms a(1)] rra.assign_sound [OF assms a(1)]
         rra.assign_cover [OF assms a(1)] in \<open>simp_all only:\<close>)
qed

theorem round_robin_assign_spec_witness:
  "\<exists>a. round_robin_assign remdups demo_members [(''t'', 3), (''u'', 1)] = Ok a \<and>
     (\<exists>!m'. (''t'', 2) \<in> set (keys_of a m'))"
proof -
  have "map_of demo_members ''b'' = Some [''t'']" by (simp add: demo_members_def)
  then show ?thesis
    using round_robin_assign_spec [of demo_members remdups "[(''t'', 3), (''u'', 1)]"] by fastforce
qed

text \<open>C40: The round-robin assignment of a topic is balanced: of any two members that subscribe to it,
  one has at most one partition of it more than the other.\<close>

theorem round_robin_assign_balanced:
  assumes "hm_wf mt" and "hash_order h" and "round_robin_assign h mt pc = Ok a"
    and "map_of mt m = Some ts" and "t \<in> set ts" and "map_of mt m' = Some ts'" and "t \<in> set ts'"
  shows "card {p. (t, p) \<in> set (keys_of a m)} \<le> card {p. (t, p) \<in> set (keys_of a m')} + 1"
proof (cases "\<exists>n. map_of pc t = Some n \<and> 0 \<le> n")
  case False
  then have "(t, p) \<notin> set (keys_of a m)" for p
    using rra.assign_sound [OF assms(1-3), of t p m] by fastforce
  then show ?thesis by simp
next
  case True
  then obtain n where n: "map_of pc t = Some n" "0 \<le> n" by blast
  have k: "{p. (t, p) \<in> set (keys_of a m)} = {p. owner mt pc t p = Some m}" for m
    using round_robin_assign_ok [OF assms(1,2), of pc] assms(3) by auto
  have "m \<in> set (subscribed_members mt t)" "m' \<in> set (subscribed_members mt t)"
    using assms(4-7) by (auto simp: subscribed_members_iff)
  then obtain i j where
    "i < length (subscribed_members mt t)" "subscribed_members mt t ! i = m"
    "j < length (subscribed_members mt t)" "subscribed_members mt t ! j = m'"
    by (auto simp: in_set_conv_nth)
  then show ?thesis by (simp add: k share_owner [OF assms(1) n])
qed

theorem round_robin_assign_balanced_witness:
  "\<exists>a. round_robin_assign remdups demo_members [(''t'', 3)] = Ok a \<and>
     card {p. (''t'', p) \<in> set (keys_of a ''a'')} \<le> card {p. (''t'', p) \<in> set (keys_of a ''b'')} + 1"
proof -
  obtain a where "round_robin_assign remdups demo_members [(''t'', 3)] = Ok a"
    using round_robin_assign_ok [OF demo_members_wf hash_order_remdups] by blast
  then show ?thesis
    using round_robin_assign_balanced [OF demo_members_wf hash_order_remdups, of _ a "''a''" _ "''t''" "''b''"]
    by (auto simp: demo_members_def)
qed

end
