(* ===== verification/Consumer_Group.thy ===== *)
theory Consumer_Group
  imports Assignor Offset_Store
begin

text \<open>
  \<open>src/consumer_group.rs\<close>: the members of a consumer group, their subscriptions and their current
  assignments. Joining and leaving rebalance the group through the assignor, which is an
  argument (\<open>dyn PartitionAssignor\<close>); the committed offsets are in the broker's offset store.
\<close>

record group_member =
  gm_member_id :: string
  gm_subscribed_topics :: "string list"

record consumer_group =
  cg_group_id :: string
  cg_members :: "(string, group_member) hashmap"
  cg_member_topics :: member_topics
  cg_assignments :: assignments

type_synonym assign_fn = "member_topics \<Rightarrow> partition_counts \<Rightarrow> assignments res"

definition group_new :: "string \<Rightarrow> consumer_group" where
  "group_new gid =
     \<lparr>cg_group_id = gid, cg_members = [], cg_member_topics = [], cg_assignments = []\<rparr>"

definition rebalance ::
    "assign_fn \<Rightarrow> partition_counts \<Rightarrow> consumer_group \<Rightarrow> unit res \<times> consumer_group" where
  "rebalance assign counts g =
     (if cg_members g = [] then (Ok (), g\<lparr>cg_assignments := []\<rparr>)
      else case assign (cg_member_topics g) counts of
             Ok a \<Rightarrow> (Ok (), g\<lparr>cg_assignments := a\<rparr>)
           | Err _ \<Rightarrow> (Ok (), g)
           | Panic x \<Rightarrow> (Panic x, g))"

definition group_join ::
    "assign_fn \<Rightarrow> string \<Rightarrow> string list \<Rightarrow> partition_counts \<Rightarrow> consumer_group
     \<Rightarrow> topic_partition_list res \<times> consumer_group" where
  "group_join assign member_id topics counts g =
     (let g = g\<lparr>cg_members := AList.update member_id
                  \<lparr>gm_member_id = member_id, gm_subscribed_topics = topics\<rparr> (cg_members g)\<rparr>;
          g = g\<lparr>cg_member_topics := AList.update member_id topics (cg_member_topics g)\<rparr>;
          (r, g) = rebalance assign counts g
      in (res_bind r (\<lambda>_. case map_of (cg_assignments g) member_id of
             Some l \<Rightarrow> Ok l
           | None \<Rightarrow> Err (Custom (''no assignment for member '' @ member_id))), g))"

definition group_leave ::
    "assign_fn \<Rightarrow> string \<Rightarrow> partition_counts \<Rightarrow> consumer_group \<Rightarrow> unit res \<times> consumer_group" where
  "group_leave assign member_id counts g =
     (let g = g\<lparr>cg_members := AList.delete member_id (cg_members g)\<rparr>;
          g = g\<lparr>cg_member_topics := AList.delete member_id (cg_member_topics g)\<rparr>;
          g = g\<lparr>cg_assignments := AList.delete member_id (cg_assignments g)\<rparr>
      in if cg_members g \<noteq> [] then rebalance assign counts g else (Ok (), g))"

definition group_commit_offset ::
    "string \<Rightarrow> i32 \<Rightarrow> i64 \<Rightarrow> consumer_group \<Rightarrow> offset_store \<Rightarrow> unit res \<times> offset_store" where
  "group_commit_offset topic p off g s = offset_commit (cg_group_id g) topic p off s"

definition group_committed_offset ::
    "string \<Rightarrow> i32 \<Rightarrow> consumer_group \<Rightarrow> offset_store \<Rightarrow> i64 option res" where
  "group_committed_offset topic p g s = offset_committed (cg_group_id g) topic p s"

definition group_assignment :: "string \<Rightarrow> consumer_group \<Rightarrow> topic_partition_list option" where
  "group_assignment member_id g = map_of (cg_assignments g) member_id"


section \<open>Well-formed groups\<close>

text \<open>The three maps agree on who is a member; only members have an assignment, of topics they
  subscribe to, and no partition is assigned to two members.\<close>

definition wf_group :: "consumer_group \<Rightarrow> bool" where
  "wf_group g \<longleftrightarrow> hm_wf (cg_members g) \<and> hm_wf (cg_member_topics g) \<and> hm_wf (cg_assignments g) \<and>
     (\<forall>m. map_of (cg_member_topics g) m = map_option gm_subscribed_topics (map_of (cg_members g) m)) \<and>
     (\<forall>m. map_of (cg_assignments g) m \<noteq> None \<longrightarrow> map_of (cg_members g) m \<noteq> None) \<and>
     (\<forall>m t p. (t, p) \<in> set (keys_of (cg_assignments g) m) \<longrightarrow>
        (\<exists>ts. map_of (cg_member_topics g) m = Some ts \<and> t \<in> set ts)) \<and>
     (\<forall>m m' t p. (t, p) \<in> set (keys_of (cg_assignments g) m) \<longrightarrow>
        (t, p) \<in> set (keys_of (cg_assignments g) m') \<longrightarrow> m = m')"

lemma wf_group_new [rmq_wf]: "wf_group (group_new gid)"
  by (simp add: wf_group_def group_new_def keys_of_def)

lemma wf_groupD:
  assumes "wf_group g"
  shows "hm_wf (cg_members g)" and "hm_wf (cg_member_topics g)" and "hm_wf (cg_assignments g)"
    and "map_of (cg_member_topics g) m = map_option gm_subscribed_topics (map_of (cg_members g) m)"
    and "(t, p) \<in> set (keys_of (cg_assignments g) m) \<Longrightarrow>
      (t, p) \<in> set (keys_of (cg_assignments g) m') \<Longrightarrow> m = m'"
    and "(t, p) \<in> set (keys_of (cg_assignments g) m) \<Longrightarrow>
      \<exists>ts. map_of (cg_member_topics g) m = Some ts \<and> t \<in> set ts"
proof -
  note d = assms [unfolded wf_group_def]
  show "hm_wf (cg_members g)" "hm_wf (cg_member_topics g)" "hm_wf (cg_assignments g)"
    using d by simp_all
  show "map_of (cg_member_topics g) m = map_option gm_subscribed_topics (map_of (cg_members g) m)"
    using d by simp
  show "m = m'" if "(t, p) \<in> set (keys_of (cg_assignments g) m)"
    "(t, p) \<in> set (keys_of (cg_assignments g) m')"
    using conjunct2 [OF conjunct2 [OF conjunct2 [OF conjunct2 [OF conjunct2 [OF conjunct2 [OF d]]]]]]
      that by blast
  show "\<exists>ts. map_of (cg_member_topics g) m = Some ts \<and> t \<in> set ts"
    if "(t, p) \<in> set (keys_of (cg_assignments g) m)"
    using conjunct1 [OF conjunct2 [OF conjunct2 [OF conjunct2 [OF conjunct2 [OF conjunct2 [OF d]]]]]]
      that by blast
qed

text \<open>What a rebalance through an assignor that keeps its contract leaves behind.\<close>

context partition_assignor
begin

lemma rebalance_ok:
  assumes "hm_wf (cg_member_topics g)" and "hash_order h"
    and "\<forall>m. map_of (cg_member_topics g) m = map_option gm_subscribed_topics (map_of (cg_members g) m)"
    and "hm_wf (cg_members g)" and "cg_members g \<noteq> []"
  shows "\<exists>a. assign h (cg_member_topics g) pc = Ok a \<and>
    rebalance (assign h) pc g = (Ok (), g\<lparr>cg_assignments := a\<rparr>) \<and>
    wf_group (g\<lparr>cg_assignments := a\<rparr>) \<and> fst ` set a = fst ` set (cg_members g)"
proof -
  obtain a where a: "assign h (cg_member_topics g) pc = Ok a" "hm_wf a"
    "fst ` set a = fst ` set (cg_member_topics g)"
    using assign_ok [OF assms(1,2)] by blast
  have dom: "m \<in> fst ` set (cg_member_topics g) \<longleftrightarrow> m \<in> fst ` set (cg_members g)" for m
    using assms(3) by (simp add: keys_map_of)
  have "map_of a m \<noteq> None \<longrightarrow> map_of (cg_members g) m \<noteq> None" for m
    using a(3) dom keys_map_of [of m a] keys_map_of [of m "cg_members g"] by simp
  moreover have "(t, p) \<in> set (keys_of a m) \<longrightarrow>
      (\<exists>ts. map_of (cg_member_topics g) m = Some ts \<and> t \<in> set ts)" for m t p
    using assign_sound [OF assms(1,2) a(1)] by blast
  moreover have "(t, p) \<in> set (keys_of a m) \<longrightarrow> (t, p) \<in> set (keys_of a m') \<longrightarrow> m = m'" for m m' t p
    using assign_unique [OF assms(1,2) a(1)] by blast
  moreover have sel: "cg_members (g\<lparr>cg_assignments := a\<rparr>) = cg_members g"
    "cg_member_topics (g\<lparr>cg_assignments := a\<rparr>) = cg_member_topics g"
    "cg_assignments (g\<lparr>cg_assignments := a\<rparr>) = a" by simp_all
  ultimately have "wf_group (g\<lparr>cg_assignments := a\<rparr>)"
    unfolding wf_group_def sel using assms(1,3,4) a(2) by (intro conjI allI) simp_all
  moreover have "fst ` set a = fst ` set (cg_members g)"
    unfolding a(3) by (intro set_eqI) (rule dom)
  moreover have "rebalance (assign h) pc g = (Ok (), g\<lparr>cg_assignments := a\<rparr>)"
    using a(1) assms(5) by (simp add: rebalance_def)
  ultimately show ?thesis using a(1) by blast
qed

text \<open>A join never fails: it returns what the assignor gave the new member.\<close>

lemma group_join_ok:
  assumes "wf_group g" and "hash_order h"
  shows "\<exists>a l. assign h (AList.update m ts (cg_member_topics g)) pc = Ok a \<and> map_of a m = Some l \<and>
    fst (group_join (assign h) m ts pc g) = Ok l \<and>
    cg_assignments (snd (group_join (assign h) m ts pc g)) = a \<and>
    cg_member_topics (snd (group_join (assign h) m ts pc g)) =
      AList.update m ts (cg_member_topics g) \<and>
    cg_group_id (snd (group_join (assign h) m ts pc g)) = cg_group_id g \<and>
    wf_group (snd (group_join (assign h) m ts pc g))"
proof -
  define g' where "g' = g\<lparr>cg_members := AList.update m
      \<lparr>gm_member_id = m, gm_subscribed_topics = ts\<rparr> (cg_members g),
    cg_member_topics := AList.update m ts (cg_member_topics g)\<rparr>"
  have "\<forall>k. map_of (cg_member_topics g') k =
      map_option gm_subscribed_topics (map_of (cg_members g') k)"
    using wf_groupD(4) [OF assms(1)] by (simp add: g'_def)
  moreover have "hm_wf (cg_member_topics g')" "hm_wf (cg_members g')"
    using wf_groupD(1,2) [OF assms(1)] by (simp_all add: g'_def)
  moreover have in_g': "m \<in> fst ` set (cg_members g')" by (simp add: g'_def)
  then have "cg_members g' \<noteq> []" by auto
  ultimately obtain a where a: "assign h (cg_member_topics g') pc = Ok a"
    "rebalance (assign h) pc g' = (Ok (), g'\<lparr>cg_assignments := a\<rparr>)"
    "wf_group (g'\<lparr>cg_assignments := a\<rparr>)" "fst ` set a = fst ` set (cg_members g')"
    using rebalance_ok [of g' h pc] assms(2) by blast
  have "m \<in> fst ` set a" using a(4) in_g' by simp
  then obtain l where "map_of a m = Some l" using keys_map_of [of m a] by auto
  moreover have "group_join (assign h) m ts pc g =
      (case map_of a m of Some l \<Rightarrow> Ok l | None \<Rightarrow> Err (Custom (''no assignment for member '' @ m)),
       g'\<lparr>cg_assignments := a\<rparr>)"
    using a(2) by (simp add: group_join_def Let_def g'_def)
  ultimately show ?thesis using a by (simp add: g'_def)
qed

lemma group_leave_ok:
  assumes "wf_group g" and "hash_order h"
  shows "fst (group_leave (assign h) m pc g) = Ok () \<and>
    wf_group (snd (group_leave (assign h) m pc g)) \<and>
    map_of (cg_members (snd (group_leave (assign h) m pc g))) = (map_of (cg_members g))(m := None) \<and>
    cg_group_id (snd (group_leave (assign h) m pc g)) = cg_group_id g \<and>
    (cg_members (snd (group_leave (assign h) m pc g)) \<noteq> [] \<longrightarrow>
       assign h (AList.delete m (cg_member_topics g)) pc =
         Ok (cg_assignments (snd (group_leave (assign h) m pc g))))"
proof -
  define g' where "g' = g\<lparr>cg_members := AList.delete m (cg_members g),
    cg_member_topics := AList.delete m (cg_member_topics g),
    cg_assignments := AList.delete m (cg_assignments g)\<rparr>"
  have mt: "\<forall>k. map_of (cg_member_topics g') k =
      map_option gm_subscribed_topics (map_of (cg_members g') k)"
    using wf_groupD(4) [OF assms(1)] by (simp add: g'_def)
  have hm: "hm_wf (cg_member_topics g')" "hm_wf (cg_members g')"
    using wf_groupD(1,2) [OF assms(1)] by (simp_all add: g'_def)
  have dom: "map_of (cg_members g') = (map_of (cg_members g))(m := None)" by (simp add: g'_def)
  show ?thesis
  proof (cases "cg_members g' = []")
    case True
    then have "map_of (cg_members g) k = None" if "k \<noteq> m" for k
      using dom that by (metis fun_upd_other map_of.simps(1))
    then have "map_of (cg_assignments g) k = None" if "k \<noteq> m" for k
      using that assms(1) unfolding wf_group_def by (metis (no_types, lifting))
    then have e: "map_of (cg_assignments g') k = None" for k by (simp add: g'_def)
    moreover have "hm_wf (cg_assignments g')"
      using wf_groupD(3) [OF assms(1)] by (simp add: g'_def)
    ultimately have "wf_group g'"
      using hm mt by (simp add: wf_group_def keys_of_def)
    then show ?thesis
      using True dom by (simp add: group_leave_def Let_def g'_def)
  next
    case False
    from rebalance_ok [OF hm(1) assms(2) mt hm(2) False, of pc]
    obtain a where "assign h (cg_member_topics g') pc = Ok a"
      "rebalance (assign h) pc g' = (Ok (), g'\<lparr>cg_assignments := a\<rparr>)"
      "wf_group (g'\<lparr>cg_assignments := a\<rparr>)" by blast
    then show ?thesis
      using False dom by (simp add: group_leave_def Let_def g'_def)
  qed
qed

end


section \<open>Histories of a group\<close>

text \<open>Joins and leaves in any order, each with the partition counts its caller passes.\<close>

inductive group_reachable ::
    "(string list \<Rightarrow> string list) \<Rightarrow> string \<Rightarrow> consumer_group \<Rightarrow> bool"
  for h :: "string list \<Rightarrow> string list" and gid :: string where
  greach_new: "group_reachable h gid (group_new gid)"
| greach_join: "group_reachable h gid g \<Longrightarrow>
    group_reachable h gid (snd (group_join (round_robin_assign h) m ts counts g))"
| greach_leave: "group_reachable h gid g \<Longrightarrow>
    group_reachable h gid (snd (group_leave (round_robin_assign h) m counts g))"

lemma group_reachable_wf:
  "group_reachable h gid g \<Longrightarrow> hash_order h \<Longrightarrow> wf_group g \<and> cg_group_id g = gid"
proof (induction rule: group_reachable.induct)
  case greach_new
  then show ?case by (simp add: wf_group_new) (simp add: group_new_def)
next
  case (greach_join g m ts counts)
  then show ?case using rra.group_join_ok [of g h m ts counts] by auto
next
  case (greach_leave g m counts)
  then show ?case using rra.group_leave_ok [of g h m counts] by simp
qed


section \<open>Properties\<close>

definition demo_group :: consumer_group where
  "demo_group = snd (group_join (round_robin_assign remdups) ''a'' [''t''] [(''t'', 2)] (group_new ''g''))"

lemma demo_group_reachable: "group_reachable remdups ''g'' demo_group"
  unfolding demo_group_def by (intro greach_join greach_new)

text \<open>After any history of joins and leaves with any partition counts, exactly the members
  have subscriptions; only members are assigned partitions, only of topics they subscribe to;
  and no partition is assigned to two members.\<close>

theorem group_assignments_disjoint:
  assumes "group_reachable h gid g" and "hash_order h"
  shows "(\<forall>m. map_of (cg_member_topics g) m = map_option gm_subscribed_topics (map_of (cg_members g) m)) \<and>
    (\<forall>m t p. (t, p) \<in> set (keys_of (cg_assignments g) m) \<longrightarrow>
       (\<exists>gm. map_of (cg_members g) m = Some gm \<and> t \<in> set (gm_subscribed_topics gm))) \<and>
    (\<forall>m m' t p. (t, p) \<in> set (keys_of (cg_assignments g) m) \<longrightarrow>
       (t, p) \<in> set (keys_of (cg_assignments g) m') \<longrightarrow> m = m')"
proof -
  have wf: "wf_group g" using group_reachable_wf [OF assms] by simp
  have mt: "map_of (cg_member_topics g) m = map_option gm_subscribed_topics (map_of (cg_members g) m)" for m
    by (rule wf_groupD(4) [OF wf])
  have "\<exists>gm. map_of (cg_members g) m = Some gm \<and> t \<in> set (gm_subscribed_topics gm)"
    if "(t, p) \<in> set (keys_of (cg_assignments g) m)" for m t p
    using wf_groupD(6) [OF wf that] by (auto simp: mt)
  then show ?thesis using mt wf_groupD(5) [OF wf] by blast
qed

theorem group_assignments_disjoint_witness:
  "map_of (cg_member_topics demo_group) ''a'' =
     map_option gm_subscribed_topics (map_of (cg_members demo_group) ''a'')"
  using group_assignments_disjoint [OF demo_group_reachable hash_order_remdups] by blast

text \<open>Joining a group returns exactly the partitions the new member then has in the group's
  assignment, which is computed from all subscriptions with the joining member's replaced by
  the new ones, and from the partition counts of this call alone: a topic without a count in
  the call is afterwards assigned to nobody, even if another member had its partitions.\<close>

theorem group_join_spec:
  assumes "wf_group g" and "hash_order h" and "g' = snd (group_join (round_robin_assign h) m ts counts g)"
  shows "\<exists>l. fst (group_join (round_robin_assign h) m ts counts g) = Ok l \<and>
    group_assignment m g' = Some l \<and>
    cg_member_topics g' = AList.update m ts (cg_member_topics g) \<and>
    (\<forall>k t p. (t, p) \<in> set (keys_of (cg_assignments g') k) \<longleftrightarrow>
       owner (AList.update m ts (cg_member_topics g)) counts t p = Some k) \<and>
    (\<forall>k t p. map_of counts t = None \<longrightarrow> (t, p) \<notin> set (keys_of (cg_assignments g') k))"
proof -
  let ?mt = "AList.update m ts (cg_member_topics g)"
  obtain a l where a: "round_robin_assign h ?mt counts = Ok a" "map_of a m = Some l"
    "fst (group_join (round_robin_assign h) m ts counts g) = Ok l" "cg_assignments g' = a"
    "cg_member_topics g' = ?mt"
    using rra.group_join_ok [OF assms(1,2)] assms(3) by blast
  have mt: "hm_wf ?mt" using wf_groupD(2) [OF assms(1)] by simp
  have "(t, p) \<in> set (keys_of a k) \<longleftrightarrow> owner ?mt counts t p = Some k" for k t p
    using round_robin_assign_ok [OF mt assms(2), of counts] a(1) by auto
  moreover have "(t, p) \<notin> set (keys_of a k)" if "map_of counts t = None" for k t p
    using rra.assign_unknown_topic [OF mt assms(2) a(1) that] .
  ultimately show ?thesis using a by (simp add: group_assignment_def)
qed

theorem group_join_spec_witness:
  "\<exists>l. fst (group_join (round_robin_assign remdups) ''b'' [''u''] [(''u'', 1)] demo_group) = Ok l \<and>
     (\<forall>k p. (''t'', p) \<notin> set (keys_of (cg_assignments (snd
        (group_join (round_robin_assign remdups) ''b'' [''u''] [(''u'', 1)] demo_group))) k))"
  using group_join_spec [of demo_group remdups _ "''b''" "[''u'']" "[(''u'', 1)]", OF _ _ refl]
    group_reachable_wf [OF demo_group_reachable hash_order_remdups] by fastforce

text \<open>Leaving a group never fails. Afterwards the member has no subscription and no partition,
  and every partition of a topic with a known count to which a remaining member subscribes is
  assigned to exactly one remaining member.\<close>

theorem group_leave_spec:
  assumes "wf_group g" and "hash_order h" and "g' = snd (group_leave (round_robin_assign h) m counts g)"
  shows "fst (group_leave (round_robin_assign h) m counts g) = Ok () \<and>
    map_of (cg_members g') = (map_of (cg_members g))(m := None) \<and>
    keys_of (cg_assignments g') m = [] \<and>
    (\<forall>k gm t n p. map_of (cg_members g') k = Some gm \<longrightarrow> t \<in> set (gm_subscribed_topics gm) \<longrightarrow>
       map_of counts t = Some n \<longrightarrow> 0 \<le> p \<longrightarrow> p < n \<longrightarrow>
       (\<exists>!k'. (t, p) \<in> set (keys_of (cg_assignments g') k')))"
proof -
  note ok = rra.group_leave_ok [OF assms(1,2), of m counts, folded assms(3)]
  have wf: "wf_group g'" and dom: "map_of (cg_members g') = (map_of (cg_members g))(m := None)"
    using ok by blast+
  have "keys_of (cg_assignments g') m = []"
  proof (rule ccontr)
    assume "keys_of (cg_assignments g') m \<noteq> []"
    then obtain t p where "(t, p) \<in> set (keys_of (cg_assignments g') m)"
      by (metis list.set_intros(1) neq_Nil_conv surj_pair)
    from wf_groupD(6) [OF wf this] show False by (simp add: wf_groupD(4) [OF wf] dom)
  qed
  moreover have "\<exists>!k'. (t, p) \<in> set (keys_of (cg_assignments g') k')"
    if k: "map_of (cg_members g') k = Some gm" and "t \<in> set (gm_subscribed_topics gm)"
      and "map_of counts t = Some n" "0 \<le> p" "p < n" for k gm t n p
  proof -
    have "cg_members g' \<noteq> []" using k by auto
    then have a: "round_robin_assign h (AList.delete m (cg_member_topics g)) counts =
        Ok (cg_assignments g')"
      using ok by blast
    have mt: "hm_wf (AList.delete m (cg_member_topics g))"
      using wf_groupD(2) [OF assms(1)] by simp
    have "k \<noteq> m" using k dom by auto
    then have "map_of (AList.delete m (cg_member_topics g)) k = Some (gm_subscribed_topics gm)"
      using k dom by (simp add: wf_groupD(4) [OF assms(1)])
    from rra.assign_cover [OF mt assms(2) a this that(2-5)] show ?thesis .
  qed
  ultimately show ?thesis using ok by blast
qed

theorem group_leave_spec_witness:
  "fst (group_leave (round_robin_assign remdups) ''a'' [(''t'', 2)] demo_group) = Ok ()"
  using group_leave_spec [of demo_group remdups _ "''a''" "[(''t'', 2)]", OF _ _ refl]
    group_reachable_wf [OF demo_group_reachable hash_order_remdups] by simp

end
