(* ===== verification/Broker.thy ===== *)
theory Broker
  imports Backend Partitioner Consumer_Group
begin

text \<open>
  \<open>src/broker.rs\<close>: the broker. It routes produced messages to partitions, starts consumers at the
  right offset, and keeps the consumer groups and their committed offsets. It holds three
  trait objects, the backend, the partitioner and the assignor, which are fields of its record:
  the backend as its methods and its state, the partitioner as its state, the assignor as a
  function. \<open>bk_in_memory\<close> is the second handle to an in-memory backend that typed messages need.
\<close>

record record_metadata =
  rmd_topic :: string
  rmd_partition :: i32
  rmd_offset :: i64
  rmd_timestamp :: i64

type_synonym ('b, 'v) typed_produce =
  "clock \<Rightarrow> string \<Rightarrow> i32 \<Rightarrow> 'v dyn_any \<Rightarrow> 'v dyn_any option \<Rightarrow> owned_headers option \<Rightarrow> i64 option
   \<Rightarrow> 'b \<Rightarrow> (i32 \<times> i64 \<times> i64) res \<times> 'b"

record ('b, 'v) broker =
  bk_ops :: "('b, 'v) backend_ops"
  bk_backend :: 'b
  bk_in_memory :: "('b, 'v) typed_produce option"
  bk_groups :: "(string, consumer_group) hashmap"
  bk_shutdown :: bool
  bk_config :: broker_config
  bk_client_config :: client_config
  bk_partitioner :: partitioner
  bk_assignor :: assign_fn
  bk_offset_store :: offset_store


section \<open>Construction\<close>

text \<open>\<open>h\<close> is the iteration order of the hash maps of the backend and the assignor.\<close>

definition broker_with_partitioner ::
    "(string list \<Rightarrow> string list) \<Rightarrow> client_config \<Rightarrow> partitioner \<Rightarrow> ('v in_memory, 'v) broker res" where
  "broker_with_partitioner h config pt =
     res_map (\<lambda>bc.
       \<lparr>bk_ops = inmem_ops h, bk_backend = inmem_new bc, bk_in_memory = Some inmem_produce_typed,
        bk_groups = [], bk_shutdown = False, bk_config = bc, bk_client_config = config,
        bk_partitioner = pt, bk_assignor = round_robin_assign h,
        bk_offset_store = offset_store_new\<rparr>)
       (broker_config_from config)"

definition broker_new ::
    "(string list \<Rightarrow> string list) \<Rightarrow> client_config \<Rightarrow> ('v in_memory, 'v) broker res" where
  "broker_new h config =
     res_map (\<lambda>bc.
       \<lparr>bk_ops = inmem_ops h, bk_backend = inmem_new bc, bk_in_memory = Some inmem_produce_typed,
        bk_groups = [], bk_shutdown = False, bk_config = bc, bk_client_config = config,
        bk_partitioner = RoundRobin round_robin_new, bk_assignor = round_robin_assign h,
        bk_offset_store = offset_store_new\<rparr>)
       (broker_config_from config)"

definition broker_with_backend ::
    "(string list \<Rightarrow> string list) \<Rightarrow> client_config \<Rightarrow> ('b, 'v) backend_ops \<Rightarrow> 'b
     \<Rightarrow> ('b, 'v) broker res" where
  "broker_with_backend h config ops b =
     res_map (\<lambda>bc.
       \<lparr>bk_ops = ops, bk_backend = b, bk_in_memory = None,
        bk_groups = [], bk_shutdown = False, bk_config = bc, bk_client_config = config,
        bk_partitioner = RoundRobin round_robin_new, bk_assignor = round_robin_assign h,
        bk_offset_store = offset_store_new\<rparr>)
       (broker_config_from config)"


section \<open>Producing\<close>

definition broker_check_shutdown :: "('b, 'v) broker \<Rightarrow> unit res" where
  "broker_check_shutdown br = (if bk_shutdown br then Err BrokerShutdown else Ok ())"

text \<open>A call of a backend method that may change the backend.\<close>

definition on_backend :: "('b \<Rightarrow> 'a res \<times> 'b) \<Rightarrow> ('b, 'v) broker \<Rightarrow> 'a res \<times> ('b, 'v) broker" where
  "on_backend f br = (case f (bk_backend br) of (r, b) \<Rightarrow> (r, br\<lparr>bk_backend := b\<rparr>))"

definition broker_ensure_topic ::
    "string \<Rightarrow> i32 \<Rightarrow> ('b, 'v) broker \<Rightarrow> unit res \<times> ('b, 'v) broker" where
  "broker_ensure_topic topic n br = on_backend (be_ensure_topic (bk_ops br) topic n) br"

definition ensure_default :: "string \<Rightarrow> ('b, 'v) broker \<Rightarrow> unit res \<times> ('b, 'v) broker" where
  "ensure_default topic br = broker_ensure_topic topic (default_num_partitions (bk_config br)) br"

text \<open>\<open>meta.topics.first().map(|t| t.partitions.len() as i32).unwrap_or(default)\<close>\<close>

definition broker_num_partitions :: "string \<Rightarrow> ('b, 'v) broker \<Rightarrow> i32 res" where
  "broker_num_partitions topic br =
     res_map (\<lambda>meta. case md_topics meta of
          tm # _ \<Rightarrow> wrap_i32 (int (length (tmd_partitions tm)))
        | [] \<Rightarrow> default_num_partitions (bk_config br))
       (be_metadata (bk_ops br) (broker_id (bk_config br)) (Some topic) (bk_backend br))"

definition broker_choose ::
    "string \<Rightarrow> bytes option \<Rightarrow> i32 \<Rightarrow> i32 option \<Rightarrow> ('b, 'v) broker \<Rightarrow> i32 res \<times> ('b, 'v) broker" where
  "broker_choose topic key num_p part br =
     (case part of
        Some p \<Rightarrow> (Ok p, br)
      | None \<Rightarrow>
          (case choose_partition topic key num_p (bk_partitioner br) of
             (p, pt) \<Rightarrow> (Ok p, br\<lparr>bk_partitioner := pt\<rparr>)))"

definition record_metadata_of :: "string \<Rightarrow> i32 \<times> i64 \<times> i64 \<Rightarrow> record_metadata" where
  "record_metadata_of topic x =
     (case x of (pid, off, ts) \<Rightarrow>
        \<lparr>rmd_topic = topic, rmd_partition = pid, rmd_offset = off, rmd_timestamp = ts\<rparr>)"

definition broker_produce ::
    "clock \<Rightarrow> string \<Rightarrow> i32 option \<Rightarrow> bytes option \<Rightarrow> bytes option \<Rightarrow> owned_headers option
     \<Rightarrow> i64 option \<Rightarrow> ('b, 'v) broker \<Rightarrow> record_metadata res \<times> ('b, 'v) broker" where
  "broker_produce c topic part key payload headers timestamp br =
     st_bind (st_read broker_check_shutdown) (\<lambda>_.
     st_bind (ensure_default topic) (\<lambda>_.
     st_bind (st_read (broker_num_partitions topic)) (\<lambda>num_p.
     st_bind (broker_choose topic key num_p part) (\<lambda>p.
     st_bind (on_backend (be_produce (bk_ops br) c topic p key payload headers timestamp)) (\<lambda>x.
     st_return (record_metadata_of topic x)))))) br"

definition broker_produce_typed ::
    "clock \<Rightarrow> string \<Rightarrow> i32 option \<Rightarrow> 'v dyn_any \<Rightarrow> 'v dyn_any option \<Rightarrow> owned_headers option
     \<Rightarrow> i64 option \<Rightarrow> ('b, 'v) broker \<Rightarrow> record_metadata res \<times> ('b, 'v) broker" where
  "broker_produce_typed c topic part typed_payload typed_key headers timestamp br =
     st_bind (st_read broker_check_shutdown) (\<lambda>_.
     st_bind (st_read (\<lambda>br. case bk_in_memory br of
         None \<Rightarrow> Err (Custom ''typed produce requires InMemoryBackend'')
       | Some f \<Rightarrow> Ok f)) (\<lambda>mem.
     st_bind (ensure_default topic) (\<lambda>_.
     st_bind (st_read (broker_num_partitions topic)) (\<lambda>num_p.
     st_bind (broker_choose topic None num_p part) (\<lambda>p.
     st_bind (on_backend (mem c topic p typed_payload typed_key headers timestamp)) (\<lambda>x.
     st_return (record_metadata_of topic x))))))) br"


section \<open>Fetching\<close>

definition broker_fetch ::
    "string \<Rightarrow> i32 \<Rightarrow> i64 \<Rightarrow> usize \<Rightarrow> ('b, 'v) broker \<Rightarrow> 'v stored_message list res" where
  "broker_fetch topic p off max_count br = be_fetch (bk_ops br) topic p off max_count (bk_backend br)"

definition broker_watermarks :: "string \<Rightarrow> i32 \<Rightarrow> ('b, 'v) broker \<Rightarrow> (i64 \<times> i64) res" where
  "broker_watermarks topic p br = be_watermarks (bk_ops br) topic p (bk_backend br)"

definition oldest_offset :: "string \<Rightarrow> i32 \<Rightarrow> ('b, 'v) broker \<Rightarrow> i64 res" where
  "oldest_offset topic p br = res_map fst (broker_watermarks topic p br)"

text \<open>Where a fetch starts: at the position, after the group's committed offset, or at the oldest
  message.\<close>

definition start_offset ::
    "string \<Rightarrow> i32 \<Rightarrow> i64 option \<Rightarrow> string option \<Rightarrow> ('b, 'v) broker \<Rightarrow> i64 res" where
  "start_offset topic p position group_id br =
     (case position of
        Some o' \<Rightarrow> Ok o'
      | None \<Rightarrow>
          (case group_id of
             Some gid \<Rightarrow>
               (case map_of (bk_groups br) gid of
                  Some g \<Rightarrow>
                    (case group_committed_offset topic p g (bk_offset_store br) of
                       Ok (Some committed) \<Rightarrow> Ok (wrap_i64 (committed + 1))
                     | _ \<Rightarrow> oldest_offset topic p br)
                | None \<Rightarrow> oldest_offset topic p br)
           | None \<Rightarrow> oldest_offset topic p br))"

definition fetch_one_from_position ::
    "string \<Rightarrow> i32 \<Rightarrow> i64 option \<Rightarrow> string option \<Rightarrow> ('b, 'v) broker \<Rightarrow> 'v stored_message option res" where
  "fetch_one_from_position topic p position group_id br =
     res_bind (broker_check_shutdown br) (\<lambda>_.
     res_bind (start_offset topic p position group_id br) (\<lambda>off.
       case be_fetch_one (bk_ops br) topic p off (bk_backend br) of
         Ok (Some m) \<Rightarrow> Ok (Some m)
       | Ok None \<Rightarrow> Ok None
       | Err (OffsetOutOfRange _ _ _) \<Rightarrow>
           res_bind (oldest_offset topic p br) (\<lambda>oldest. Err (OffsetOutOfRange topic p oldest))
       | Err e \<Rightarrow> Err e
       | Panic x \<Rightarrow> Panic x))"

definition broker_metadata :: "string option \<Rightarrow> ('b, 'v) broker \<Rightarrow> metadata res" where
  "broker_metadata topic br =
     res_bind (broker_check_shutdown br) (\<lambda>_.
       be_metadata (bk_ops br) (broker_id (bk_config br)) topic (bk_backend br))"

definition broker_shutdown :: "('b, 'v) broker \<Rightarrow> unit res \<times> ('b, 'v) broker" where
  "broker_shutdown br = (let br = br\<lparr>bk_shutdown := True\<rparr> in on_backend (be_shutdown (bk_ops br)) br)"

definition broker_get_partition_notifies ::
    "string list \<Rightarrow> ('b, 'v) broker \<Rightarrow> notify_handle list res" where
  "broker_get_partition_notifies topics br =
     be_get_partition_notifies (bk_ops br) topics (bk_backend br)"

definition broker_wait_for_messages ::
    "(nat \<Rightarrow> nat) \<Rightarrow> (nat \<Rightarrow> notify_handle \<Rightarrow> nat \<Rightarrow> bool) \<Rightarrow> string list \<Rightarrow> nat \<Rightarrow> ('b, 'v) broker
     \<Rightarrow> bool res" where
  "broker_wait_for_messages now wait topics timeout br =
     be_wait_for_messages (bk_ops br) now wait topics timeout (bk_backend br)"


section \<open>Groups and committed offsets\<close>

definition group_entry :: "string \<Rightarrow> ('b, 'v) broker \<Rightarrow> consumer_group" where
  "group_entry gid br = (case map_of (bk_groups br) gid of Some g \<Rightarrow> g | None \<Rightarrow> group_new gid)"

text \<open>The partition counts of the joiner's topics, from the metadata of all topics.\<close>

definition joiner_counts :: "string list \<Rightarrow> metadata \<Rightarrow> partition_counts" where
  "joiner_counts topics meta =
     fold (\<lambda>topic counts.
       case find (\<lambda>t. tmd_name t = topic) (md_topics meta) of
         Some tm \<Rightarrow> AList.update topic (wrap_i32 (int (length (tmd_partitions tm)))) counts
       | None \<Rightarrow> counts) topics []"

definition all_counts :: "metadata \<Rightarrow> partition_counts" where
  "all_counts meta =
     fold (\<lambda>t counts. AList.update (tmd_name t) (wrap_i32 (int (length (tmd_partitions t)))) counts)
       (md_topics meta) []"

text \<open>\<open>entry(group_id).or_insert_with(..)\<close>, and the join through the group's entry. A \<open>ConsumerGroup\<close>
  is shared by reference; the model writes the changed group back to its entry.\<close>

definition create_group :: "string \<Rightarrow> ('b, 'v) broker \<Rightarrow> unit res \<times> ('b, 'v) broker" where
  "create_group gid br =
     (Ok (), br\<lparr>bk_groups := AList.update gid (group_entry gid br) (bk_groups br)\<rparr>)"

definition join_entry ::
    "string \<Rightarrow> string \<Rightarrow> string list \<Rightarrow> metadata \<Rightarrow> ('b, 'v) broker
     \<Rightarrow> topic_partition_list res \<times> ('b, 'v) broker" where
  "join_entry gid member_id topics meta br =
     (case group_join (bk_assignor br) member_id topics (joiner_counts topics meta)
             (group_entry gid br) of
        (r, g) \<Rightarrow> (r, br\<lparr>bk_groups := AList.update gid g (bk_groups br)\<rparr>))"

definition broker_all_metadata :: "('b, 'v) broker \<Rightarrow> metadata res" where
  "broker_all_metadata br = be_metadata (bk_ops br) (broker_id (bk_config br)) None (bk_backend br)"

definition broker_join_group ::
    "string \<Rightarrow> string \<Rightarrow> string list \<Rightarrow> ('b, 'v) broker
     \<Rightarrow> topic_partition_list res \<times> ('b, 'v) broker" where
  "broker_join_group gid member_id topics br =
     st_bind (st_read broker_check_shutdown) (\<lambda>_.
     st_bind (st_for ensure_default topics) (\<lambda>_.
     st_bind (create_group gid) (\<lambda>_.
     st_bind (st_read (broker_get_partition_notifies topics)) (\<lambda>_.
     st_bind (st_read broker_all_metadata) (\<lambda>meta.
     join_entry gid member_id topics meta))))) br"

definition get_group :: "string \<Rightarrow> ('b, 'v) broker \<Rightarrow> consumer_group res" where
  "get_group gid br =
     (case map_of (bk_groups br) gid of Some g \<Rightarrow> Ok g | None \<Rightarrow> Err (GroupNotFound gid))"

definition broker_leave_group ::
    "string \<Rightarrow> string \<Rightarrow> ('b, 'v) broker \<Rightarrow> unit res \<times> ('b, 'v) broker" where
  "broker_leave_group gid member_id br =
     st_bind (st_read broker_check_shutdown) (\<lambda>_.
     st_bind (st_read (get_group gid)) (\<lambda>g.
     st_bind (st_read broker_all_metadata) (\<lambda>meta br.
         (case group_leave (bk_assignor br) member_id (all_counts meta) g of
            (r, g') \<Rightarrow> (r, br\<lparr>bk_groups := AList.update gid g' (bk_groups br)\<rparr>))))) br"

definition broker_commit_offset ::
    "string \<Rightarrow> string \<Rightarrow> i32 \<Rightarrow> i64 \<Rightarrow> ('b, 'v) broker \<Rightarrow> unit res \<times> ('b, 'v) broker" where
  "broker_commit_offset gid topic p off br =
     st_bind (st_read broker_check_shutdown) (\<lambda>_.
     st_bind (st_read (get_group gid)) (\<lambda>g br.
       (case group_commit_offset topic p off g (bk_offset_store br) of
          (r, s) \<Rightarrow> (r, br\<lparr>bk_offset_store := s\<rparr>)))) br"

definition broker_committed_offset ::
    "string \<Rightarrow> string \<Rightarrow> i32 \<Rightarrow> ('b, 'v) broker \<Rightarrow> i64 option res" where
  "broker_committed_offset gid topic p br =
     res_bind (broker_check_shutdown br) (\<lambda>_.
     res_bind (get_group gid br) (\<lambda>g. group_committed_offset topic p g (bk_offset_store br)))"



section \<open>Producing through a backend that keeps its contract\<close>

text \<open>The number of partitions a produce sees, and the partition it goes to.\<close>

definition seen_count :: "i32 option \<Rightarrow> ('b, 'v) broker \<Rightarrow> i32" where
  "seen_count cnt br = (case cnt of Some n \<Rightarrow> n | None \<Rightarrow> default_num_partitions (bk_config br))"

definition routed :: "string \<Rightarrow> bytes option \<Rightarrow> i32 \<Rightarrow> i32 option \<Rightarrow> partitioner \<Rightarrow> i32" where
  "routed topic key n part pt =
     (case part of Some p \<Rightarrow> p | None \<Rightarrow> fst (choose_partition topic key n pt))"

definition partitioner_after ::
    "string \<Rightarrow> bytes option \<Rightarrow> i32 \<Rightarrow> i32 option \<Rightarrow> partitioner \<Rightarrow> partitioner" where
  "partitioner_after topic key n part pt =
     (case part of Some _ \<Rightarrow> pt | None \<Rightarrow> snd (choose_partition topic key n pt))"

lemma broker_choose_routed:
  "broker_choose topic key n part br =
     (Ok (routed topic key n part (bk_partitioner br)),
      br\<lparr>bk_partitioner := partitioner_after topic key n part (bk_partitioner br)\<rparr>)"
  by (simp add: broker_choose_def routed_def partitioner_after_def split_beta split: option.splits)

lemma broker_closed:
  assumes "bk_shutdown br"
  shows "broker_produce c topic part k pl h ts br = (Err BrokerShutdown, br)"
    and "broker_produce_typed c topic part tp tk h ts br = (Err BrokerShutdown, br)"
    and "fetch_one_from_position topic p pos gid br = Err BrokerShutdown"
    and "broker_metadata tn br = Err BrokerShutdown"
    and "broker_join_group g m topics br = (Err BrokerShutdown, br)"
    and "broker_leave_group g m br = (Err BrokerShutdown, br)"
    and "broker_commit_offset g topic p off br = (Err BrokerShutdown, br)"
    and "broker_committed_offset g topic p br = Err BrokerShutdown"
  using assms
  by (simp_all add: broker_produce_def broker_produce_typed_def fetch_one_from_position_def
      broker_metadata_def broker_join_group_def broker_leave_group_def broker_commit_offset_def
      broker_committed_offset_def broker_check_shutdown_def)

context broker_backend
begin

lemma window_None:
  "inv s \<Longrightarrow> \<forall>n. count s t = Some n \<longrightarrow> \<not> (0 \<le> i \<and> i < n) \<Longrightarrow> window s t i = None"
  using window_count [of s t i] by blast

text \<open>What a produce knows when it comes to choosing a partition.\<close>

lemma broker_produce_prefix:
  assumes "bk_ops br = ops" and "inv (bk_backend br)" and "\<not> closed (bk_backend br)"
    and n: "n = seen_count (count (bk_backend br) topic) br" and "0 \<le> n" and "n < 2 ^ 31"
    and b1: "b1 = snd (be_ensure_topic ops topic (default_num_partitions (bk_config br)) (bk_backend br))"
  shows "inv b1" and "\<not> closed b1" and "count b1 topic = Some n"
    and "ensure_default topic br = (Ok (), br\<lparr>bk_backend := b1\<rparr>)"
    and "broker_num_partitions topic (br\<lparr>bk_backend := b1\<rparr>) = Ok n"
proof -
  let ?b = "bk_backend br"
  let ?d = "default_num_partitions (bk_config br)"
  have e: "fst (be_ensure_topic ops topic ?d ?b) = Ok ()" "inv b1" "\<not> closed b1"
    using ensure_ok [OF assms(2,3)] b1 by simp_all
  have cnt: "count b1 topic = Some n"
    using ensure_count [OF assms(2,3), of topic ?d topic] n b1
    by (auto simp: seen_count_def split: option.splits)
  show "inv b1" "\<not> closed b1" "count b1 topic = Some n" by (fact e cnt)+
  show "ensure_default topic br = (Ok (), br\<lparr>bk_backend := b1\<rparr>)"
    using e(1) b1 assms(1)
    by (simp add: ensure_default_def broker_ensure_topic_def on_backend_def split_beta)
  obtain md tm where "be_metadata ops (broker_id (bk_config br)) (Some topic) b1 = Ok md"
    "md_topics md = [tm]" "length (tmd_partitions tm) = nat n"
    using metadata_one [OF e(2,3) cnt assms(5)] by blast
  moreover have "wrap_i32 (int (nat n)) = n" using assms(5,6) by (simp add: in_i32_def)
  ultimately show "broker_num_partitions topic (br\<lparr>bk_backend := b1\<rparr>) = Ok n"
    using assms(1) by (simp add: broker_num_partitions_def)
qed

lemma broker_produce_route:
  assumes "bk_ops br = ops" and "inv (bk_backend br)" and "\<not> closed (bk_backend br)"
    and "\<not> bk_shutdown br" and n: "n = seen_count (count (bk_backend br) topic) br"
    and "0 \<le> n" and "n < 2 ^ 31" and q: "q = routed topic k n part (bk_partitioner br)"
    and b1: "b1 = snd (be_ensure_topic ops topic (default_num_partitions (bk_config br)) (bk_backend br))"
  shows "broker_produce c topic part k pl h ts br =
    (res_map (record_metadata_of topic) (fst (be_produce ops c topic q k pl h ts b1)),
     br\<lparr>bk_backend := snd (be_produce ops c topic q k pl h ts b1),
        bk_partitioner := partitioner_after topic k n part (bk_partitioner br)\<rparr>)"
    and "inv b1" and "\<not> closed b1" and "count b1 topic = Some n"
    and "window b1 topic q = (case count (bk_backend br) topic of
       Some _ \<Rightarrow> window (bk_backend br) topic q
     | None \<Rightarrow> if 0 \<le> q \<and> q < n then Some (0, 0) else None)"
proof -
  note pre = broker_produce_prefix [OF assms(1-3) n assms(6,7) b1]
  show "inv b1" "\<not> closed b1" "count b1 topic = Some n" by (fact pre(1-3))+
  show "window b1 topic q = (case count (bk_backend br) topic of
       Some _ \<Rightarrow> window (bk_backend br) topic q
     | None \<Rightarrow> if 0 \<le> q \<and> q < n then Some (0, 0) else None)"
    using ensure_window [OF assms(2,3), of topic "default_num_partitions (bk_config br)" topic q] n b1
    by (auto simp: seen_count_def split: option.splits)
  have chk: "broker_check_shutdown br = Ok ()"
    using assms(4) by (simp add: broker_check_shutdown_def)
  obtain r b2 where p: "be_produce ops c topic q k pl h ts b1 = (r, b2)" by fastforce
  show "broker_produce c topic part k pl h ts br =
    (res_map (record_metadata_of topic) (fst (be_produce ops c topic q k pl h ts b1)),
     br\<lparr>bk_backend := snd (be_produce ops c topic q k pl h ts b1),
        bk_partitioner := partitioner_after topic k n part (bk_partitioner br)\<rparr>)"
    using p assms(1) q [symmetric]
    by (cases r) (simp_all add: broker_produce_def chk pre(5) st_bind_Ok [where m = "ensure_default topic", OF pre(4)]
        st_bind_Ok [where m = "broker_choose topic k n part", OF broker_choose_routed] st_bind_def [of "on_backend _"] on_backend_def
        st_return_def)
qed

text \<open>A produce that is routed to an existing partition is appended there.\<close>

lemma broker_produce_ok:
  assumes "bk_ops br = ops" and "inv (bk_backend br)" and "\<not> closed (bk_backend br)"
    and "\<not> bk_shutdown br" and n: "n = seen_count (count (bk_backend br) topic) br"
    and "n < 2 ^ 31" and q: "q = routed topic k n part (bk_partitioner br)" and "0 \<le> q" and "q < n"
    and hi: "hi = (case window (bk_backend br) topic q of Some (lo, hi) \<Rightarrow> hi | None \<Rightarrow> 0)"
    and "hi + 1 < 2 ^ 63" and br': "br' = snd (broker_produce c topic part k pl h ts br)"
  shows "fst (broker_produce c topic part k pl h ts br) =
      Ok \<lparr>rmd_topic = topic, rmd_partition = q, rmd_offset = hi,
          rmd_timestamp = (case ts of Some x \<Rightarrow> x | None \<Rightarrow> unix_millis c)\<rparr>"
    and "inv (bk_backend br')" and "\<not> closed (bk_backend br')"
    and "count (bk_backend br') topic = Some n"
    and "\<exists>lo. window (bk_backend br') topic q = Some (lo, hi + 1)"
    and "bk_groups br' = bk_groups br" and "bk_offset_store br' = bk_offset_store br"
    and "bk_ops br' = ops" and "\<not> bk_shutdown br'" and "bk_config br' = bk_config br"
proof -
  have "0 \<le> n" using assms(8,9) by simp
  define b1 where "b1 = snd (be_ensure_topic ops topic (default_num_partitions (bk_config br)) (bk_backend br))"
  note r = broker_produce_route [OF assms(1-5) \<open>0 \<le> n\<close> assms(6,7) b1_def]
  obtain lo where lo: "window b1 topic q = Some (lo, hi)"
  proof (cases "count (bk_backend br) topic")
    case None
    then have "window (bk_backend br) topic q = None"
      using window_None [OF assms(2), of topic q] by simp
    then show thesis using None hi assms(8,9) r(5) that [of 0] by simp
  next
    case (Some m)
    then have "window (bk_backend br) topic q \<noteq> None"
      using window_count [OF assms(2), of topic q] n assms(8,9) by (simp add: seen_count_def)
    then show thesis using Some hi r(5) that by auto
  qed
  note pr = produce_ok [OF r(2,3) lo assms(11), of c k pl h ts]
  show "fst (broker_produce c topic part k pl h ts br) =
      Ok \<lparr>rmd_topic = topic, rmd_partition = q, rmd_offset = hi,
          rmd_timestamp = (case ts of Some x \<Rightarrow> x | None \<Rightarrow> unix_millis c)\<rparr>"
    using pr r(1) by (simp add: record_metadata_of_def)
  show "inv (bk_backend br')" "\<not> closed (bk_backend br')"
    "\<exists>lo. window (bk_backend br') topic q = Some (lo, hi + 1)"
    using pr br' r(1) by auto
  show "count (bk_backend br') topic = Some n"
    using br' r(1,4) produce_count [OF r(2)] by simp
  show "bk_groups br' = bk_groups br" "bk_offset_store br' = bk_offset_store br"
    "bk_ops br' = ops" "\<not> bk_shutdown br'" "bk_config br' = bk_config br"
    using br' r(1) assms(1,4) by simp_all
qed

lemma broker_produce_bad:
  assumes "bk_ops br = ops" and "inv (bk_backend br)" and "\<not> closed (bk_backend br)"
    and "\<not> bk_shutdown br" and n: "n = seen_count (count (bk_backend br) topic) br"
    and "0 \<le> n" and "n < 2 ^ 31" and q: "q = routed topic k n part (bk_partitioner br)"
    and "\<not> (0 \<le> q \<and> q < n)"
  shows "fst (broker_produce c topic part k pl h ts br) = Err (PartitionOutOfRange topic q)"
proof -
  note r = broker_produce_route [OF assms(1-8) refl]
  have "window (snd (be_ensure_topic ops topic (default_num_partitions (bk_config br))
      (bk_backend br))) topic q = None"
    using window_None [OF r(2), of topic q] r(4) assms(9) by simp
  then show ?thesis using r produce_bad [OF r(2,3)] by simp
qed

text \<open>The out-of-range error of a fetch names an offset at which the partition can be read.\<close>

lemma fetch_one_from_position_spec:
  assumes "bk_ops br = ops" and "inv (bk_backend br)" and "\<not> closed (bk_backend br)"
    and "\<not> bk_shutdown br" and w: "window (bk_backend br) topic p = Some (lo, hi)"
    and st: "start_offset topic p position gid br = Ok off"
  shows "(if lo \<le> off \<and> off < hi
      then \<exists>m. fetch_one_from_position topic p position gid br = Ok (Some m) \<and> msg_offset m = off
    else fetch_one_from_position topic p position gid br =
      (if off = hi \<or> (off = 0 \<and> lo = hi) then Ok None
       else Err (OffsetOutOfRange topic p (if lo = hi then 0 else lo))))"
  using fetch_one_ok [OF assms(2,3) w, of off] watermarks_ok [OF assms(2,3) w] assms(1,4) st
  by (auto simp: fetch_one_from_position_def broker_check_shutdown_def oldest_offset_def
      broker_watermarks_def split: if_splits)

lemma oldest_offset_ok:
  assumes "bk_ops br = ops" and "inv (bk_backend br)" and "\<not> closed (bk_backend br)"
    and "window (bk_backend br) topic p = Some (lo, hi)"
  shows "oldest_offset topic p br = Ok (if lo = hi then 0 else lo)"
  using watermarks_ok [OF assms(2-4)] assms(1) by (simp add: oldest_offset_def broker_watermarks_def)

end


section \<open>Reachable brokers on the in-memory backend\<close>

definition wf_groups :: "(string, consumer_group) hashmap \<Rightarrow> bool" where
  "wf_groups gs \<longleftrightarrow> hm_wf gs \<and>
     (\<forall>gid g. map_of gs gid = Some g \<longrightarrow> wf_group g \<and> cg_group_id g = gid)"

definition mem_broker ::
    "(string list \<Rightarrow> string list) \<Rightarrow> ('v in_memory, 'v) broker \<Rightarrow> bool" where
  "mem_broker h br \<longleftrightarrow> bk_ops br = inmem_ops h \<and> bk_in_memory br = Some inmem_produce_typed \<and>
     bk_assignor br = round_robin_assign h \<and> wf_backend (bk_backend br) \<and> wf_groups (bk_groups br) \<and>
     im_shutdown (bk_backend br) = bk_shutdown br"

definition broker_room :: "('v in_memory, 'v) broker \<Rightarrow> bool" where
  "broker_room br \<longleftrightarrow> (\<forall>name i. inmem_room (bk_backend br) name i)"

text \<open>Every operation of the broker that changes its state or its backend.\<close>

inductive broker_step :: "('v in_memory, 'v) broker \<Rightarrow> ('v in_memory, 'v) broker \<Rightarrow> bool" where
  kstep_ensure: "broker_step br (snd (broker_ensure_topic topic n br))"
| kstep_produce: "broker_room br \<Longrightarrow>
    broker_step br (snd (broker_produce c topic part k pl hs ts br))"
| kstep_produce_typed: "broker_room br \<Longrightarrow>
    broker_step br (snd (broker_produce_typed c topic part tp tk hs ts br))"
| kstep_join: "broker_step br (snd (broker_join_group gid m topics br))"
| kstep_leave: "broker_step br (snd (broker_leave_group gid m br))"
| kstep_commit: "broker_step br (snd (broker_commit_offset gid topic p off br))"
| kstep_shutdown: "broker_step br (snd (broker_shutdown br))"

inductive broker_reachable ::
    "(string list \<Rightarrow> string list) \<Rightarrow> ('v in_memory, 'v) broker \<Rightarrow> bool"
  for h :: "string list \<Rightarrow> string list" where
  kreach_new: "broker_new h config = Ok br \<Longrightarrow> broker_reachable h br"
| kreach_partitioner: "broker_with_partitioner h config pt = Ok br \<Longrightarrow> broker_reachable h br"
| kreach_step: "broker_reachable h br \<Longrightarrow> broker_step br br' \<Longrightarrow> broker_reachable h br'"

lemma mem_brokerD:
  assumes "mem_broker h br"
  shows "bk_ops br = inmem_ops h" and "bk_in_memory br = Some inmem_produce_typed"
    and "bk_assignor br = round_robin_assign h" and "wf_backend (bk_backend br)"
    and "wf_groups (bk_groups br)" and "im_shutdown (bk_backend br) = bk_shutdown br"
  using assms by (simp_all add: mem_broker_def)

lemma mem_broker_set_backend:
  "mem_broker h br \<Longrightarrow> wf_backend b \<Longrightarrow> im_shutdown b = im_shutdown (bk_backend br) \<Longrightarrow>
   mem_broker h (br\<lparr>bk_backend := b\<rparr>)"
  by (simp add: mem_broker_def)

lemma mem_broker_on_backend:
  "mem_broker h br \<Longrightarrow> wf_backend (snd (f (bk_backend br))) \<Longrightarrow>
   im_shutdown (snd (f (bk_backend br))) = im_shutdown (bk_backend br) \<Longrightarrow>
   mem_broker h (snd (on_backend f br))"
  by (simp add: on_backend_def split_beta mem_broker_set_backend)

lemma mem_broker_set_group:
  assumes "mem_broker h br" and "wf_group g" and "cg_group_id g = gid"
  shows "mem_broker h (br\<lparr>bk_groups := AList.update gid g (bk_groups br)\<rparr>)"
  using assms by (auto simp: mem_broker_def wf_groups_def)

lemma mem_broker_group_entry:
  assumes "mem_broker h br"
  shows "wf_group (group_entry gid br)" and "cg_group_id (group_entry gid br) = gid"
  using assms wf_group_new [of gid]
  by (auto simp: group_entry_def mem_broker_def wf_groups_def group_new_def split: option.splits)

lemma mem_broker_ensure:
  "mem_broker h br \<Longrightarrow> mem_broker h (snd (broker_ensure_topic topic n br))"
  by (simp add: broker_ensure_topic_def mem_broker_on_backend mem_brokerD wf_ensure_topic)

lemma broker_room_ensure:
  "mem_broker h br \<Longrightarrow> broker_room br \<Longrightarrow> broker_room (snd (broker_ensure_topic topic n br))"
  by (simp add: broker_ensure_topic_def on_backend_def split_beta broker_room_def mem_brokerD(1)
      inmem_ensure_room)

text \<open>The common shape of the two produce operations, and what it keeps of an invariant.\<close>

lemma broker_produce_inv:
  assumes start: "I br"
    and ens: "\<And>br. I br \<Longrightarrow> I (snd (ensure_default topic br))"
    and pt: "\<And>br pt. I br \<Longrightarrow> I (br\<lparr>bk_partitioner := pt\<rparr>)"
    and prod: "\<And>br p. I br \<Longrightarrow> J (snd (on_backend (f p) br))"
    and weak: "\<And>br. I br \<Longrightarrow> J br"
  shows "J (snd (st_bind (ensure_default topic) (\<lambda>_.
     st_bind (st_read (broker_num_partitions topic)) (\<lambda>num_p.
     st_bind (broker_choose topic key num_p part) (\<lambda>p.
     st_bind (on_backend (f p)) (\<lambda>x. st_return (record_metadata_of topic x))))) br))"
proof (rule st_bind_inv [where I = I])
  show e: "I (snd (ensure_default topic br))" using start by (rule ens)
  fix u
  show "J (snd (st_bind (st_read (broker_num_partitions topic)) (\<lambda>num_p.
     st_bind (broker_choose topic key num_p part) (\<lambda>p.
     st_bind (on_backend (f p)) (\<lambda>x. st_return (record_metadata_of topic x))))
     (snd (ensure_default topic br))))"
  proof (rule st_bind_inv [where I = I])
    show s: "I (snd (st_read (broker_num_partitions topic) (snd (ensure_default topic br))))"
      using e by (simp add: st_read_def)
    fix num_p
    let ?br = "snd (st_read (broker_num_partitions topic) (snd (ensure_default topic br)))"
    show "J (snd (st_bind (broker_choose topic key num_p part) (\<lambda>p.
       st_bind (on_backend (f p)) (\<lambda>x. st_return (record_metadata_of topic x))) ?br))"
    proof (rule st_bind_inv [where I = I])
      show c: "I (snd (broker_choose topic key num_p part ?br))"
        using s by (simp add: broker_choose_routed pt)
      fix p
      show "J (snd (st_bind (on_backend (f p)) (\<lambda>x. st_return (record_metadata_of topic x))
          (snd (broker_choose topic key num_p part ?br))))"
        by (rule st_bind_inv [where I = J]) (use c in \<open>simp_all add: prod st_return_def\<close>)
    qed (rule weak)
  qed (rule weak)
qed (rule weak)

lemma broker_produce_keeps:
  assumes mem: "mem_broker h br" and "I br" and "\<And>br. I br \<Longrightarrow> mem_broker h br"
    and "\<And>br. I br \<Longrightarrow> I (snd (ensure_default topic br))"
    and "\<And>br pt. I br \<Longrightarrow> I (br\<lparr>bk_partitioner := pt\<rparr>)"
    and "\<And>br. I br \<Longrightarrow> J br"
  shows "(\<And>br p. I br \<Longrightarrow> J (snd (on_backend (inmem_produce c topic p k pl hs ts) br))) \<Longrightarrow>
      J (snd (broker_produce c topic part k pl hs ts br))"
    and "(\<And>br p. I br \<Longrightarrow> J (snd (on_backend (inmem_produce_typed c topic p tp tk hs ts) br))) \<Longrightarrow>
      J (snd (broker_produce_typed c topic part tp tk hs ts br))"
proof -
  have chk: "broker_check_shutdown br = Ok ()" if "\<not> bk_shutdown br"
    using that by (simp add: broker_check_shutdown_def)
  show "J (snd (broker_produce c topic part k pl hs ts br))"
    if "\<And>br p. I br \<Longrightarrow> J (snd (on_backend (inmem_produce c topic p k pl hs ts) br))"
  proof (cases "bk_shutdown br")
    case True
    then show ?thesis using assms(2,6) by (simp add: broker_closed)
  next
    case False
    have "J (snd (st_bind (ensure_default topic) (\<lambda>_.
       st_bind (st_read (broker_num_partitions topic)) (\<lambda>num_p.
       st_bind (broker_choose topic k num_p part) (\<lambda>p.
       st_bind (on_backend (inmem_produce c topic p k pl hs ts))
         (\<lambda>x. st_return (record_metadata_of topic x))))) br))"
      by (rule broker_produce_inv [where I = I]) (rule assms that; assumption)+
    then show ?thesis using chk [OF False] by (simp add: broker_produce_def mem_brokerD(1) [OF mem])
  qed
  show "J (snd (broker_produce_typed c topic part tp tk hs ts br))"
    if "\<And>br p. I br \<Longrightarrow> J (snd (on_backend (inmem_produce_typed c topic p tp tk hs ts) br))"
  proof (cases "bk_shutdown br")
    case True
    then show ?thesis using assms(2,6) by (simp add: broker_closed)
  next
    case False
    have "J (snd (st_bind (ensure_default topic) (\<lambda>_.
       st_bind (st_read (broker_num_partitions topic)) (\<lambda>num_p.
       st_bind (broker_choose topic None num_p part) (\<lambda>p.
       st_bind (on_backend (inmem_produce_typed c topic p tp tk hs ts))
         (\<lambda>x. st_return (record_metadata_of topic x))))) br))"
      by (rule broker_produce_inv [where I = I]) (rule assms that; assumption)+
    then show ?thesis
      using chk [OF False] by (simp add: broker_produce_typed_def mem_brokerD(2) [OF mem])
  qed
qed

definition ready :: "(string list \<Rightarrow> string list) \<Rightarrow> 'v in_memory \<Rightarrow> ('v in_memory, 'v) broker \<Rightarrow> bool" where
  "ready h b br \<longleftrightarrow> mem_broker h br \<and> broker_room br \<and> evolves b (bk_backend br)"

lemma ready_ensure: "ready h b br \<Longrightarrow> ready h b (snd (ensure_default topic br))"
  using evolves_trans [OF _ evolves_ensure]
  by (auto simp: ready_def ensure_default_def mem_broker_ensure broker_room_ensure)
     (auto simp: broker_ensure_topic_def on_backend_def split_beta mem_brokerD(1))

lemma ready_partitioner: "ready h b br \<Longrightarrow> ready h b (br\<lparr>bk_partitioner := pt\<rparr>)"
  by (simp add: ready_def mem_broker_def broker_room_def)

lemma ready_produce:
  assumes "ready h b br"
  shows "mem_broker h (snd (on_backend (inmem_produce c topic p k pl hs ts) br)) \<and>
    evolves b (bk_backend (snd (on_backend (inmem_produce c topic p k pl hs ts) br)))"
proof -
  have room: "inmem_room (bk_backend br) topic p" and mem: "mem_broker h br"
    and ev: "evolves b (bk_backend br)"
    using assms by (simp_all add: ready_def broker_room_def)
  show ?thesis
    using mem_broker_on_backend [where f = "inmem_produce c topic p k pl hs ts", OF mem]
      wf_inmem_produce [OF mem_brokerD(4) [OF mem] room]
      evolves_trans [OF ev evolves_produce [OF room]]
    by (simp add: on_backend_def split_beta)
qed

lemma ready_produce_typed:
  assumes "ready h b br"
  shows "mem_broker h (snd (on_backend (inmem_produce_typed c topic p tp tk hs ts) br)) \<and>
    evolves b (bk_backend (snd (on_backend (inmem_produce_typed c topic p tp tk hs ts) br)))"
proof -
  have room: "inmem_room (bk_backend br) topic p" and mem: "mem_broker h br"
    and ev: "evolves b (bk_backend br)"
    using assms by (simp_all add: ready_def broker_room_def)
  show ?thesis
    using mem_broker_on_backend [where f = "inmem_produce_typed c topic p tp tk hs ts", OF mem]
      wf_inmem_produce_typed [OF mem_brokerD(4) [OF mem] room]
      evolves_trans [OF ev evolves_produce_typed [OF room]]
    by (simp add: on_backend_def split_beta)
qed

lemma broker_produce_good:
  assumes "mem_broker h br" and "broker_room br"
  shows "mem_broker h (snd (broker_produce c topic part k pl hs ts br)) \<and>
      evolves (bk_backend br) (bk_backend (snd (broker_produce c topic part k pl hs ts br)))"
    and "mem_broker h (snd (broker_produce_typed c topic part tp tk hs ts br)) \<and>
      evolves (bk_backend br) (bk_backend (snd (broker_produce_typed c topic part tp tk hs ts br)))"
proof -
  let ?I = "ready h (bk_backend br)"
  let ?J = "\<lambda>s. mem_broker h s \<and> evolves (bk_backend br) (bk_backend s)"
  have start: "?I br" using assms by (simp add: ready_def)
  have weak: "?J s" if "?I s" for s using that by (simp add: ready_def)
  have mem: "mem_broker h s" if "?I s" for s using that by (simp add: ready_def)
  show "mem_broker h (snd (broker_produce c topic part k pl hs ts br)) \<and>
      evolves (bk_backend br) (bk_backend (snd (broker_produce c topic part k pl hs ts br)))"
    by (rule broker_produce_keeps(1) [where I = ?I and J = ?J, OF assms(1) start mem ready_ensure
          ready_partitioner weak ready_produce])
  show "mem_broker h (snd (broker_produce_typed c topic part tp tk hs ts br)) \<and>
      evolves (bk_backend br) (bk_backend (snd (broker_produce_typed c topic part tp tk hs ts br)))"
    by (rule broker_produce_keeps(2) [where I = ?I and J = ?J, OF assms(1) start mem ready_ensure
          ready_partitioner weak ready_produce_typed])
qed

lemma mem_broker_join_entry:
  assumes mem: "mem_broker h br" and ord: "hash_order h"
  shows "mem_broker h (snd (join_entry gid m topics meta br))"
proof -
  let ?g = "snd (group_join (round_robin_assign h) m topics (joiner_counts topics meta)
      (group_entry gid br))"
  have "wf_group ?g" "cg_group_id ?g = gid"
    using rra.group_join_ok [OF mem_broker_group_entry(1) [OF mem, of gid] ord, of m topics]
      mem_broker_group_entry(2) [OF mem, of gid] by auto
  then show ?thesis
    using mem_broker_set_group [OF mem] by (simp add: join_entry_def split_beta mem_brokerD(3) [OF mem])
qed

lemma mem_broker_create_group:
  assumes "mem_broker h br"
  shows "mem_broker h (snd (create_group gid br))"
  using mem_broker_set_group [OF assms] mem_broker_group_entry [OF assms]
  by (simp add: create_group_def)

lemma mem_broker_join:
  assumes mem: "mem_broker h br" and ord: "hash_order h"
  shows "mem_broker h (snd (broker_join_group gid m topics br))"
proof -
  have loop: "mem_broker h (snd (st_for ensure_default topics br))"
    using mem by (rule st_for_inv [where I = "mem_broker h", rotated])
      (simp add: ensure_default_def mem_broker_ensure)
  show ?thesis
    unfolding broker_join_group_def
    by (intro st_bind_inv [where I = "mem_broker h" and J = "mem_broker h"])
      (simp_all add: st_read_def mem loop mem_broker_create_group mem_broker_join_entry ord)
qed

lemma mem_broker_get_group:
  "mem_broker h br \<Longrightarrow> get_group gid br = Ok g \<Longrightarrow> wf_group g \<and> cg_group_id g = gid"
  by (auto simp: get_group_def mem_broker_def wf_groups_def split: option.splits)

lemma mem_broker_leave:
  assumes mem: "mem_broker h br" and ord: "hash_order h"
  shows "mem_broker h (snd (broker_leave_group gid m br))"
proof (cases "broker_check_shutdown br")
  case (Ok u)
  show ?thesis
  proof (cases "get_group gid br")
    case (Ok g)
    let ?g' = "\<lambda>meta. snd (group_leave (round_robin_assign h) m (all_counts meta) g)"
    have "wf_group (?g' meta) \<and> cg_group_id (?g' meta) = gid" for meta
      using rra.group_leave_ok [OF _ ord, of g m "all_counts meta"]
        mem_broker_get_group [OF mem Ok] by simp
    then have "mem_broker h (br\<lparr>bk_groups := AList.update gid (?g' meta) (bk_groups br)\<rparr>)" for meta
      using mem_broker_set_group [OF mem] by blast
    then show ?thesis
      using mem \<open>broker_check_shutdown br = Ok u\<close> Ok
      by (simp add: broker_leave_group_def st_bind_read_eq mem_brokerD(3) [OF mem] split_beta
          split: res.splits)
  qed (use Ok mem in \<open>simp_all add: broker_leave_group_def\<close>)
qed (use mem in \<open>simp_all add: broker_leave_group_def\<close>)

lemma mem_broker_commit:
  assumes "mem_broker h br"
  shows "mem_broker h (snd (broker_commit_offset gid topic p off br))"
proof -
  have "mem_broker h (br\<lparr>bk_offset_store := s\<rparr>)" for s
    using assms by (simp add: mem_broker_def)
  then show ?thesis
    using assms
    by (simp add: broker_commit_offset_def st_bind_def st_read_def split_beta split: res.splits)
qed

lemma mem_broker_shutdown:
  "mem_broker h br \<Longrightarrow> mem_broker h (snd (broker_shutdown br))"
  by (simp add: broker_shutdown_def Let_def on_backend_def split_beta mem_broker_def
      wf_inmem_shutdown) (simp add: inmem_shutdown_def)

lemma mem_broker_step:
  "broker_step br br' \<Longrightarrow> mem_broker h br \<Longrightarrow> hash_order h \<Longrightarrow> mem_broker h br'"
  by (induction rule: broker_step.induct)
     (simp_all add: mem_broker_ensure broker_produce_good mem_broker_join
       mem_broker_leave mem_broker_commit mem_broker_shutdown)

text \<open>What a step of the broker does to the partitions is a sequence of partition steps.\<close>

lemma evolves_join:
  assumes mem: "mem_broker h br"
  shows "evolves (bk_backend br) (bk_backend (snd (broker_join_group gid m topics br)))"
proof -
  let ?I = "\<lambda>s. mem_broker h s \<and> evolves (bk_backend br) (bk_backend s)"
  have ens: "?I (snd (ensure_default t s))" if "?I s" for t s
  proof -
    let ?d = "default_num_partitions (bk_config s)"
    have "bk_backend (snd (ensure_default t s)) = snd (inmem_ensure_topic t ?d (bk_backend s))"
      using mem_brokerD(1) [OF conjunct1 [OF that]]
      by (simp add: ensure_default_def broker_ensure_topic_def on_backend_def split_beta)
    then show ?thesis
      using that mem_broker_ensure [of h s t ?d]
        evolves_trans [OF conjunct2 [OF that] evolves_ensure [of _ t ?d]]
      by (simp add: ensure_default_def)
  qed
  have "?I br" using mem by simp
  then have loop: "?I (snd (st_for ensure_default topics br))"
    by (rule st_for_inv [where I = ?I, rotated]) (rule ens)
  let ?J = "\<lambda>s. evolves (bk_backend br) (bk_backend s)"
  show ?thesis
    unfolding broker_join_group_def
    by (intro st_bind_inv [where I = ?J and J = ?J])
      (use loop in \<open>simp_all add: st_read_def create_group_def join_entry_def split_beta\<close>)
qed

lemma backend_leave [simp]: "bk_backend (snd (broker_leave_group gid m br)) = bk_backend br"
  by (simp add: broker_leave_group_def st_bind_read_eq split_beta split: res.splits)

lemma backend_commit [simp]: "bk_backend (snd (broker_commit_offset gid t p off br)) = bk_backend br"
  by (simp add: broker_commit_offset_def st_bind_read_eq split_beta split: res.splits)

lemma broker_step_evolves:
  assumes "broker_step br br'" and "mem_broker h br"
  shows "evolves (bk_backend br) (bk_backend br')"
  using assms
proof (induction rule: broker_step.induct)
  case (kstep_ensure br topic n)
  then show ?case
    using mem_brokerD(1) [OF kstep_ensure]
    by (simp add: broker_ensure_topic_def on_backend_def split_beta evolves_ensure)
next
  case (kstep_shutdown br)
  then show ?case
    using evolves_shutdown [OF mem_brokerD(4) [OF kstep_shutdown]]
    by (simp add: broker_shutdown_def Let_def on_backend_def split_beta
        mem_brokerD(1) [OF kstep_shutdown])
qed (simp_all add: broker_produce_good evolves_join)

lemma broker_steps_evolve:
  assumes "broker_step\<^sup>*\<^sup>* br br'" and "mem_broker h br" and "hash_order h"
  shows "mem_broker h br' \<and> evolves (bk_backend br) (bk_backend br')"
  using assms
proof (induction rule: rtranclp_induct)
  case base
  then show ?case by simp
next
  case (step x y)
  then have x: "mem_broker h x" "evolves (bk_backend br) (bk_backend x)" by simp_all
  show ?case
    using mem_broker_step [OF step.hyps(2) x(1) step.prems(2)]
      evolves_trans [OF x(2) broker_step_evolves [OF step.hyps(2) x(1)]] by blast
qed

lemma broker_reachable_mem:
  "broker_reachable h br \<Longrightarrow> hash_order h \<Longrightarrow> mem_broker h br"
proof (induction rule: broker_reachable.induct)
  case (kreach_step br br')
  then show ?case using mem_broker_step by blast
qed (auto simp: broker_new_def broker_with_partitioner_def mem_broker_def wf_groups_def
     wf_backend_new)


section \<open>Joining a group\<close>

lemma joiner_counts_spec:
  "map_of (joiner_counts topics meta) t =
     (if t \<in> set topics
      then map_option (\<lambda>tm. wrap_i32 (int (length (tmd_partitions tm))))
             (find (\<lambda>tm. tmd_name tm = t) (md_topics meta))
      else None)"
proof -
  have "map_of (fold (\<lambda>topic counts.
       case find (\<lambda>t. tmd_name t = topic) (md_topics meta) of
         Some tm \<Rightarrow> AList.update topic (wrap_i32 (int (length (tmd_partitions tm)))) counts
       | None \<Rightarrow> counts) topics acc) t =
     (if t \<in> set topics \<and> find (\<lambda>tm. tmd_name tm = t) (md_topics meta) \<noteq> None
      then map_option (\<lambda>tm. wrap_i32 (int (length (tmd_partitions tm))))
             (find (\<lambda>tm. tmd_name tm = t) (md_topics meta))
      else map_of acc t)" for acc
    by (induction topics arbitrary: acc) (auto split: option.splits)
  from this [of "[]"] show ?thesis unfolding joiner_counts_def by auto
qed

lemma seen_count_set_backend [simp]: "seen_count c (br\<lparr>bk_backend := b\<rparr>) = seen_count c br"
  by (simp add: seen_count_def split: option.splits)

lemma ensure_topics_ok:
  assumes "mem_broker h br" and "\<not> bk_shutdown br"
  shows "\<exists>b. st_for ensure_default topics br = (Ok (), br\<lparr>bk_backend := b\<rparr>) \<and>
    (\<forall>t. inmem_count b t =
      (if t \<in> set topics then Some (seen_count (inmem_count (bk_backend br) t) br)
       else inmem_count (bk_backend br) t))"
  using assms
proof (induction topics arbitrary: br)
  case Nil
  then show ?case by (auto intro!: exI [of _ "bk_backend br"])
next
  case (Cons t topics)
  let ?d = "default_num_partitions (bk_config br)"
  let ?b = "snd (inmem_ensure_topic t ?d (bk_backend br))"
  have op: "\<not> im_shutdown (bk_backend br)" using Cons.prems mem_brokerD(6) by blast
  have "fst (inmem_ensure_topic t ?d (bk_backend br)) = Ok ()"
    using op by (simp add: inmem_ensure_topic_open)
  then have e: "ensure_default t br = (Ok (), br\<lparr>bk_backend := ?b\<rparr>)"
    by (simp add: ensure_default_def broker_ensure_topic_def on_backend_def split_beta
        mem_brokerD(1) [OF Cons.prems(1)])
  have m: "mem_broker h (br\<lparr>bk_backend := ?b\<rparr>)"
    using mem_broker_ensure [OF Cons.prems(1), of t ?d] e
    by (simp add: ensure_default_def)
  have "\<exists>b. st_for ensure_default topics (br\<lparr>bk_backend := ?b\<rparr>) =
      (Ok (), br\<lparr>bk_backend := b\<rparr>) \<and> (\<forall>u. inmem_count b u =
      (if u \<in> set topics then Some (seen_count (inmem_count ?b u) br) else inmem_count ?b u))"
    using Cons.IH [OF m] Cons.prems(2) by (simp cong: if_cong)
  then obtain b where b: "st_for ensure_default topics (br\<lparr>bk_backend := ?b\<rparr>) =
      (Ok (), br\<lparr>bk_backend := b\<rparr>)"
    "\<forall>u. inmem_count b u =
      (if u \<in> set topics then Some (seen_count (inmem_count ?b u) br) else inmem_count ?b u)"
    by blast
  show ?case
    using b e by (intro exI [of _ b])
      (auto simp: st_bind_def seen_count_def inmem_count_ensure [OF op] split: option.splits)
qed

lemma join_entry_spec:
  assumes mem: "mem_broker h br" and ord: "hash_order h"
  shows "\<exists>l g'. join_entry gid m topics meta br =
      (Ok l, br\<lparr>bk_groups := AList.update gid g' (bk_groups br)\<rparr>) \<and>
    group_assignment m g' = Some l \<and>
    cg_member_topics g' = AList.update m topics (cg_member_topics (group_entry gid br)) \<and>
    (\<forall>k t p. (t, p) \<in> set (keys_of (cg_assignments g') k) \<longleftrightarrow>
       owner (AList.update m topics (cg_member_topics (group_entry gid br)))
         (joiner_counts topics meta) t p = Some k)"
proof -
  let ?g = "group_entry gid br"
  let ?mt = "AList.update m topics (cg_member_topics ?g)"
  let ?j = "group_join (round_robin_assign h) m topics (joiner_counts topics meta) ?g"
  have wf: "wf_group ?g" by (rule mem_broker_group_entry(1) [OF mem])
  obtain a l where a: "round_robin_assign h ?mt (joiner_counts topics meta) = Ok a"
    "map_of a m = Some l" "fst ?j = Ok l" "cg_assignments (snd ?j) = a"
    "cg_member_topics (snd ?j) = ?mt"
    using rra.group_join_ok [OF wf ord] by blast
  have "hm_wf ?mt" using wf_groupD(2) [OF wf] by simp
  then have "(t, p) \<in> set (keys_of a k) \<longleftrightarrow> owner ?mt (joiner_counts topics meta) t p = Some k"
    for k t p
    using round_robin_assign_ok [OF _ ord, of ?mt "joiner_counts topics meta"] a(1) by auto
  then show ?thesis
    using a by (intro exI [of _ l] exI [of _ "snd ?j"])
      (simp add: join_entry_def split_beta mem_brokerD(3) [OF mem] group_assignment_def)
qed

lemma broker_join_run:
  assumes mem: "mem_broker h br" and ord: "hash_order h" and op: "\<not> bk_shutdown br"
    and counts: "\<forall>t n. inmem_count (bk_backend br) t = Some n \<longrightarrow> 0 \<le> n \<and> n < 2 ^ 31"
    and default: "0 \<le> default_num_partitions (bk_config br)"
      "default_num_partitions (bk_config br) < 2 ^ 31"
  shows "\<exists>br1 meta. broker_join_group gid m topics br = join_entry gid m topics meta br1 \<and>
    mem_broker h br1 \<and>
    cg_member_topics (group_entry gid br1) = cg_member_topics (group_entry gid br) \<and>
    (\<forall>t. map_of (joiner_counts topics meta) t =
      (if t \<in> set topics then Some (seen_count (inmem_count (bk_backend br) t) br) else None)) \<and>
    bk_config br1 = bk_config br \<and> (bk_shutdown br1 \<longleftrightarrow> bk_shutdown br) \<and>
    (\<forall>t. inmem_count (bk_backend br1) t =
      (if t \<in> set topics then Some (seen_count (inmem_count (bk_backend br) t) br)
       else inmem_count (bk_backend br) t))"
proof -
  obtain b where b: "st_for ensure_default topics br = (Ok (), br\<lparr>bk_backend := b\<rparr>)"
    "\<forall>t. inmem_count b t =
      (if t \<in> set topics then Some (seen_count (inmem_count (bk_backend br) t) br)
       else inmem_count (bk_backend br) t)"
    using ensure_topics_ok [OF mem op] by blast
  let ?br = "br\<lparr>bk_backend := b\<rparr>"
  have m1: "mem_broker h ?br"
    using st_for_inv [where I = "mem_broker h" and f = ensure_default and xs = topics, OF _ mem] b(1)
    by (simp add: ensure_default_def mem_broker_ensure)
  let ?br1 = "snd (create_group gid ?br)"
  have m2: "mem_broker h ?br1" by (rule mem_broker_create_group [OF m1])
  have fields: "bk_ops ?br1 = inmem_ops h" "bk_backend ?br1 = b" "bk_config ?br1 = bk_config br"
    using m2 by (simp_all add: mem_brokerD(1)) (simp_all add: create_group_def)
  have pos: "\<forall>t n. inmem_count b t = Some n \<longrightarrow> 0 \<le> n \<and> n < 2 ^ 31"
    using b(2) counts default by (auto simp: seen_count_def split: option.splits)
  have "\<not> im_shutdown b" using mem_brokerD(6) [OF m1] op by simp
  then obtain md where md: "inmem_metadata h (broker_id (bk_config br)) None b = Ok md"
    "\<forall>t. map_option (\<lambda>tm. int (length (tmd_partitions tm)))
       (find (\<lambda>tm. tmd_name tm = t) (md_topics md)) = inmem_count b t"
    using inmem_metadata_all [of b h "broker_id (bk_config br)"] mem_brokerD(4) [OF m1] ord pos
    by auto
  have jc: "map_of (joiner_counts topics md) t =
      (if t \<in> set topics then Some (seen_count (inmem_count (bk_backend br) t) br) else None)" for t
  proof -
    have "map_option (\<lambda>tm. wrap_i32 (int (length (tmd_partitions tm))))
        (find (\<lambda>tm. tmd_name tm = t) (md_topics md)) = map_option wrap_i32 (inmem_count b t)"
      using md(2) [rule_format, of t] by (metis (no_types, lifting) option.map_comp comp_def map_option_cong)
    also have "\<dots> = inmem_count b t"
    proof (cases "inmem_count b t")
      case (Some n)
      then have "in_i32 n" using pos by (auto simp: in_i32_def dest!: spec [of _ t])
      with Some show ?thesis by simp
    qed simp
    finally show ?thesis using b(2) by (simp add: joiner_counts_spec)
  qed
  have meta: "broker_all_metadata ?br1 = Ok md"
    using md(1) by (simp add: broker_all_metadata_def fields)
  have cr: "create_group gid ?br = (Ok (), ?br1)" by (simp add: create_group_def)
  have nt: "broker_get_partition_notifies topics ?br1 \<noteq> Err e"
    "broker_get_partition_notifies topics ?br1 \<noteq> Panic x" for e x
    by (simp_all add: broker_get_partition_notifies_def fields inmem_get_partition_notifies_def)
  have "broker_join_group gid m topics br = join_entry gid m topics md ?br1"
    using op nt
    by (simp add: broker_join_group_def st_bind_read_eq [of broker_check_shutdown]
        broker_check_shutdown_def st_bind_Ok [where m = "st_for ensure_default topics", OF b(1)]
        st_bind_Ok [where m = "create_group gid", OF cr] st_bind_read_eq meta split: res.splits)
  moreover have "group_entry gid ?br1 = group_entry gid br"
    by (simp add: create_group_def group_entry_def split: option.splits)
  moreover have "bk_shutdown ?br1 \<longleftrightarrow> bk_shutdown br" by (simp add: create_group_def)
  ultimately show ?thesis
    using m2 jc b(2) by (intro exI [of _ ?br1] exI [of _ md] conjI) (simp_all add: fields)
qed


section \<open>Properties\<close>

definition demo_broker :: "(nat in_memory, nat) broker" where
  "demo_broker =
     \<lparr>bk_ops = inmem_ops remdups, bk_backend = inmem_new demo_broker_config,
      bk_in_memory = Some inmem_produce_typed, bk_groups = [], bk_shutdown = False,
      bk_config = demo_broker_config,
      bk_client_config = config_set NUM_PARTITIONS ''2''
        (config_set BUFFER_CAPACITY ''10'' (config_set BROKER_ID ''b'' config_new)),
      bk_partitioner = RoundRobin round_robin_new, bk_assignor = round_robin_assign remdups,
      bk_offset_store = offset_store_new\<rparr>"

lemma demo_broker_new:
  "broker_new remdups (config_set NUM_PARTITIONS ''2''
     (config_set BUFFER_CAPACITY ''10'' (config_set BROKER_ID ''b'' config_new))) = Ok demo_broker"
  by (simp add: broker_new_def broker_config_from_def get_parsed_def config_keys parse_i32_def
      parse_usize_def parse_int_def to_digit_def demo_broker_def demo_broker_config_def)

lemma demo_broker_reachable: "broker_reachable remdups demo_broker"
  using demo_broker_new by (rule kreach_new)

lemma demo_broker_mem: "mem_broker remdups demo_broker"
  using broker_reachable_mem [OF demo_broker_reachable hash_order_remdups] .

lemma demo_broker_sel [simp]:
  "\<not> bk_shutdown demo_broker" "bk_config demo_broker = demo_broker_config"
  "bk_backend demo_broker = inmem_new demo_broker_config"
  "bk_partitioner demo_broker = RoundRobin round_robin_new" "bk_groups demo_broker = []"
  by (simp_all add: demo_broker_def)

lemma inmem_empty [simp]:
  "inmem_count (inmem_new c) t = None" "inmem_partition (inmem_new c) t i = None"
  by (simp_all add: inmem_count_def inmem_partition_def)

lemma demo_counts [simp]:
  "default_num_partitions demo_broker_config = 2" "seen_count None demo_broker = 2"
  by (simp_all add: demo_broker_config_def seen_count_def)

text \<open>C19: However the operations of a broker on the in-memory backend are ordered (new topics,
  produces, joins, leaves, commits, a shutdown), its two shutdown flags agree, every partition
  is in a state that partition operations reach under the topic's name and index, and in every
  consumer group no partition is assigned to two members.\<close>

theorem broker_invariant:
  assumes "broker_reachable h br" and "hash_order h"
  shows "im_shutdown (bk_backend br) = bk_shutdown br \<and>
    (\<forall>t i p. inmem_partition (bk_backend br) t i = Some p \<longrightarrow>
       partition_reachable t i (make_partition_config (bk_backend br)) p) \<and>
    (\<forall>gid g. map_of (bk_groups br) gid = Some g \<longrightarrow> cg_group_id g = gid \<and>
       (\<forall>m m' t p. (t, p) \<in> set (keys_of (cg_assignments g) m) \<longrightarrow>
          (t, p) \<in> set (keys_of (cg_assignments g) m') \<longrightarrow> m = m'))"
proof -
  have mem: "mem_broker h br" using assms by (rule broker_reachable_mem)
  have "cg_group_id g = gid \<and> (\<forall>m m' t p. (t, p) \<in> set (keys_of (cg_assignments g) m) \<longrightarrow>
      (t, p) \<in> set (keys_of (cg_assignments g) m') \<longrightarrow> m = m')"
    if "map_of (bk_groups br) gid = Some g" for gid g
    using mem_brokerD(5) [OF mem] that wf_groupD(5) unfolding wf_groups_def by blast
  then show ?thesis
    using mem_brokerD(6) [OF mem] inmem_partition_reachable [OF mem_brokerD(4) [OF mem]] by blast
qed

theorem broker_invariant_witness:
  "im_shutdown (bk_backend demo_broker) = bk_shutdown demo_broker"
  using broker_invariant [OF demo_broker_reachable hash_order_remdups] by blast

lemma inmem_produce_target:
  assumes "\<not> im_shutdown b" and "inmem_partition b topic q = Some p"
    and "topic_name p = topic" and "partition_id p = q" and "in_i64 (end_offset p + 1)"
  shows "\<exists>d \<le> Suc (length (buf_log (buffer p))).
    (policies (buffer p) = [] \<longrightarrow>
       d = (if 0 < max_capacity (buffer p) \<and>
            max_capacity (buffer p) \<le> Suc (length (buf_log (buffer p))) then 1 else 0)) \<and>
    inmem_partition (snd (inmem_produce c topic q k pl hs ts b)) topic q = Some (p\<lparr>
      buffer := (buffer p)\<lparr>
        buf_log := drop d (buf_log (buffer p) @ [stored_new k pl topic q (end_offset p)
          (case ts of Some x \<Rightarrow> x | None \<Rightarrow> unix_millis c) hs (mono c 0)]),
        next_offset := end_offset p + 1\<rparr>,
      notifications := Suc (notifications p)\<rparr>)"
  using inmem_produce_partition [OF assms(1,2), of c k pl hs ts topic q] assms(3,4)
    append_message_state [OF assms(5), of c "\<lambda>off. stored_new k pl topic q off
      (case ts of Some x \<Rightarrow> x | None \<Rightarrow> unix_millis c) hs (mono c 0)"]
  by (simp add: partition_append_def)

text \<open>The partition a produce goes to, after the topic has been ensured.\<close>

lemma ensured_target:
  assumes "wf_backend b" and "\<not> im_shutdown b"
    and "n = (case inmem_count b topic of Some m \<Rightarrow> m | None \<Rightarrow> dn)" and "0 \<le> q" and "q < n"
    and "p = (case inmem_partition b topic q of Some p \<Rightarrow> p
      | None \<Rightarrow> partition_new topic q (make_partition_config b))"
    and "b1 = snd (inmem_ensure_topic topic dn b)"
  shows "inmem_partition b1 topic q = Some p" and "wf_partition p"
    and "topic_name p = topic" and "partition_id p = q"
proof -
  show p: "inmem_partition b1 topic q = Some p"
    using assms(3-7) inmem_partition_count [OF assms(1), of topic q]
    by (auto simp: inmem_partition_ensure [OF assms(2)] split: option.splits)
  have wf: "wf_backend b1" using wf_ensure_topic [OF assms(1)] assms(7) by simp
  show "wf_partition p" using inmem_partition_wf [OF wf p] .
  show "topic_name p = topic" "partition_id p = q"
    using partition_reachable_config [OF inmem_partition_reachable [OF wf p]] by simp_all
qed

text \<open>C14: A produce on an open broker creates the topic if need be, and is routed to the partition
  named, or else to the one the partitioner chooses among all partitions of the topic. When that
  partition exists and has room, the produce succeeds with that partition's next offset and the
  given timestamp or the current time. In that partition, \<open>p0\<close> before, the message with the key,
  payload, headers, timestamp and place is then the last of the log, old messages may have gone
  from the front (without an eviction policy exactly one, and only when the buffer is full), the
  next offset is one up and its waiters were notified once. Nothing else changes: the partitioner
  moves on only when it was asked, the other partitions of a topic just created are empty, and
  every other partition, partition count and part of the broker is as before.\<close>

theorem broker_produce_spec:
  assumes "mem_broker h br" and "\<not> bk_shutdown br"
    and "n = seen_count (inmem_count (bk_backend br) topic) br" and "n < 2 ^ 31"
    and "q = routed topic k n part (bk_partitioner br)" and "0 \<le> q" and "q < n"
    and "p0 = (case inmem_partition (bk_backend br) topic q of Some p \<Rightarrow> p
      | None \<Rightarrow> partition_new topic q (make_partition_config (bk_backend br)))"
    and "end_offset p0 + 1 < 2 ^ 63" and "br' = snd (broker_produce c topic part k pl hs ts br)"
  shows "fst (broker_produce c topic part k pl hs ts br) =
      Ok \<lparr>rmd_topic = topic, rmd_partition = q, rmd_offset = end_offset p0,
          rmd_timestamp = (case ts of Some x \<Rightarrow> x | None \<Rightarrow> unix_millis c)\<rparr> \<and>
    (\<exists>d \<le> Suc (length (buf_log (buffer p0))).
       (policies (buffer p0) = [] \<longrightarrow>
          d = (if 0 < max_capacity (buffer p0) \<and>
               max_capacity (buffer p0) \<le> Suc (length (buf_log (buffer p0))) then 1 else 0)) \<and>
       inmem_partition (bk_backend br') topic q = Some (p0\<lparr>
         buffer := (buffer p0)\<lparr>
           buf_log := drop d (buf_log (buffer p0) @ [stored_new k pl topic q (end_offset p0)
             (case ts of Some x \<Rightarrow> x | None \<Rightarrow> unix_millis c) hs (mono c 0)]),
           next_offset := end_offset p0 + 1\<rparr>,
         notifications := Suc (notifications p0)\<rparr>)) \<and>
    (\<forall>t i. (t, i) \<noteq> (topic, q) \<longrightarrow> inmem_partition (bk_backend br') t i =
       (if t = topic \<and> inmem_count (bk_backend br) topic = None
        then (if 0 \<le> i \<and> i < n
              then Some (partition_new topic i (make_partition_config (bk_backend br))) else None)
        else inmem_partition (bk_backend br) t i)) \<and>
    (\<forall>t. inmem_count (bk_backend br') t =
       (if t = topic then Some n else inmem_count (bk_backend br) t)) \<and>
    im_shutdown (bk_backend br') = im_shutdown (bk_backend br) \<and>
    im_config (bk_backend br') = im_config (bk_backend br) \<and>
    br' = br\<lparr>bk_backend := bk_backend br',
      bk_partitioner := (case part of Some _ \<Rightarrow> bk_partitioner br
        | None \<Rightarrow> snd (choose_partition topic k n (bk_partitioner br)))\<rparr>"
proof -
  let ?b = "bk_backend br"
  let ?b1 = "snd (inmem_ensure_topic topic (default_num_partitions (bk_config br)) ?b)"
  have op: "\<not> im_shutdown ?b" using assms(1,2) by (simp add: mem_brokerD(6))
  note wf = mem_brokerD(4) [OF assms(1)]
  note wf1 = wf_ensure_topic [OF wf, of topic "default_num_partitions (bk_config br)"]
  note run = mem.broker_produce_route [OF mem_brokerD(1,4) [OF assms(1)] op assms(2,3) _ assms(4,5) refl]
  have route: "br' = br\<lparr>bk_backend := snd (inmem_produce c topic q k pl hs ts ?b1),
      bk_partitioner := partitioner_after topic k n part (bk_partitioner br)\<rparr>"
    using run(1) assms(6,7,10) by simp
  have cnt1: "inmem_count ?b1 topic = Some n" using run(4) assms(6,7) by simp
  have old: "inmem_partition ?b1 t i = (if t = topic \<and> inmem_count ?b topic = None
      then (if 0 \<le> i \<and> i < n then Some (partition_new topic i (make_partition_config ?b)) else None)
      else inmem_partition ?b t i)" for t i
    using assms(3) by (auto simp: inmem_partition_ensure [OF op] seen_count_def)
  note p0 = ensured_target [OF wf op assms(3) [unfolded seen_count_def] assms(6,7,8) refl]
  have room: "in_i64 (end_offset p0 + 1)"
    using assms(9) wf_partitionD(1,2) [OF p0(2)] by (simp add: in_i64_def)
  have op1: "\<not> im_shutdown ?b1" using op by simp
  have w: "end_offset p0 =
      (case inmem_window ?b topic q of Some (lo, hi) \<Rightarrow> hi | None \<Rightarrow> 0)"
    using assms(8) by (auto simp: inmem_window_def partition_new_def end_offset_def split: option.splits)
  note ok = mem.broker_produce_ok(1) [OF mem_brokerD(1,4) [OF assms(1)] op assms(2-7) w assms(9,10)]
  have frame: "inmem_partition (bk_backend br') t i = inmem_partition ?b1 t i"
    if "(t, i) \<noteq> (topic, q)" for t i
    using inmem_produce_frame [OF wf1 that] by (simp add: route)
  have "inmem_count (bk_backend br') t = (if t = topic then Some n else inmem_count ?b t)" for t
    using cnt1 by (auto simp: route inmem_count_ensure [OF op])
  moreover have "br' = br\<lparr>bk_backend := bk_backend br', bk_partitioner := (case part of
      Some _ \<Rightarrow> bk_partitioner br | None \<Rightarrow> snd (choose_partition topic k n (bk_partitioner br)))\<rparr>"
    using route by (simp add: partitioner_after_def)
  moreover note inmem_produce_target [OF op1 p0(1,3,4) room, of c k pl hs ts]
  ultimately show ?thesis using ok frame by (simp add: old route)
qed

theorem broker_produce_spec_witness:
  "fst (broker_produce demo_clock ''t'' None None (Some [1]) None None demo_broker) =
     Ok \<lparr>rmd_topic = ''t'', rmd_partition = 0, rmd_offset = 0, rmd_timestamp = 7\<rparr>"
  using broker_produce_spec [OF demo_broker_mem, where topic = "''t''" and k = None and part = None
      and n = 2 and q = 0 and c = demo_clock and pl = "Some [1]" and hs = None
      and ts = None, OF _ _ _ _ _ _ refl _ refl]
  by (simp add: routed_def round_robin_partition_def round_robin_new_def rem_index_def
      demo_clock_def unix_millis_def signed_modulo_int_def wrap_i32_def wrap_i64_def
      partition_new_def end_offset_def)

text \<open>A produce without a partition cannot miss: on an open broker with one of the crate's
  partitioners and a topic of 1 to \<open>2^30\<close> partitions with room, it always succeeds, in one of the
  topic's partitions.\<close>

theorem routed_produce_succeeds:
  assumes "mem_broker h br" and "\<not> bk_shutdown br"
    and "n = seen_count (inmem_count (bk_backend br) topic) br" and "0 < n" and "n \<le> 2 ^ 30"
    and "bk_partitioner br = RoundRobin sr \<or> bk_partitioner br = Consistent sc \<or>
      bk_partitioner br = RandomSelect sd"
    and "\<forall>i p. inmem_partition (bk_backend br) topic i = Some p \<longrightarrow> end_offset p + 1 < 2 ^ 63"
  shows "\<exists>md. fst (broker_produce c topic None k pl hs ts br) = Ok md \<and>
    rmd_topic md = topic \<and> 0 \<le> rmd_partition md \<and> rmd_partition md < n"
proof -
  define q where "q = routed topic k n None (bk_partitioner br)"
  define off where
    "off = (case inmem_partition (bk_backend br) topic q of Some p \<Rightarrow> end_offset p | None \<Rightarrow> 0)"
  have q: "0 \<le> q" "q < n"
    using rr.part_in_range [OF assms(4,5), of topic k sr] ch.part_in_range [OF assms(4,5), of topic k sc]
      rnd.part_in_range [OF assms(4,5), of topic k sd] assms(6)
    by (auto simp: q_def routed_def split: prod.splits)
  have "n < 2 ^ 31" using assms(5) by simp
  moreover have "off + 1 < 2 ^ 63" using assms(7) by (auto simp: off_def split: option.splits)
  ultimately have
    "fst (broker_produce c topic None k pl hs ts br) =
      Ok \<lparr>rmd_topic = topic, rmd_partition = q, rmd_offset = off,
          rmd_timestamp = (case ts of Some x \<Rightarrow> x | None \<Rightarrow> unix_millis c)\<rparr>"
    using mem.broker_produce_ok(1) [OF mem_brokerD(1,4) [OF assms(1)] _ assms(2,3), of q k None off]
      assms(1,2) q q_def
    by (simp add: mem_brokerD(6) off_def inmem_window_def split: option.splits)
  with q show ?thesis by simp
qed

theorem routed_produce_succeeds_witness:
  "\<exists>md. fst (broker_produce demo_clock ''t'' None (Some [97]) None None None demo_broker) = Ok md \<and>
     rmd_topic md = ''t'' \<and> 0 \<le> rmd_partition md \<and> rmd_partition md < 2"
  using routed_produce_succeeds [OF demo_broker_mem, where topic = "''t''" and n = 2
      and sr = round_robin_new] by simp

text \<open>Where a produce fails. An index outside the topic's partitions, named by the caller or
  chosen by a partitioner, gives \<open>PartitionOutOfRange\<close> with the topic and that index. A broker
  configured with a negative default number of partitions panics at the first produce to a new
  topic, and leaves the topic behind.\<close>

theorem broker_produce_errors:
  assumes "mem_broker h br" and "\<not> bk_shutdown br"
    and "n = seen_count (inmem_count (bk_backend br) topic) br" and "n < 2 ^ 31"
    and "q = routed topic k n part (bk_partitioner br)" and "\<not> (0 \<le> q \<and> q < n)"
  shows "(0 \<le> n \<longrightarrow>
      fst (broker_produce c topic part k pl hs ts br) = Err (PartitionOutOfRange topic q)) \<and>
    (n < 0 \<longrightarrow> fst (broker_produce c topic part k pl hs ts br) = Panic CapacityOverflow \<and>
      inmem_count (bk_backend (snd (broker_produce c topic part k pl hs ts br))) topic = Some n)"
proof (intro conjI impI)
  have op: "\<not> im_shutdown (bk_backend br)" using assms(1,2) by (simp add: mem_brokerD(6))
  show "fst (broker_produce c topic part k pl hs ts br) = Err (PartitionOutOfRange topic q)"
    if "0 \<le> n"
    using mem.broker_produce_bad [OF mem_brokerD(1,4) [OF assms(1)] op assms(2,3) that assms(4-6)] .
  assume neg: "n < 0"
  let ?b = "snd (inmem_ensure_topic topic (default_num_partitions (bk_config br)) (bk_backend br))"
  have cnt: "inmem_count ?b topic = Some n"
    using assms(3) by (auto simp: inmem_count_ensure [OF op] seen_count_def split: option.splits)
  have ens: "ensure_default topic br = (Ok (), br\<lparr>bk_backend := ?b\<rparr>)"
    using mem.ensure_ok [OF mem_brokerD(4) [OF assms(1)] op]
    by (simp add: ensure_default_def broker_ensure_topic_def on_backend_def split_beta
        mem_brokerD(1) [OF assms(1)])
  obtain t where t: "map_of (im_topics ?b) topic = Some t" "tp_partition_count t = n"
    using cnt by (auto simp: inmem_count_def)
  have "broker_num_partitions topic (br\<lparr>bk_backend := ?b\<rparr>) = Panic CapacityOverflow"
    using inmem_metadata_one [OF wf_ensure_topic [OF mem_brokerD(4) [OF assms(1)]] _ t(1)] op neg t(2)
    by (simp add: broker_num_partitions_def mem_brokerD(1) [OF assms(1)])
  then have "broker_produce c topic part k pl hs ts br =
      (Panic CapacityOverflow, br\<lparr>bk_backend := ?b\<rparr>)"
    using assms(2)
    by (simp add: broker_produce_def st_bind_read_eq broker_check_shutdown_def
        st_bind_Ok [where m = "ensure_default topic", OF ens])
  with cnt show "fst (broker_produce c topic part k pl hs ts br) = Panic CapacityOverflow"
    and "inmem_count (bk_backend (snd (broker_produce c topic part k pl hs ts br))) topic = Some n"
    by simp_all
qed

theorem broker_produce_errors_witness:
  "fst (broker_produce demo_clock ''t'' (Some 5) None None None None demo_broker) =
     Err (PartitionOutOfRange ''t'' 5)"
  using broker_produce_errors [OF demo_broker_mem, where topic = "''t''" and n = 2 and q = 5
      and part = "Some 5" and k = None]
  by (simp add: routed_def)

text \<open>C15: A fetch by position on an open broker starts at the position given; without one, one after
  the group's committed offset, and without that at the oldest message. It returns the message
  at the start offset when the partition holds it and nothing at its end; otherwise it fails
  with \<open>OffsetOutOfRange\<close>, and the offset in the error is one at which the same fetch succeeds.\<close>

theorem fetch_from_position_spec:
  assumes "mem_broker h br" and "\<not> bk_shutdown br"
    and "inmem_partition (bk_backend br) topic i = Some p"
    and "off = (case position of Some x \<Rightarrow> x | None \<Rightarrow>
      (case Option.bind gid (\<lambda>g. map_of (bk_groups br) g) of
         Some g \<Rightarrow> (case map_of (os_offsets (bk_offset_store br)) (cg_group_id g, topic, i) of
             Some x \<Rightarrow> wrap_i64 (x + 1)
           | None \<Rightarrow> if first_offset p = end_offset p then 0 else first_offset p)
       | None \<Rightarrow> if first_offset p = end_offset p then 0 else first_offset p))"
  shows "(if first_offset p \<le> off \<and> off < end_offset p
      then \<exists>m. fetch_one_from_position topic i position gid br = Ok (Some m) \<and> msg_offset m = off
    else if off = end_offset p \<or> (off = 0 \<and> first_offset p = end_offset p)
      then fetch_one_from_position topic i position gid br = Ok None
    else \<exists>off'. fetch_one_from_position topic i position gid br = Err (OffsetOutOfRange topic i off') \<and>
      is_ok (fetch_one_from_position topic i (Some off') gid br))"
proof -
  have op: "\<not> im_shutdown (bk_backend br)" using assms(1,2) by (simp add: mem_brokerD(6))
  have w: "inmem_window (bk_backend br) topic i = Some (first_offset p, end_offset p)"
    using assms(3) by (simp add: inmem_window_def)
  note sp = mem.fetch_one_from_position_spec [OF mem_brokerD(1,4) [OF assms(1)] op assms(2) w]
  have old: "oldest_offset topic i br =
      Ok (if first_offset p = end_offset p then 0 else first_offset p)"
    using mem.oldest_offset_ok [OF mem_brokerD(1,4) [OF assms(1)] op w] .
  have st: "start_offset topic i position gid br = Ok off"
    using old assms(4)
    by (auto simp: start_offset_def group_committed_offset_def offset_committed_def
        split: option.splits)
  have le: "first_offset p \<le> end_offset p"
    using wf_partitionD(2) [OF inmem_partition_wf [OF mem_brokerD(4) [OF assms(1)] assms(3)]] .
  have "start_offset topic i (Some x) gid br = Ok x" for x by (simp add: start_offset_def)
  note again = sp [OF this]
  have "is_ok (fetch_one_from_position topic i
      (Some (if first_offset p = end_offset p then 0 else first_offset p)) gid br)"
    using again [of 0] again [of "first_offset p"] le
    by (cases "first_offset p = end_offset p") (auto simp: is_ok_iff)
  then show ?thesis using sp [OF st] by auto
qed

theorem fetch_from_position_spec_witness:
  "\<exists>off'. fetch_one_from_position ''t'' 1 (Some 9) None
       (snd (broker_ensure_topic ''t'' 2 demo_broker)) = Err (OffsetOutOfRange ''t'' 1 off')"
proof -
  let ?br = "snd (broker_ensure_topic ''t'' 2 demo_broker)"
  have "bk_backend ?br = demo_backend" "\<not> bk_shutdown ?br"
    by (simp_all add: broker_ensure_topic_def on_backend_def split_beta demo_backend_def
        mem_brokerD(1) [OF demo_broker_mem])
  then show ?thesis
    using fetch_from_position_spec [OF mem_broker_ensure [OF demo_broker_mem], of "''t''" 2 "''t''" 1
        "partition_new ''t'' 1 (demo_config 10)" 9 None "Some 9"]
    by (auto simp: demo_backend_partition first_offset_def end_offset_def partition_new_def)
qed

lemma commit_offset_known:
  assumes "mem_broker h br" and "\<not> bk_shutdown br" and "in_i64 (off + 1)"
    and "map_of (bk_groups br) gid \<noteq> None"
    and "br' = snd (broker_commit_offset gid topic i off br)"
  shows "fst (broker_commit_offset gid topic i off br) = Ok ()"
    and "broker_committed_offset gid topic i br' = Ok (Some off)"
    and "start_offset topic i None (Some gid) br' = Ok (off + 1)"
    and "(g, t, j) \<noteq> (gid, topic, i) \<Longrightarrow>
         broker_committed_offset g t j br' = broker_committed_offset g t j br"
    and "br' = br\<lparr>bk_offset_store := bk_offset_store br'\<rparr>"
proof -
  obtain g0 where Some: "map_of (bk_groups br) gid = Some g0" using assms(4) by blast
  have ids: "cg_group_id g = gid" if "map_of (bk_groups br) gid = Some g" for gid g
    using mem_brokerD(5) [OF assms(1)] that by (simp add: wf_groups_def)
  have c: "broker_commit_offset gid topic i off br =
      (Ok (), br\<lparr>bk_offset_store := snd (offset_commit gid topic i off (bk_offset_store br))\<rparr>)"
    using assms(2) Some ids [OF Some] ostore.commit_ok [of gid topic i off "bk_offset_store br"]
    by (simp add: broker_commit_offset_def st_bind_read_eq broker_check_shutdown_def get_group_def
        group_commit_offset_def split_beta)
  show "broker_committed_offset g t j br' = broker_committed_offset g t j br"
    if "(g, t, j) \<noteq> (gid, topic, i)"
    using that c assms(5) ids
    by (auto simp: broker_committed_offset_def broker_check_shutdown_def get_group_def
        group_committed_offset_def ostore.committed_commit split: option.splits)
  show "br' = br\<lparr>bk_offset_store := bk_offset_store br'\<rparr>" using c assms(5) by simp
  show "fst (broker_commit_offset gid topic i off br) = Ok ()"
    "broker_committed_offset gid topic i br' = Ok (Some off)"
    "start_offset topic i None (Some gid) br' = Ok (off + 1)"
    using Some c assms(2,3,5) ids [OF Some]
    by (simp_all add: broker_committed_offset_def broker_check_shutdown_def get_group_def
        group_committed_offset_def ostore.committed_commit start_offset_def)
qed

definition demo_grouped :: "(nat in_memory, nat) broker" where
  "demo_grouped = demo_broker\<lparr>bk_groups := AList.update ''g'' (group_new ''g'') (bk_groups demo_broker)\<rparr>"

lemma demo_grouped_mem: "mem_broker remdups demo_grouped"
  unfolding demo_grouped_def
  by (rule mem_broker_set_group [OF demo_broker_mem wf_group_new]) (simp add: group_new_def)

text \<open>C39: A commit on an open broker for a group the broker does not know fails with
  \<open>GroupNotFound\<close> and changes nothing. Otherwise it succeeds, the group's committed offset for
  that topic and partition is the one committed, whether or not such a partition exists, every
  other committed offset of every group and the rest of the broker are as before, and a fetch of
  that group without a position then starts one after the offset committed, which is supposed to
  be below the largest \<open>i64\<close>.\<close>

theorem commit_offset_spec:
  assumes "mem_broker h br" and "\<not> bk_shutdown br" and "in_i64 (off + 1)"
    and "br' = snd (broker_commit_offset gid topic i off br)"
  shows "(map_of (bk_groups br) gid = None \<longrightarrow>
      broker_commit_offset gid topic i off br = (Err (GroupNotFound gid), br)) \<and>
    (map_of (bk_groups br) gid \<noteq> None \<longrightarrow>
      fst (broker_commit_offset gid topic i off br) = Ok () \<and>
      broker_committed_offset gid topic i br' = Ok (Some off) \<and>
      start_offset topic i None (Some gid) br' = Ok (off + 1) \<and>
      (\<forall>g t j. (g, t, j) \<noteq> (gid, topic, i) \<longrightarrow>
         broker_committed_offset g t j br' = broker_committed_offset g t j br) \<and>
      br' = br\<lparr>bk_offset_store := bk_offset_store br'\<rparr>)"
proof (cases "map_of (bk_groups br) gid")
  case None
  then show ?thesis
    using assms(2)
    by (simp add: broker_commit_offset_def st_bind_read_eq broker_check_shutdown_def get_group_def)
next
  case (Some g)
  then have "map_of (bk_groups br) gid \<noteq> None" by simp
  note known = commit_offset_known [OF assms(1-3) this assms(4)]
  have "\<forall>g t j. (g, t, j) \<noteq> (gid, topic, i) \<longrightarrow>
      broker_committed_offset g t j br' = broker_committed_offset g t j br"
    using known(4) by simp
  then show ?thesis using Some known(1-3,5) by simp
qed

theorem commit_offset_spec_witness:
  "broker_commit_offset ''g'' ''t'' 0 3 demo_broker = (Err (GroupNotFound ''g''), demo_broker) \<and>
   broker_committed_offset ''g'' ''t'' 0 (snd (broker_commit_offset ''g'' ''t'' 0 3 demo_grouped)) = Ok (Some 3)"
  using commit_offset_spec [OF demo_broker_mem, of 3 _ "''g''" "''t''" 0, OF _ _ refl]
    commit_offset_spec [OF demo_grouped_mem, of 3 _ "''g''" "''t''" 0, OF _ _ refl]
  by (simp add: in_i64_def demo_grouped_def)

lemma broker_step_shutdown:
  "broker_step br br' \<Longrightarrow> bk_shutdown br \<Longrightarrow> bk_shutdown br'"
  by (induction rule: broker_step.induct)
     (simp_all add: broker_closed broker_ensure_topic_def broker_shutdown_def on_backend_def
       split_beta Let_def)

text \<open>After a shutdown no operation changes the broker but another shutdown, which only notifies
  the waiters of every partition again.\<close>

lemma broker_step_closed:
  "broker_step x y \<Longrightarrow> mem_broker h x \<Longrightarrow> bk_shutdown x \<Longrightarrow> y = x \<or> y = snd (broker_shutdown x)"
  by (induction rule: broker_step.induct)
     (simp_all add: broker_closed broker_ensure_topic_def on_backend_def mem_brokerD(1,6) inmem_closed)

lemma broker_shutdown_state:
  assumes "mem_broker h br"
  shows "broker_shutdown br =
    (Ok (), br\<lparr>bk_shutdown := True, bk_backend := snd (inmem_shutdown (bk_backend br))\<rparr>)"
  by (simp add: broker_shutdown_def Let_def on_backend_def split_beta mem_brokerD(1) [OF assms])
     (simp add: inmem_shutdown_def)

text \<open>What a shutdown leaves of a broker: all of it but the two flags and the notifications.\<close>

definition contents_kept :: "('v in_memory, 'v) broker \<Rightarrow> ('v in_memory, 'v) broker \<Rightarrow> bool" where
  "contents_kept br br' \<longleftrightarrow>
     br' = br\<lparr>bk_shutdown := True, bk_backend := bk_backend br'\<rparr> \<and>
     inmem_count (bk_backend br') = inmem_count (bk_backend br) \<and>
     (\<forall>t i. map_option (\<lambda>p. p\<lparr>notifications := 0\<rparr>) (inmem_partition (bk_backend br') t i) =
        map_option (\<lambda>p. p\<lparr>notifications := 0\<rparr>) (inmem_partition (bk_backend br) t i)) \<and>
     (\<forall>topics. broker_get_partition_notifies topics br' = broker_get_partition_notifies topics br)"

lemma contents_kept_shutdown:
  assumes "mem_broker h br"
  shows "contents_kept br (snd (broker_shutdown br))"
proof -
  note b = backend_shutdown_final [OF mem_brokerD(4) [OF assms] refl]
  have "map_option (\<lambda>p. p\<lparr>notifications := 0\<rparr>)
      (inmem_partition (snd (inmem_shutdown (bk_backend br))) t i) =
    map_option (\<lambda>p. p\<lparr>notifications := 0\<rparr>) (inmem_partition (bk_backend br) t i)" for t i
    using b by (simp add: option.map_comp o_def notify_def)
  moreover have "inmem_count (snd (inmem_shutdown (bk_backend br))) = inmem_count (bk_backend br)"
    by (auto simp: inmem_count_def map_of_shutdown topic_notify_all_def option.map_comp o_def)
  ultimately show ?thesis
    using b by (simp add: contents_kept_def broker_shutdown_state [OF assms]
        broker_get_partition_notifies_def mem_brokerD(1) [OF assms])
qed

lemma contents_kept_trans: "contents_kept a b \<Longrightarrow> contents_kept b c \<Longrightarrow> contents_kept a c"
  unfolding contents_kept_def by (cases a; cases b; cases c) auto

lemma after_shutdown:
  assumes "mem_broker h br" and "hash_order h" and "broker_step\<^sup>*\<^sup>* (snd (broker_shutdown br)) br'"
  shows "mem_broker h br' \<and> bk_shutdown br' \<and> contents_kept br br'"
  using assms(3)
proof (induction rule: rtranclp_induct)
  case base
  show ?case
    using mem_broker_shutdown [OF assms(1)] contents_kept_shutdown [OF assms(1)]
    by (simp add: broker_shutdown_state [OF assms(1)])
next
  case (step x y)
  then have x: "mem_broker h x" "bk_shutdown x" "contents_kept br x" by blast+
  show ?case
    using broker_step_closed [OF step.hyps(2) x(1,2)] mem_broker_shutdown [OF x(1)] x
      contents_kept_trans [OF x(3) contents_kept_shutdown [OF x(1)]]
    by (auto simp: broker_shutdown_state [OF x(1)])
qed

text \<open>C34: A shutdown succeeds and is final. In every state the broker can be in afterwards,
  producing, fetching by position or by offset, metadata, watermarks, new topics, joining and
  leaving groups and committing and reading committed offsets all answer \<open>BrokerShutdown\<close> and
  change nothing. Three operations look at no flag and still answer: another shutdown succeeds,
  and listing the notification handles and waiting on them answer as they did before. And the
  broker still holds what it held: its groups, committed offsets and partitioner, its topics and,
  but for the notifications, its partitions with all their messages.\<close>

theorem broker_shutdown_final:
  assumes "mem_broker h br" and "hash_order h"
    and "broker_step\<^sup>*\<^sup>* (snd (broker_shutdown br)) br'"
  shows "fst (broker_shutdown br) = Ok () \<and>
    broker_produce c topic part k pl hs ts br' = (Err BrokerShutdown, br') \<and>
    broker_produce_typed c topic part tp tk hs ts br' = (Err BrokerShutdown, br') \<and>
    broker_ensure_topic topic n br' = (Err BrokerShutdown, br') \<and>
    fetch_one_from_position topic i pos gid br' = Err BrokerShutdown \<and>
    broker_fetch topic i off cnt br' = Err BrokerShutdown \<and>
    broker_watermarks topic i br' = Err BrokerShutdown \<and>
    broker_metadata tn br' = Err BrokerShutdown \<and>
    broker_join_group g m topics br' = (Err BrokerShutdown, br') \<and>
    broker_leave_group g m br' = (Err BrokerShutdown, br') \<and>
    broker_commit_offset g topic i off br' = (Err BrokerShutdown, br') \<and>
    broker_committed_offset g topic i br' = Err BrokerShutdown \<and>
    fst (broker_shutdown br') = Ok () \<and>
    broker_get_partition_notifies topics br' = broker_get_partition_notifies topics br \<and>
    (\<exists>hs. broker_get_partition_notifies topics br' = Ok hs) \<and>
    broker_wait_for_messages now wait topics d br' = broker_wait_for_messages now wait topics d br \<and>
    (\<exists>b. broker_wait_for_messages now wait topics d br' = Ok b) \<and>
    br' = br\<lparr>bk_shutdown := True, bk_backend := bk_backend br'\<rparr> \<and>
    inmem_count (bk_backend br') t = inmem_count (bk_backend br) t \<and>
    map_option (\<lambda>p. p\<lparr>notifications := 0\<rparr>) (inmem_partition (bk_backend br') t j) =
      map_option (\<lambda>p. p\<lparr>notifications := 0\<rparr>) (inmem_partition (bk_backend br) t j)"
proof -
  have mem: "mem_broker h br'" and sh: "bk_shutdown br'" and kept: "contents_kept br br'"
    using after_shutdown [OF assms] by blast+
  have cl: "im_shutdown (bk_backend br')" using mem_brokerD(6) [OF mem] sh by simp
  note ops = mem_brokerD(1) [OF mem] mem_brokerD(1) [OF assms(1)]
  have nt: "inmem_get_partition_notifies topics (bk_backend br') =
      inmem_get_partition_notifies topics (bk_backend br)"
    using kept by (simp add: contents_kept_def broker_get_partition_notifies_def ops)
  then have wt: "broker_wait_for_messages now wait topics d br' =
      broker_wait_for_messages now wait topics d br"
    by (simp add: broker_wait_for_messages_def ops inmem_wait_for_messages_def)
  obtain hs where hs: "inmem_get_partition_notifies topics (bk_backend br) = Ok hs"
    by (simp add: inmem_get_partition_notifies_def)
  then have "\<exists>b. broker_wait_for_messages now wait topics d br = Ok b"
    by (auto simp: broker_wait_for_messages_def ops inmem_wait_for_messages_def split: list.split)
  then show ?thesis
    using kept hs nt wt
    by (simp add: broker_closed [OF sh] broker_ensure_topic_def on_backend_def broker_fetch_def
        broker_watermarks_def ops inmem_closed [OF cl] broker_shutdown_state [OF assms(1)]
        broker_shutdown_state [OF mem] contents_kept_def broker_get_partition_notifies_def)
qed

theorem broker_shutdown_final_witness:
  "fst (broker_produce demo_clock ''t'' None None None None None (snd (broker_shutdown demo_broker))) =
     Err BrokerShutdown"
  using broker_shutdown_final [OF demo_broker_mem hash_order_remdups rtranclp.rtrancl_refl] by simp

text \<open>C38: Joining a group through an open broker, when every topic has between 0 and \<open>2^31\<close>
  partitions, never fails. It returns the member's entry of the group's new assignment, in which
  every partition of the topics just joined is assigned to exactly one member. But it is
  computed from the counts of these topics alone: no member keeps a partition of any other
  topic, so a member that subscribes to something else loses what it had.\<close>

theorem join_group_spec:
  assumes "mem_broker h br" and "hash_order h" and "\<not> bk_shutdown br"
    and "\<forall>t n. inmem_count (bk_backend br) t = Some n \<longrightarrow> 0 \<le> n \<and> n < 2 ^ 31"
    and "0 \<le> default_num_partitions (bk_config br)"
    and "default_num_partitions (bk_config br) < 2 ^ 31"
  shows "\<exists>l g'. fst (broker_join_group gid m topics br) = Ok l \<and>
    map_of (bk_groups (snd (broker_join_group gid m topics br))) gid = Some g' \<and>
    group_assignment m g' = Some l \<and>
    (\<forall>t p. t \<in> set topics \<longrightarrow> 0 \<le> p \<longrightarrow> p < seen_count (inmem_count (bk_backend br) t) br \<longrightarrow>
       (\<exists>!k. (t, p) \<in> set (keys_of (cg_assignments g') k))) \<and>
    (\<forall>k t p. t \<notin> set topics \<longrightarrow> (t, p) \<notin> set (keys_of (cg_assignments g') k))"
proof -
  obtain br1 meta where run: "broker_join_group gid m topics br = join_entry gid m topics meta br1"
    "mem_broker h br1" "\<forall>t. map_of (joiner_counts topics meta) t =
      (if t \<in> set topics then Some (seen_count (inmem_count (bk_backend br) t) br) else None)"
    using broker_join_run [OF assms] by blast
  let ?mt = "AList.update m topics (cg_member_topics (group_entry gid br1))"
  obtain l g' where g': "join_entry gid m topics meta br1 =
      (Ok l, br1\<lparr>bk_groups := AList.update gid g' (bk_groups br1)\<rparr>)" "group_assignment m g' = Some l"
    "\<forall>k t p. (t, p) \<in> set (keys_of (cg_assignments g') k) \<longleftrightarrow>
       owner ?mt (joiner_counts topics meta) t p = Some k"
    using join_entry_spec [OF run(2) assms(2)] by blast
  have "\<exists>!k. (t, p) \<in> set (keys_of (cg_assignments g') k)"
    if "t \<in> set topics" "0 \<le> p" "p < seen_count (inmem_count (bk_backend br) t) br" for t p
    using owner_total [of "joiner_counts topics meta" t _ p ?mt m topics] that run(3) g'(3) by auto
  moreover have "(t, p) \<notin> set (keys_of (cg_assignments g') k)" if "t \<notin> set topics" for k t p
    using that run(3) g'(3) by (simp add: owner_def)
  ultimately show ?thesis using run(1) g'(1,2) by (intro exI [of _ l] exI [of _ g']) simp
qed

theorem join_group_spec_witness:
  "\<exists>l. fst (broker_join_group ''g'' ''m'' [''t''] demo_broker) = Ok l"
  using join_group_spec [OF demo_broker_mem hash_order_remdups, of "''g''" "''m''" "[''t'']"] by auto

end
