(* ===== verification/Base_Consumer.thy ===== *)
theory Base_Consumer
  imports Broker
begin

text \<open>
  \<open>src/base_consumer.rs\<close>, with the provided methods of the trait in \<open>src/consumer.rs\<close> and the
  rebalance events of \<open>src/context.rs\<close>: the polling consumer. It keeps its own list of assigned
  partitions, a position and a pause flag per partition, and the place where the next poll
  starts. The calls it makes of the application's \<open>ConsumerContext\<close> are recorded in order.

  A consumer is used by one thread at a time; the broker is shared. A poll fetches from one
  partition after another without a lock on the broker, so it is given the state of the broker
  at each of its fetches: \<open>brs i\<close> at the \<open>i\<close>-th.
\<close>

datatype rebalance_event = Assigned topic_partition_list | Revoked topic_partition_list

datatype context_call =
    RebalanceCall rebalance_event
  | CommitCallback "unit res" topic_partition_list

datatype commit_mode = CommitSync | CommitAsync

type_synonym partition_key = "string \<times> i32"

record rmq_consumer =
  cn_group_id :: "string option"
  cn_member_id :: string
  cn_context :: "context_call list"
  cn_subscribed :: "string list"
  cn_assigned :: topic_partition_list
  cn_position :: "(partition_key, i64) hashmap"
  cn_paused :: "partition_key list"
  cn_poll_start :: usize


section \<open>Construction\<close>

text \<open>The member id is made from the wall clock in nanoseconds and a process-wide counter.\<close>

definition member_id_of :: "nat option \<Rightarrow> 64 word \<Rightarrow> string" where
  "member_id_of nanos counter =
     ''consumer-'' @ show_nat (case nanos of Some n \<Rightarrow> n | None \<Rightarrow> 0) @ ''-'' @ show_nat (unat counter)"

definition fresh_consumer :: "string option \<Rightarrow> string \<Rightarrow> rmq_consumer" where
  "fresh_consumer gid member =
     \<lparr>cn_group_id = gid, cn_member_id = member, cn_context = [], cn_subscribed = [],
      cn_assigned = tpl_new, cn_position = [], cn_paused = [], cn_poll_start = 0\<rparr>"

text \<open>\<open>with_context\<close> once the registry has given it the broker of the configuration.\<close>

definition consumer_with_context :: "client_config \<Rightarrow> nat option \<Rightarrow> 64 word \<Rightarrow> rmq_consumer" where
  "consumer_with_context config nanos counter =
     fresh_consumer (config_get config GROUP_ID) (member_id_of nanos counter)"

text \<open>A clone shares the broker and the context object, but nothing of the state recorded here:
  not the subscription, and not the group either.\<close>

definition consumer_clone :: "nat option \<Rightarrow> 64 word \<Rightarrow> rmq_consumer \<Rightarrow> rmq_consumer" where
  "consumer_clone nanos counter c =
     fresh_consumer None (member_id_of nanos counter)"


section \<open>Polling\<close>

definition set_position :: "partition_key \<Rightarrow> i64 \<Rightarrow> rmq_consumer \<Rightarrow> rmq_consumer" where
  "set_position key off c = c\<lparr>cn_position := AList.update key off (cn_position c)\<rparr>"

text \<open>The loop \<open>for i in 0..elements_len\<close> of \<open>poll_once\<close>, at iteration \<open>i\<close> with \<open>n\<close> to go.\<close>

fun poll_scan ::
    "(nat \<Rightarrow> ('b, 'v) broker) \<Rightarrow> usize \<Rightarrow> usize \<Rightarrow> nat \<Rightarrow> nat \<Rightarrow> rmq_consumer
     \<Rightarrow> 'v borrowed_message res option \<times> rmq_consumer" where
  "poll_scan brs start len i 0 c = (None, c)"
| "poll_scan brs start len i (Suc n) c =
     (let idx = (start + i) mod len;
          elements = tpl_elements (cn_assigned c)
      in if length elements \<le> idx then poll_scan brs start len (Suc i) n c
         else
           (let elem = elements ! idx;
                key = (tpe_topic elem, tpe_partition elem)
            in if key \<in> set (cn_paused c) then poll_scan brs start len (Suc i) n c
               else
                 (case fetch_one_from_position (fst key) (snd key) (map_of (cn_position c) key)
                         (cn_group_id c) (brs i) of
                    Ok (Some m) \<Rightarrow>
                      (Some (Ok (borrowed_new m)),
                       (set_position key (wrap_i64 (msg_offset m + 1)) c)\<lparr>cn_poll_start := idx + 1\<rparr>)
                  | Ok None \<Rightarrow> poll_scan brs start len (Suc i) n c
                  | Err (OffsetOutOfRange _ _ off) \<Rightarrow>
                      poll_scan brs start len (Suc i) n (set_position key off c)
                  | Err (TopicNotFound _) \<Rightarrow> poll_scan brs start len (Suc i) n c
                  | Err (PartitionOutOfRange _ _) \<Rightarrow> poll_scan brs start len (Suc i) n c
                  | Err e \<Rightarrow> (Some (Err e), c)
                  | Panic x \<Rightarrow> (Some (Panic x), c))))"

definition poll_once ::
    "(nat \<Rightarrow> ('b, 'v) broker) \<Rightarrow> rmq_consumer
     \<Rightarrow> 'v borrowed_message res option \<times> rmq_consumer" where
  "poll_once brs c =
     (let len = length (tpl_elements (cn_assigned c));
          start = (if 0 < len then cn_poll_start c mod len else 0)
      in if len = 0 then (None, c) else poll_scan brs start len 0 len c)"

text \<open>
  \<open>poll\<close>: until a message or an error, or until the clock, read after each attempt, has reached
  the deadline. \<open>now k\<close> is the reading after attempt \<open>k\<close> and \<open>brs k\<close> the broker during it. The
  wait between attempts changes nothing and its answer is ignored; it lets time pass. The first
  argument bounds the attempts: \<open>None\<close> when they do not suffice.
\<close>

fun poll_loop ::
    "nat \<Rightarrow> (nat \<Rightarrow> nat \<Rightarrow> ('b, 'v) broker) \<Rightarrow> (nat \<Rightarrow> nat) \<Rightarrow> nat \<Rightarrow> nat \<Rightarrow> rmq_consumer
     \<Rightarrow> ('v borrowed_message res option \<times> rmq_consumer) option" where
  "poll_loop 0 brs now deadline k c = None"
| "poll_loop (Suc fuel) brs now deadline k c =
     (case poll_once (brs k) c of
        (Some r, c') \<Rightarrow> Some (Some r, c')
      | (None, c') \<Rightarrow>
          if deadline \<le> now k then Some (None, c')
          else poll_loop fuel brs now deadline (Suc k) c')"

definition poll ::
    "nat \<Rightarrow> (nat \<Rightarrow> nat \<Rightarrow> ('b, 'v) broker) \<Rightarrow> nat \<Rightarrow> (nat \<Rightarrow> nat) \<Rightarrow> nat \<Rightarrow> rmq_consumer
     \<Rightarrow> ('v borrowed_message res option \<times> rmq_consumer) option" where
  "poll fuel brs begun now timeout c = poll_loop fuel brs now (begun + timeout) 0 c"


text \<open>The iterator polls with a timeout of one second, in milliseconds; it never ends.\<close>

definition message_iter_next ::
    "nat \<Rightarrow> (nat \<Rightarrow> nat \<Rightarrow> ('b, 'v) broker) \<Rightarrow> nat \<Rightarrow> (nat \<Rightarrow> nat) \<Rightarrow> rmq_consumer
     \<Rightarrow> ('v borrowed_message res option \<times> rmq_consumer) option" where
  "message_iter_next fuel brs begun now c = poll fuel brs begun now 1000 c"


section \<open>Subscription and assignment\<close>

text \<open>Without a group, all partitions of the topics whose metadata can be had.\<close>

fun direct_assignment ::
    "string list \<Rightarrow> ('b, 'v) broker \<Rightarrow> topic_partition_list \<Rightarrow> topic_partition_list res" where
  "direct_assignment [] br tpl = Ok tpl"
| "direct_assignment (t # ts) br tpl =
     (case broker_metadata (Some t) br of
        Ok meta \<Rightarrow>
          direct_assignment ts br
            (fold (\<lambda>tm tpl. fold (\<lambda>pm tpl. tpl_add_partition (tmd_name tm) (pmd_id pm) tpl)
               (tmd_partitions tm) tpl) (md_topics meta) tpl)
      | Err _ \<Rightarrow> direct_assignment ts br tpl
      | Panic x \<Rightarrow> Panic x)"

definition call_context :: "context_call \<Rightarrow> rmq_consumer \<Rightarrow> rmq_consumer" where
  "call_context x c = c\<lparr>cn_context := cn_context c @ [x]\<rparr>"

definition subscribe ::
    "string list \<Rightarrow> rmq_consumer \<Rightarrow> ('b, 'v) broker \<Rightarrow> unit res \<times> rmq_consumer \<times> ('b, 'v) broker" where
  "subscribe topics c br =
     (let (r, br') = (case cn_group_id c of
             Some gid \<Rightarrow> broker_join_group gid (cn_member_id c) topics br
           | None \<Rightarrow> (direct_assignment topics br tpl_new, br))
      in case r of
           Ok assignment \<Rightarrow>
             (let c = call_context (RebalanceCall (Assigned assignment)) c
              in (Ok (), c\<lparr>cn_subscribed := topics, cn_assigned := assignment\<rparr>, br'))
         | Err e \<Rightarrow> (Err e, c, br')
         | Panic x \<Rightarrow> (Panic x, c, br'))"

definition unsubscribe ::
    "rmq_consumer \<Rightarrow> ('b, 'v) broker \<Rightarrow> unit res \<times> rmq_consumer \<times> ('b, 'v) broker" where
  "unsubscribe c br =
     (let old_assignment = cn_assigned c;
          (r, br') = (case cn_group_id c of
             Some gid \<Rightarrow> broker_leave_group gid (cn_member_id c) br
           | None \<Rightarrow> (Ok (), br))
      in case r of
           Ok _ \<Rightarrow>
             (let c = call_context (RebalanceCall (Revoked old_assignment)) c
              in (Ok (), c\<lparr>cn_subscribed := [], cn_assigned := tpl_new, cn_position := [],
                           cn_paused := []\<rparr>, br'))
         | Err e \<Rightarrow> (Err e, c, br')
         | Panic x \<Rightarrow> (Panic x, c, br'))"

definition subscription :: "rmq_consumer \<Rightarrow> topic_partition_list" where
  "subscription c = cn_assigned c"

definition consumer_assign :: "topic_partition_list \<Rightarrow> rmq_consumer \<Rightarrow> rmq_consumer" where
  "consumer_assign tpl c = c\<lparr>cn_assigned := tpl, cn_position := []\<rparr>"

definition consumer_assignment :: "rmq_consumer \<Rightarrow> topic_partition_list" where
  "consumer_assignment c = cn_assigned c"


section \<open>Offsets\<close>

definition seek_offset ::
    "string \<Rightarrow> i32 \<Rightarrow> offset \<Rightarrow> rmq_consumer \<Rightarrow> ('b, 'v) broker \<Rightarrow> i64 res" where
  "seek_offset topic p off c br =
     (case off of
        Beginning \<Rightarrow> res_map fst (broker_watermarks topic p br)
      | End \<Rightarrow> res_map (\<lambda>(_, newest). wrap_i64 (newest + 1)) (broker_watermarks topic p br)
      | Offset x \<Rightarrow> Ok x
      | Stored \<Rightarrow>
          (case cn_group_id c of
             Some gid \<Rightarrow>
               res_map (\<lambda>r. case r of Some x \<Rightarrow> x | None \<Rightarrow> 0) (broker_committed_offset gid topic p br)
           | None \<Rightarrow> Ok 0)
      | OffsetTail tail \<Rightarrow>
          res_map (\<lambda>(_, newest). max (wrap_i64 (wrap_i64 (newest + 1) - tail)) 0)
            (broker_watermarks topic p br))"

definition seek ::
    "string \<Rightarrow> i32 \<Rightarrow> offset \<Rightarrow> ('b, 'v) broker \<Rightarrow> rmq_consumer \<Rightarrow> unit res \<times> rmq_consumer" where
  "seek topic p off br c =
     (case seek_offset topic p off c br of
        Ok x \<Rightarrow> (Ok (), set_position (topic, p) x c)
      | Err e \<Rightarrow> (Err e, c)
      | Panic x \<Rightarrow> (Panic x, c))"

definition commit_elem ::
    "string \<Rightarrow> topic_partition_elem \<Rightarrow> ('b, 'v) broker \<Rightarrow> unit res \<times> ('b, 'v) broker" where
  "commit_elem gid e br =
     (case tpe_offset e of
        Offset x \<Rightarrow> broker_commit_offset gid (tpe_topic e) (tpe_partition e) x br
      | _ \<Rightarrow> (Ok (), br))"

definition commit ::
    "topic_partition_list \<Rightarrow> commit_mode \<Rightarrow> rmq_consumer \<Rightarrow> ('b, 'v) broker
     \<Rightarrow> unit res \<times> rmq_consumer \<times> ('b, 'v) broker" where
  "commit tpl mode c br =
     (let (r, br') = (case cn_group_id c of
             Some gid \<Rightarrow> st_for (commit_elem gid) (tpl_elements tpl) br
           | None \<Rightarrow> (Ok (), br))
      in case r of
           Ok _ \<Rightarrow> (Ok (), call_context (CommitCallback (Ok ()) tpl) c, br')
         | Err e \<Rightarrow> (Err e, c, br')
         | Panic x \<Rightarrow> (Panic x, c, br'))"

definition commit_message ::
    "'v borrowed_message \<Rightarrow> commit_mode \<Rightarrow> rmq_consumer \<Rightarrow> ('b, 'v) broker
     \<Rightarrow> unit res \<times> rmq_consumer \<times> ('b, 'v) broker" where
  "commit_message msg mode c br =
     (let m = bm_inner msg;
          tpl = tpl_add_partition_offset (msg_topic m) (msg_partition m)
                  (Offset (wrap_i64 (msg_offset m + 1))) tpl_new
      in commit tpl mode c br)"

definition store_offset :: "string \<Rightarrow> i32 \<Rightarrow> i64 \<Rightarrow> rmq_consumer \<Rightarrow> rmq_consumer" where
  "store_offset topic p off c = set_position (topic, p) off c"

fun committed_elems ::
    "string \<Rightarrow> topic_partition_elem list \<Rightarrow> ('b, 'v) broker \<Rightarrow> topic_partition_list
     \<Rightarrow> topic_partition_list res" where
  "committed_elems gid [] br tpl = Ok tpl"
| "committed_elems gid (e # es) br tpl =
     res_bind (broker_committed_offset gid (tpe_topic e) (tpe_partition e) br) (\<lambda>r.
       committed_elems gid es br
         (tpl_add_partition_offset (tpe_topic e) (tpe_partition e)
            (Offset (case r of Some x \<Rightarrow> x | None \<Rightarrow> -1)) tpl))"

definition committed ::
    "rmq_consumer \<Rightarrow> ('b, 'v) broker \<Rightarrow> topic_partition_list res" where
  "committed c br =
     (case cn_group_id c of
        Some gid \<Rightarrow> committed_elems gid (tpl_elements (cn_assigned c)) br tpl_new
      | None \<Rightarrow> Ok tpl_new)"

definition consumer_position :: "rmq_consumer \<Rightarrow> topic_partition_list" where
  "consumer_position c =
     fold (\<lambda>e tpl. tpl_add_partition_offset (tpe_topic e) (tpe_partition e)
         (Offset (case map_of (cn_position c) (tpe_topic e, tpe_partition e) of
                    Some x \<Rightarrow> x | None \<Rightarrow> -1)) tpl)
       (tpl_elements (cn_assigned c)) tpl_new"

definition pause :: "topic_partition_list \<Rightarrow> rmq_consumer \<Rightarrow> rmq_consumer" where
  "pause tpl c = c\<lparr>cn_paused := fold List.insert (tpl_keys tpl) (cn_paused c)\<rparr>"

definition resume :: "topic_partition_list \<Rightarrow> rmq_consumer \<Rightarrow> rmq_consumer" where
  "resume tpl c = c\<lparr>cn_paused := fold removeAll (tpl_keys tpl) (cn_paused c)\<rparr>"


section \<open>What a fetch by position can answer\<close>

text \<open>The message fetched is one the partition holds, at the position if there is one; an
  out-of-range answer moves the position to the low watermark, and comes only if the position
  is outside the partition's window.\<close>

fun adjusted :: "string \<Rightarrow> i32 \<Rightarrow> 'v partition \<Rightarrow> 'a res \<Rightarrow> 'a res" where
  "adjusted t i p (Err (OffsetOutOfRange _ _ _)) =
     Err (OffsetOutOfRange t i (if first_offset p = end_offset p then 0 else first_offset p))"
| "adjusted t i p r = r"

lemma adjusted_Ok [simp]:
  "adjusted t i p r = Ok x \<longleftrightarrow> r = Ok x" "Ok x = adjusted t i p r \<longleftrightarrow> r = Ok x"
  by (cases "(t, i, p, r)" rule: adjusted.cases; auto)+

lemma adjusted_out_of_range:
  "adjusted t i p r = Err (OffsetOutOfRange t' i' off) \<Longrightarrow>
     off = (if first_offset p = end_offset p then 0 else first_offset p) \<and>
     (\<exists>t i off. r = Err (OffsetOutOfRange t i off))"
  by (cases "(t, i, p, r)" rule: adjusted.cases) auto

lemma fetch_partition_shape:
  assumes mem: "mem_broker h br" and op: "\<not> bk_shutdown br"
    and p: "inmem_partition (bk_backend br) t i = Some p"
  shows "\<exists>off. (\<forall>x. pos = Some x \<longrightarrow> off = x) \<and>
    fetch_one_from_position t i pos gid br = adjusted t i p (read_one p off)"
proof -
  have bop: "\<not> im_shutdown (bk_backend br)" using mem op by (simp add: mem_brokerD(6))
  have "inmem_window (bk_backend br) t i = Some (first_offset p, end_offset p)"
    using p by (simp add: inmem_window_def)
  from mem.oldest_offset_ok [OF mem_brokerD(1,4) [OF mem] bop this]
  have old: "oldest_offset t i br =
    Ok (if first_offset p = end_offset p then 0 else first_offset p)" .
  then obtain off where st: "start_offset t i pos gid br = Ok off" "\<forall>x. pos = Some x \<longrightarrow> off = x"
    by (fastforce simp: start_offset_def group_committed_offset_def offset_committed_def
        split: option.splits)
  then have "fetch_one_from_position t i pos gid br = adjusted t i p (read_one p off)"
    using op old
    by (cases "(t, i, p, read_one p off)" rule: adjusted.cases)
      (simp_all add: fetch_one_from_position_def broker_check_shutdown_def mem_brokerD(1) [OF mem]
        inmem_read_partition(2) [OF bop p] split: option.splits)
  with st(2) show ?thesis by blast
qed

lemma fetch_missing:
  assumes mem: "mem_broker h br" and p: "inmem_partition (bk_backend br) t i = None"
  shows "\<exists>e. fetch_one_from_position t i pos gid br = Err e \<and>
    (\<forall>t' i' off. e \<noteq> OffsetOutOfRange t' i' off)"
proof (cases "bk_shutdown br")
  case True
  then show ?thesis by (simp add: broker_closed)
next
  case False
  then have bop: "\<not> im_shutdown (bk_backend br)" using mem by (simp add: mem_brokerD(6))
  note miss = inmem_read_missing [OF mem_brokerD(4) [OF mem] bop p]
  have old: "oldest_offset t i br = Err (if inmem_count (bk_backend br) t = None
      then TopicNotFound t else PartitionOutOfRange t i)"
    using miss(2) by (simp add: oldest_offset_def broker_watermarks_def mem_brokerD(1) [OF mem])
  have "start_offset t i pos gid br = oldest_offset t i br \<or> (\<exists>off. start_offset t i pos gid br = Ok off)"
    by (auto simp: start_offset_def split: option.splits res.splits)
  then show ?thesis
    using False miss(1) old
    by (auto simp: fetch_one_from_position_def broker_check_shutdown_def mem_brokerD(1) [OF mem])
qed

lemma fetch_message:
  assumes mem: "mem_broker h br" and "fetch_one_from_position t i pos gid br = Ok (Some m)"
  shows "\<exists>p. inmem_partition (bk_backend br) t i = Some p \<and>
    read_one p (msg_offset m) = Ok (Some m) \<and> first_offset p \<le> msg_offset m \<and> msg_offset m < end_offset p \<and> msg_topic m = t \<and>
    msg_partition m = i \<and> (\<forall>x. pos = Some x \<longrightarrow> msg_offset m = x)"
proof -
  have op: "\<not> bk_shutdown br" using assms(2) broker_closed(3) [of br t i pos gid] by auto
  obtain p where p: "inmem_partition (bk_backend br) t i = Some p"
    using fetch_missing [OF mem, of t i pos gid] assms(2) by (cases "inmem_partition (bk_backend br) t i") auto
  have reach: "partition_reachable t i (make_partition_config (bk_backend br)) p"
    using mem_brokerD(4) [OF mem] p by (rule inmem_partition_reachable)
  have wf: "wf_partition p" using reach by (rule partition_reachable_wf)
  obtain off where off: "\<forall>x. pos = Some x \<longrightarrow> off = x" "read_one p off = Ok (Some m)"
    using fetch_partition_shape [OF mem op p, of pos gid] assms(2) by auto
  have r: "first_offset p \<le> off" "off < end_offset p"
    using off(2) by (auto simp: read_one_wf [OF wf] split: if_splits)
  then have m: "m \<in> set (buf_log (buffer p))" "msg_offset m = off"
    using read_one_hit [OF wf r] off(2) by auto
  then show ?thesis
    using p r off wf_partition_message [OF wf m(1)] partition_reachable_config [OF reach] by auto
qed

lemma fetch_out_of_range:
  assumes mem: "mem_broker h br"
    and "fetch_one_from_position t i pos gid br = Err (OffsetOutOfRange t' i' off)"
  shows "\<exists>p. inmem_partition (bk_backend br) t i = Some p \<and>
    off = (if first_offset p = end_offset p then 0 else first_offset p) \<and>
    (\<forall>x. pos = Some x \<longrightarrow> x < first_offset p \<or> end_offset p < x)"
proof -
  have op: "\<not> bk_shutdown br" using assms(2) broker_closed(3) [of br t i pos gid] by auto
  obtain p where p: "inmem_partition (bk_backend br) t i = Some p"
    using fetch_missing [OF mem, of t i pos gid] assms(2)
    by (cases "inmem_partition (bk_backend br) t i") auto
  have wf: "wf_partition p" using mem_brokerD(4) [OF mem] p by (rule inmem_partition_wf)
  obtain at where at: "\<forall>x. pos = Some x \<longrightarrow> at = x"
    "fetch_one_from_position t i pos gid br = adjusted t i p (read_one p at)"
    using fetch_partition_shape [OF mem op p, of pos gid] by (elim exE conjE)
  have adj: "off = (if first_offset p = end_offset p then 0 else first_offset p)"
    "\<exists>t i off. read_one p at = Err (OffsetOutOfRange t i off)"
    using adjusted_out_of_range [OF trans [OF at(2) [symmetric] assms(2)]] by blast+
  moreover have "at < first_offset p \<or> end_offset p < at"
    using adj(2) by (auto simp: read_one_wf [OF wf] split: if_splits)
  ultimately show ?thesis using p at(1) by auto
qed


section \<open>Sessions: polling while the broker goes on\<close>

definition received :: "'v borrowed_message res option \<Rightarrow> 'v stored_message list" where
  "received r = (case r of Some (Ok b) \<Rightarrow> [bm_inner b] | _ \<Rightarrow> [])"

text \<open>
  A consumer polls, and between any two of its fetches the broker takes any steps. Other
  operations of the consumer are allowed as long as they leave its positions alone: pausing,
  resuming, subscribing, committing.
\<close>

inductive session ::
    "('v in_memory, 'v) broker \<Rightarrow> rmq_consumer \<Rightarrow> 'v stored_message list
     \<Rightarrow> ('v in_memory, 'v) broker \<Rightarrow> rmq_consumer \<Rightarrow> bool"
  for br0 :: "('v in_memory, 'v) broker" and c0 :: rmq_consumer where
  sess_begin: "session br0 c0 [] br0 c0"
| sess_broker: "session br0 c0 ms br c \<Longrightarrow> broker_step br br' \<Longrightarrow> session br0 c0 ms br' c"
| sess_consumer: "session br0 c0 ms br c \<Longrightarrow> cn_position c' = cn_position c \<Longrightarrow>
    session br0 c0 ms br c'"
| sess_poll: "session br0 c0 ms (brs 0) c \<Longrightarrow> (\<And>i. broker_step\<^sup>*\<^sup>* (brs i) (brs (Suc i))) \<Longrightarrow>
    poll_once brs c = (r, c') \<Longrightarrow>
    session br0 c0 (ms @ received r) (brs (length (tpl_elements (cn_assigned c)))) c'"

text \<open>
  What is known about one partition: \<open>since\<close> is where the consumer started in it. Every message
  received is the one the partition holds at its offset, unless evicted in the meantime.
\<close>

definition caught_up ::
    "i64 \<Rightarrow> 'v stored_message list \<Rightarrow> i64 \<Rightarrow> 'v partition \<Rightarrow> bool" where
  "caught_up since ms pos p \<longleftrightarrow>
     pos \<le> end_offset p \<and> (since \<le> pos \<or> since \<le> first_offset p) \<and>
     sorted_wrt (<) (map msg_offset ms) \<and>
     (\<forall>m \<in> set ms. since \<le> msg_offset m \<and>
        (msg_offset m < pos \<and> read_one p (msg_offset m) = Ok (Some m) \<or>
         msg_offset m < first_offset p)) \<and>
     (\<forall>off. since \<le> off \<longrightarrow> off < pos \<longrightarrow> off \<in> msg_offset ` set ms \<or> off < first_offset p)"

lemma caught_up_message:
  assumes "caught_up since ms (msg_offset m) p" and "read_one p (msg_offset m) = Ok (Some m)"
    and "first_offset p \<le> msg_offset m" and "msg_offset m < end_offset p"
  shows "caught_up since (ms @ [m]) (msg_offset m + 1) p"
proof -
  note c = assms(1) [unfolded caught_up_def]
  have "\<forall>m' \<in> set ms. msg_offset m' < msg_offset m" using c assms(3) by fastforce
  then have "sorted_wrt (<) (map msg_offset (ms @ [m]))"
    using c assms(3) by (simp add: sorted_wrt_append)
  moreover have "\<forall>m' \<in> set (ms @ [m]). since \<le> msg_offset m' \<and>
      (msg_offset m' < msg_offset m + 1 \<and> read_one p (msg_offset m') = Ok (Some m') \<or>
       msg_offset m' < first_offset p)"
    using c assms(2,3) by auto
  moreover have "off \<in> msg_offset ` set (ms @ [m]) \<or> off < first_offset p"
    if "since \<le> off" "off < msg_offset m + 1" for off
    using c that by (cases "off = msg_offset m") auto
  ultimately show ?thesis using assms(3,4) c by (auto simp: caught_up_def)
qed

lemma caught_up_restart:
  assumes "caught_up since ms pos p" and "wf_partition p" and "pos < first_offset p"
  shows "caught_up since ms (if first_offset p = end_offset p then 0 else first_offset p) p"
proof -
  have "0 \<le> first_offset p" "first_offset p \<le> end_offset p"
    using wf_partitionD [OF assms(2)] by simp_all
  then show ?thesis using assms by (fastforce simp: caught_up_def)
qed

lemma caught_up_step:
  assumes "caught_up since ms pos p" and "partition_step\<^sup>*\<^sup>* p p'" and "wf_partition p"
  shows "caught_up since ms pos p'"
proof -
  note c = assms(1) [unfolded caught_up_def]
  have w: "first_offset p \<le> first_offset p'" "end_offset p \<le> end_offset p'"
    using plog.run_low [OF assms(2,3)] plog.run_high [OF assms(2,3)] .
  have "since \<le> msg_offset m \<and> (msg_offset m < pos \<and> read_one p' (msg_offset m) = Ok (Some m) \<or>
      msg_offset m < first_offset p')" if m: "m \<in> set ms" for m
  proof (cases "msg_offset m < first_offset p'")
    case True
    then show ?thesis using c m by blast
  next
    case False
    then have "since \<le> msg_offset m" "msg_offset m < pos" "read_one p (msg_offset m) = Ok (Some m)"
      using c m w by fastforce+
    then show ?thesis
      using plog.run_fetch [OF assms(2,3), of "msg_offset m"] False c by simp
  qed
  moreover have "\<forall>off. since \<le> off \<longrightarrow> off < pos \<longrightarrow> off \<in> msg_offset ` set ms \<or> off < first_offset p'"
    using c w(1) by fastforce
  moreover have "since \<le> pos \<or> since \<le> first_offset p'" "pos \<le> end_offset p'"
    using c w by auto
  ultimately show ?thesis using c by (simp add: caught_up_def)
qed

definition of_partition :: "string \<Rightarrow> i32 \<Rightarrow> 'v stored_message list \<Rightarrow> 'v stored_message list" where
  "of_partition t i ms = filter (\<lambda>m. msg_topic m = t \<and> msg_partition m = i) ms"

definition tracked ::
    "string \<Rightarrow> i32 \<Rightarrow> i64 option \<Rightarrow> ('v in_memory, 'v) broker \<Rightarrow> rmq_consumer
     \<Rightarrow> 'v stored_message list \<Rightarrow> bool" where
  "tracked t i begun br c ms \<longleftrightarrow>
     (case map_of (cn_position c) (t, i) of
        None \<Rightarrow> begun = None \<and> of_partition t i ms = []
      | Some pos \<Rightarrow>
          (\<exists>p since. inmem_partition (bk_backend br) t i = Some p \<and>
             (\<forall>x. begun = Some x \<longrightarrow> since = x) \<and>
             caught_up since (of_partition t i ms) pos p))"

lemma tracked_broker:
  assumes "tracked t i begun br c ms" and "broker_step\<^sup>*\<^sup>* br br'" and "mem_broker h br"
    and "hash_order h"
  shows "tracked t i begun br' c ms"
proof (cases "map_of (cn_position c) (t, i)")
  case None
  then show ?thesis using assms(1) by (simp add: tracked_def)
next
  case (Some pos)
  then obtain p since where p: "inmem_partition (bk_backend br) t i = Some p"
    "\<forall>x. begun = Some x \<longrightarrow> since = x" "caught_up since (of_partition t i ms) pos p"
    using assms(1) by (auto simp: tracked_def)
  obtain p' where "inmem_partition (bk_backend br') t i = Some p'" "partition_step\<^sup>*\<^sup>* p p'"
    using broker_steps_evolve [OF assms(2-4)] p(1) unfolding evolves_def by blast
  moreover have "wf_partition p" using mem_brokerD(4) [OF assms(3)] p(1) by (rule inmem_partition_wf)
  ultimately have "inmem_partition (bk_backend br') t i = Some p'"
    "caught_up since (of_partition t i ms) pos p'"
    using caught_up_step [OF p(3)] by simp_all
  then show ?thesis using Some p(2) unfolding tracked_def by auto
qed

text \<open>It depends on the position of that partition and on the messages of that partition.\<close>

lemma tracked_cong:
  "tracked t i begun br c ms \<Longrightarrow>
   map_of (cn_position c') (t, i) = map_of (cn_position c) (t, i) \<Longrightarrow>
   of_partition t i ms' = of_partition t i ms \<Longrightarrow> tracked t i begun br c' ms'"
  unfolding tracked_def by (simp only:)

lemma set_position_position [simp]:
  "map_of (cn_position (set_position k off c)) x = (if x = k then Some off else map_of (cn_position c) x)"
  by (simp add: set_position_def)

text \<open>Delivering a message of a partition, and moving a position that has been overtaken by the low
  watermark, whatever operation found them.\<close>

lemma tracked_message:
  assumes tr: "tracked t i begun br c ms" and wf: "wf_partition p"
    and p: "inmem_partition (bk_backend br) t' i' = Some p"
      "read_one p (msg_offset m) = Ok (Some m)" "first_offset p \<le> msg_offset m"
      "msg_offset m < end_offset p" "msg_topic m = t'" "msg_partition m = i'"
      "\<forall>x. map_of (cn_position c) (t', i') = Some x \<longrightarrow> msg_offset m = x"
  shows "tracked t i begun br (set_position (t', i') (wrap_i64 (msg_offset m + 1)) c) (ms @ [m])"
proof (cases "(t, i) = (t', i')")
  case False
  then have "of_partition t i (ms @ [m]) = of_partition t i ms"
    using p(5,6) by (auto simp: of_partition_def)
  moreover have "map_of (cn_position (set_position (t', i') (wrap_i64 (msg_offset m + 1)) c)) (t, i) =
      map_of (cn_position c) (t, i)" using False by auto
  ultimately show ?thesis using tr by (blast intro: tracked_cong)
next
  case True
  have off: "wrap_i64 (msg_offset m + 1) = msg_offset m + 1"
    using wf_partitionD [OF wf] p(3,4) by (intro wrap_i64_id) (simp add: in_i64_def)
  have of: "of_partition t i (ms @ [m]) = of_partition t i ms @ [m]"
    using p(5,6) True by (simp add: of_partition_def)
  have "\<exists>since. (\<forall>x. begun = Some x \<longrightarrow> since = x) \<and>
      caught_up since (of_partition t i ms) (msg_offset m) p"
  proof (cases "map_of (cn_position c) (t, i)")
    case None
    then show ?thesis using tr p(3,4) by (auto simp: tracked_def caught_up_def)
  next
    case (Some x)
    then show ?thesis using tr p(1,7) True by (auto simp: tracked_def)
  qed
  then obtain since where "\<forall>x. begun = Some x \<longrightarrow> since = x"
    "caught_up since (of_partition t i ms @ [m]) (msg_offset m + 1) p"
    using caught_up_message [OF _ p(2-4)] by blast
  then have "\<exists>since. (\<forall>x. begun = Some x \<longrightarrow> since = x) \<and>
      caught_up since (of_partition t i (ms @ [m])) (msg_offset m + 1) p"
    unfolding of by blast
  then show ?thesis using p(1) True by (simp add: tracked_def off)
qed

lemma tracked_deliver:
  assumes tr: "tracked t i begun br c ms" and mem: "mem_broker h br"
    and f: "fetch_one_from_position t' i' (map_of (cn_position c) (t', i')) gid br = Ok (Some m)"
  shows "tracked t i begun br (set_position (t', i') (wrap_i64 (msg_offset m + 1)) c) (ms @ [m])"
  using fetch_message [OF mem f] tracked_message [OF tr inmem_partition_wf [OF mem_brokerD(4) [OF mem]]] by blast

lemma tracked_moved:
  assumes tr: "tracked t i begun br c ms" and wf: "wf_partition p"
    and p: "inmem_partition (bk_backend br) t' i' = Some p"
      "off = (if first_offset p = end_offset p then 0 else first_offset p)"
      "\<forall>x. map_of (cn_position c) (t', i') = Some x \<longrightarrow> x < first_offset p \<or> end_offset p < x"
  shows "tracked t i begun br (set_position (t', i') off c) ms"
proof (cases "(t, i) = (t', i')")
  case False
  then have "map_of (cn_position (set_position (t', i') off c)) (t, i) =
      map_of (cn_position c) (t, i)" by auto
  with tr show ?thesis by (blast intro: tracked_cong)
next
  case True
  have "\<exists>since. (\<forall>x. begun = Some x \<longrightarrow> since = x) \<and> caught_up since (of_partition t i ms) off p"
  proof (cases "map_of (cn_position c) (t, i)")
    case None
    then show ?thesis using tr wf_partitionD(1,2) [OF wf] by (auto simp: tracked_def caught_up_def p(2))
  next
    case (Some x)
    then obtain since where s: "\<forall>x. begun = Some x \<longrightarrow> since = x"
      "caught_up since (of_partition t i ms) x p"
      using tr p(1) True by (auto simp: tracked_def)
    then have "x < first_offset p" using p(3) Some True by (auto simp: caught_up_def)
    then show ?thesis using s caught_up_restart [OF s(2) wf] unfolding p(2) by blast
  qed
  then show ?thesis using p(1) True by (auto simp: tracked_def)
qed

lemma tracked_adjust:
  assumes tr: "tracked t i begun br c ms" and mem: "mem_broker h br"
    and f: "fetch_one_from_position t' i' (map_of (cn_position c) (t', i')) gid br =
      Err (OffsetOutOfRange t'' i'' off)"
  shows "tracked t i begun br (set_position (t', i') off c) ms"
  using fetch_out_of_range [OF mem f] tracked_moved [OF tr inmem_partition_wf [OF mem_brokerD(4) [OF mem]]] by blast

text \<open>What one fetch of a poll does to the consumer, whichever way it ends.\<close>

lemma received_simps [simp]:
  "received None = []" "received (Some (Ok b)) = [bm_inner b]"
  "received (Some (Err e)) = []" "received (Some (Panic x)) = []"
  by (simp_all add: received_def)

text \<open>The partition looked at in iteration \<open>k\<close>, and the fetch made for it.\<close>

definition scan_key :: "usize \<Rightarrow> usize \<Rightarrow> nat \<Rightarrow> rmq_consumer \<Rightarrow> partition_key" where
  "scan_key start len k c = tpl_keys (cn_assigned c) ! ((start + k) mod len)"

abbreviation fetch_at ::
    "('b, 'v) broker \<Rightarrow> rmq_consumer \<Rightarrow> partition_key \<Rightarrow> 'v stored_message option res" where
  "fetch_at br c key \<equiv>
     fetch_one_from_position (fst key) (snd key) (map_of (cn_position c) key) (cn_group_id c) br"

text \<open>The loop of \<open>poll_once\<close> over any way to fetch in an iteration, from a partition, a position and for
  a group: \<open>poll_scan\<close> is this loop with each fetch made at one moment.\<close>

type_synonym 'v fetch_fn =
  "nat \<Rightarrow> partition_key \<Rightarrow> i64 option \<Rightarrow> string option \<Rightarrow> 'v stored_message option res"

fun scan_with ::
    "'v fetch_fn \<Rightarrow> usize \<Rightarrow> usize \<Rightarrow> nat \<Rightarrow> nat \<Rightarrow> rmq_consumer \<Rightarrow> 'v borrowed_message res option \<times> rmq_consumer" where
  "scan_with fetch start len i 0 c = (None, c)"
| "scan_with fetch start len i (Suc n) c =
     (let idx = (start + i) mod len;
          elements = tpl_elements (cn_assigned c)
      in if length elements \<le> idx then scan_with fetch start len (Suc i) n c
         else
           (let elem = elements ! idx;
                key = (tpe_topic elem, tpe_partition elem)
            in if key \<in> set (cn_paused c) then scan_with fetch start len (Suc i) n c
               else
                 (case fetch i key (map_of (cn_position c) key) (cn_group_id c) of
                    Ok (Some m) \<Rightarrow>
                      (Some (Ok (borrowed_new m)),
                       (set_position key (wrap_i64 (msg_offset m + 1)) c)\<lparr>cn_poll_start := idx + 1\<rparr>)
                  | Ok None \<Rightarrow> scan_with fetch start len (Suc i) n c
                  | Err (OffsetOutOfRange _ _ off) \<Rightarrow>
                      scan_with fetch start len (Suc i) n (set_position key off c)
                  | Err (TopicNotFound _) \<Rightarrow> scan_with fetch start len (Suc i) n c
                  | Err (PartitionOutOfRange _ _) \<Rightarrow> scan_with fetch start len (Suc i) n c
                  | Err e \<Rightarrow> (Some (Err e), c)
                  | Panic x \<Rightarrow> (Some (Panic x), c))))"

definition fetch_whole :: "(nat \<Rightarrow> ('b, 'v) broker) \<Rightarrow> 'v fetch_fn" where
  "fetch_whole brs i key pos gid = fetch_one_from_position (fst key) (snd key) pos gid (brs i)"

lemma poll_scan_with: "poll_scan brs start len i n c = scan_with (fetch_whole brs) start len i n c"
proof (induction n arbitrary: i c)
  case (Suc n)
  show ?case unfolding poll_scan.simps scan_with.simps Suc fetch_whole_def ..
qed simp

lemma scan_with_Suc:
  assumes "scan_with fetch start len k (Suc n) c = (r, c')"
    and len: "len = length (tpl_elements (cn_assigned c))" "0 < len"
    and f: "f = fetch k (scan_key start len k c) (map_of (cn_position c) (scan_key start len k c)) (cn_group_id c)"
  obtains (next_elem) "scan_with fetch start len (Suc k) n c = (r, c')"
      "scan_key start len k c \<in> set (cn_paused c) \<or> f = Ok None \<or>
       (\<exists>t i. f \<in> {Err (TopicNotFound t), Err (PartitionOutOfRange t i)})"
  | (adjust) t i off where "scan_key start len k c \<notin> set (cn_paused c)" "f = Err (OffsetOutOfRange t i off)"
      "scan_with fetch start len (Suc k) n (set_position (scan_key start len k c) off c) = (r, c')"
  | (message) m where "scan_key start len k c \<notin> set (cn_paused c)" "f = Ok (Some m)"
      "r = Some (Ok (borrowed_new m))"
      "c' = (set_position (scan_key start len k c) (wrap_i64 (msg_offset m + 1)) c)
              \<lparr>cn_poll_start := (start + k) mod len + 1\<rparr>"
  | (failed) e where "f = Err e" "r = Some (Err e)" "c' = c"
      "\<forall>t. e \<noteq> TopicNotFound t" "\<forall>t i. e \<noteq> PartitionOutOfRange t i" "\<forall>t i off. e \<noteq> OffsetOutOfRange t i off"
  | (panicked) x where "f = Panic x" "r = Some (Panic x)" "c' = c"
proof -
  let ?els = "tpl_elements (cn_assigned c)" and ?idx = "(start + k) mod len"
  let ?key = "scan_key start len k c"
  have idx: "\<not> length ?els \<le> ?idx" using len by (simp add: not_le)
  then have key: "?key = (tpe_topic (?els ! ?idx), tpe_partition (?els ! ?idx))"
    by (simp add: scan_key_def tpl_keys_def)
  note scan = assms(1) [unfolded scan_with.simps Let_def if_not_P [OF idx], folded key, folded f]
  show thesis
  proof (cases "?key \<in> set (cn_paused c)")
    case True
    then show ?thesis using scan next_elem by simp
  next
    case False
    note scan = scan [unfolded if_not_P [OF False]]
    show ?thesis
    proof (cases f)
      case (Ok x)
      note scan = scan [unfolded Ok res.case]
      show ?thesis
      proof (cases x)
        case None
        then show ?thesis using scan Ok by (intro next_elem) simp_all
      next
        case (Some m)
        then show ?thesis using scan False Ok by (intro message [of m]) simp_all
      qed
    next
      case (Err e)
      note scan = scan [unfolded Err res.case]
      show ?thesis
      proof (cases "(\<exists>t. e = TopicNotFound t) \<or> (\<exists>t i. e = PartitionOutOfRange t i)")
        case True
        then show ?thesis using scan Err by (intro next_elem) auto
      next
        case plain: False
        show ?thesis
        proof (cases "\<exists>t i off. e = OffsetOutOfRange t i off")
          case True
          then show ?thesis using scan Err adjust [OF False] by auto
        next
          case False
          have "r = Some (Err e) \<and> c' = c"
            using scan plain False by (cases e) simp_all
          then show ?thesis using Err plain False by (intro failed [of e]) simp_all
        qed
      qed
    next
      case (Panic x)
      then show ?thesis using scan by (intro panicked [of x]) simp_all
    qed
  qed
qed

lemma poll_scan_Suc:
  fixes brs :: "nat \<Rightarrow> ('b, 'v) broker"
  assumes "poll_scan brs start len k (Suc n) c = (r, c')"
    and len: "len = length (tpl_elements (cn_assigned c))" "0 < len"
  obtains (next_elem) "poll_scan brs start len (Suc k) n c = (r, c')"
      "scan_key start len k c \<in> set (cn_paused c) \<or> fetch_at (brs k) c (scan_key start len k c) = Ok None \<or>
       (\<exists>t i. fetch_at (brs k) c (scan_key start len k c) \<in> {Err (TopicNotFound t), Err (PartitionOutOfRange t i)})"
  | (adjust) t i off where "scan_key start len k c \<notin> set (cn_paused c)"
      "fetch_at (brs k) c (scan_key start len k c) = Err (OffsetOutOfRange t i off)"
      "poll_scan brs start len (Suc k) n (set_position (scan_key start len k c) off c) = (r, c')"
  | (message) m where "scan_key start len k c \<notin> set (cn_paused c)"
      "fetch_at (brs k) c (scan_key start len k c) = Ok (Some m)"
      "r = Some (Ok (borrowed_new m))"
      "c' = (set_position (scan_key start len k c) (wrap_i64 (msg_offset m + 1)) c)
              \<lparr>cn_poll_start := (start + k) mod len + 1\<rparr>"
  | (failed) e where "fetch_at (brs k) c (scan_key start len k c) = Err e" "r = Some (Err e)" "c' = c"
      "\<forall>t. e \<noteq> TopicNotFound t" "\<forall>t i. e \<noteq> PartitionOutOfRange t i" "\<forall>t i off. e \<noteq> OffsetOutOfRange t i off"
  | (panicked) x where "fetch_at (brs k) c (scan_key start len k c) = Panic x" "r = Some (Panic x)" "c' = c"
proof (rule scan_with_Suc [OF assms(1) [unfolded poll_scan_with] len refl, folded poll_scan_with, unfolded fetch_whole_def],
    goal_cases)
  case 1
  then show ?case by (intro next_elem)
next
  case (2 t i off)
  then show ?case by (intro adjust)
next
  case (3 m)
  then show ?case by (intro message)
next
  case (4 e)
  then show ?case by (intro failed)
next
  case (5 x)
  then show ?case by (intro panicked)
qed

lemma set_position_sel [simp]:
  "cn_assigned (set_position k off c) = cn_assigned c" "cn_paused (set_position k off c) = cn_paused c"
  "cn_group_id (set_position k off c) = cn_group_id c"
  by (simp_all add: set_position_def)

text \<open>What the fetches and the pauses between them keep, the loop keeps; \<open>P k\<close> is what is known when
  iteration \<open>k\<close> begins.\<close>

lemma scan_with_inv:
  assumes "scan_with fetch start len k n c = (r, c')"
    and "len = length (tpl_elements (cn_assigned c))" "0 < len"
    and "P k c ms"
    and later: "\<And>k c ms. P k c ms \<Longrightarrow> P (Suc k) c ms"
    and moved: "\<And>k c ms key t i off. P k c ms \<Longrightarrow>
      fetch k key (map_of (cn_position c) key) (cn_group_id c) = Err (OffsetOutOfRange t i off) \<Longrightarrow>
      P (Suc k) (set_position key off c) ms"
    and delivered: "\<And>k c ms key m. P k c ms \<Longrightarrow>
      fetch k key (map_of (cn_position c) key) (cn_group_id c) = Ok (Some m) \<Longrightarrow>
      P (Suc k) (set_position key (wrap_i64 (msg_offset m + 1)) c) (ms @ [m])"
    and cong: "\<And>k c ms j. P k c ms \<Longrightarrow> P k (c\<lparr>cn_poll_start := j\<rparr>) ms"
  shows "P (k + n) c' (ms @ received r)"
  using assms(1-4)
proof (induction n arbitrary: k c)
  case 0
  then show ?case by simp
next
  case (Suc n)
  let ?key = "scan_key start len k c"
  have rest: "P (k' + d) c1 ms1" if "P k' c1 ms1" for k' d c1 ms1
    using that by (induction d) (simp_all add: later)
  from Suc.prems(1-3) refl show ?case
  proof (cases rule: scan_with_Suc)
    case next_elem
    then show ?thesis using Suc.IH [OF next_elem(1) Suc.prems(2,3) later [OF Suc.prems(4)]] by simp
  next
    case (adjust t' i' off)
    from Suc.IH [OF adjust(3) _ Suc.prems(3) moved [OF Suc.prems(4) adjust(2)]] Suc.prems(2)
    show ?thesis by simp
  next
    case (message m)
    from rest [OF cong [OF delivered [OF Suc.prems(4) message(2)]], of n] show ?thesis
      by (simp add: message(3,4) borrowed_new_def)
  next
    case failed
    then show ?thesis using rest [OF Suc.prems(4), of "Suc n"] by simp
  next
    case panicked
    then show ?thesis using rest [OF Suc.prems(4), of "Suc n"] by simp
  qed
qed

lemma tracked_scan:
  assumes "poll_scan brs start len k n c = (r, c')"
    and "len = length (tpl_elements (cn_assigned c))" "0 < len"
    and "tracked t i begun (brs k) c ms"
    and "\<And>j. broker_step\<^sup>*\<^sup>* (brs j) (brs (Suc j))" and "\<And>j. mem_broker h (brs j)"
    and "hash_order h"
  shows "tracked t i begun (brs (k + n)) c' (ms @ received r)"
proof (rule scan_with_inv [where P = "\<lambda>k. tracked t i begun (brs k)", OF assms(1) [unfolded poll_scan_with] assms(2-4)])
  have later: "tracked t i begun (brs (Suc k)) c ms" if "tracked t i begun (brs k) c ms" for k c ms
    using that assms(5-7) by (rule tracked_broker)
  then show "tracked t i begun (brs k) c ms \<Longrightarrow> tracked t i begun (brs (Suc k)) c ms" for k c ms .
  show "tracked t i begun (brs (Suc k)) (set_position key off c) ms"
    if "tracked t i begun (brs k) c ms"
      "fetch_whole brs k key (map_of (cn_position c) key) (cn_group_id c) = Err (OffsetOutOfRange t' i' off)"
    for k c ms key t' i' off
    using later tracked_adjust [OF that(1) assms(6), of "fst key" "snd key"] that(2) by (simp add: fetch_whole_def)
  show "tracked t i begun (brs (Suc k)) (set_position key (wrap_i64 (msg_offset m + 1)) c) (ms @ [m])"
    if "tracked t i begun (brs k) c ms"
      "fetch_whole brs k key (map_of (cn_position c) key) (cn_group_id c) = Ok (Some m)" for k c ms key m
    using later tracked_deliver [OF that(1) assms(6), of "fst key" "snd key"] that(2) by (simp add: fetch_whole_def)
  show "tracked t i begun (brs k) (c\<lparr>cn_poll_start := j\<rparr>) ms" if "tracked t i begun (brs k) c ms" for k c ms j
    using that by (rule tracked_cong) simp_all
qed

lemma tracked_poll_once:
  assumes "poll_once brs c = (r, c')" and "tracked t i begun (brs 0) c ms"
    and "\<And>j. broker_step\<^sup>*\<^sup>* (brs j) (brs (Suc j))" and "\<And>j. mem_broker h (brs j)"
    and "hash_order h"
  shows "tracked t i begun (brs (length (tpl_elements (cn_assigned c)))) c' (ms @ received r)"
proof (cases "length (tpl_elements (cn_assigned c)) = 0")
  case True
  then show ?thesis using assms(1,2) by (auto simp: poll_once_def)
next
  case False
  let ?len = "length (tpl_elements (cn_assigned c))"
  have "poll_scan brs (cn_poll_start c mod ?len) ?len 0 ?len c = (r, c')"
    using assms(1) False by (simp add: poll_once_def Let_def)
  from tracked_scan [where k = 0 and n = ?len, OF this refl _ assms(2-5)] False show ?thesis by simp
qed

lemma mem_broker_steps:
  "broker_step\<^sup>*\<^sup>* br br' \<Longrightarrow> mem_broker h br \<Longrightarrow> hash_order h \<Longrightarrow> mem_broker h br'"
  by (induction rule: rtranclp_induct) (auto intro: mem_broker_step)

lemma session_tracked:
  assumes "session br0 c0 ms br c" and "mem_broker h br0" and "hash_order h"
    and "tracked t i begun br0 c0 []"
  shows "mem_broker h br \<and> tracked t i begun br c ms"
  using assms
proof (induction rule: session.induct)
  case sess_begin
  then show ?case by simp
next
  case (sess_broker ms br c br')
  then have mt: "mem_broker h br" "tracked t i begun br c ms" by blast+
  have "broker_step\<^sup>*\<^sup>* br br'" using sess_broker.hyps(2) by blast
  then show ?case
    using mem_broker_steps tracked_broker mt sess_broker.prems(2) by blast
next
  case (sess_consumer ms br c c')
  then show ?case using tracked_cong [of t i begun br c ms c' ms] by simp
next
  case (sess_poll ms brs c r c')
  then have mt: "mem_broker h (brs 0)" "tracked t i begun (brs 0) c ms" by blast+
  have mem: "mem_broker h (brs j)" for j
  proof (induction j)
    case (Suc j)
    then show ?case using mem_broker_steps sess_poll.hyps(2) sess_poll.prems(2) by blast
  qed (use mt in simp)
  then show ?case
    using tracked_poll_once [OF sess_poll.hyps(3) mt(2) sess_poll.hyps(2) mem sess_poll.prems(2)]
    by blast
qed


section \<open>A message that is there is found\<close>

lemma fetch_open:
  assumes mem: "mem_broker h br" and op: "\<not> bk_shutdown br"
  shows "(\<exists>x. fetch_one_from_position t i pos gid br = Ok x) \<or>
    (\<exists>e. fetch_one_from_position t i pos gid br = Err e \<and>
       ((\<exists>t i off. e = OffsetOutOfRange t i off) \<or> (\<exists>t. e = TopicNotFound t) \<or>
        (\<exists>t i. e = PartitionOutOfRange t i)))"
proof (cases "inmem_partition (bk_backend br) t i")
  case (Some p)
  have wf: "wf_partition p" using mem_brokerD(4) [OF mem] Some by (rule inmem_partition_wf)
  obtain off where "fetch_one_from_position t i pos gid br = adjusted t i p (read_one p off)"
    using fetch_partition_shape [OF mem op Some, of pos gid] by blast
  then show ?thesis by (auto simp: read_one_wf [OF wf] out_of_range_def split: if_splits)
next
  case None
  have bop: "\<not> im_shutdown (bk_backend br)" using mem op by (simp add: mem_brokerD(6))
  note miss = inmem_read_missing [OF mem_brokerD(4) [OF mem] bop None]
  have old: "oldest_offset t i br = Err (if inmem_count (bk_backend br) t = None
      then TopicNotFound t else PartitionOutOfRange t i)"
    using miss(2) by (simp add: oldest_offset_def broker_watermarks_def mem_brokerD(1) [OF mem])
  have "start_offset t i pos gid br = oldest_offset t i br \<or> (\<exists>off. start_offset t i pos gid br = Ok off)"
    by (auto simp: start_offset_def split: option.splits res.splits)
  then show ?thesis
    using op miss(1) old
    by (auto simp: fetch_one_from_position_def broker_check_shutdown_def mem_brokerD(1) [OF mem])
qed

lemma scan_finds:
  assumes mem: "mem_broker h br" and op: "\<not> bk_shutdown br"
    and "poll_scan (\<lambda>_. br) start len k n c = (r, c')"
    and "len = length (tpl_elements (cn_assigned c))" "0 < len"
    and "k \<le> j" "j < k + n" "scan_key start len j c = key" "key \<notin> set (cn_paused c)"
    and "fetch_at br c key = Ok (Some m)"
  shows "\<exists>b. r = Some (Ok b) \<and> (msg_topic (bm_inner b), msg_partition (bm_inner b)) \<notin> set (cn_paused c)"
  using assms(3-)
proof (induction n arbitrary: k c)
  case 0
  then show ?case by simp
next
  case (Suc n)
  let ?key = "scan_key start len k c"
  have j: "j \<noteq> k \<Longrightarrow> Suc k \<le> j" "j < Suc k + n" using Suc.prems(4,5) by simp_all
  from Suc.prems(1-3) show ?case
  proof (cases rule: poll_scan_Suc)
    case next_elem
    then have "j \<noteq> k" using Suc.prems(6-8) by auto
    then show ?thesis using Suc.IH [OF next_elem(1) Suc.prems(2,3) j(1) j(2) Suc.prems(6-8)] by simp
  next
    case (adjust t' i' off)
    then have ne: "key \<noteq> ?key" using Suc.prems(8) by auto
    then have "j \<noteq> k" using Suc.prems(6) by auto
    then show ?thesis
      using Suc.IH [OF adjust(3) _ Suc.prems(3) j(1) j(2)] Suc.prems(2,6-8) ne
      by (simp add: scan_key_def)
  next
    case (message m)
    obtain t i where ti: "?key = (t, i)" by fastforce
    have "msg_topic m = t \<and> msg_partition m = i"
      using fetch_message [OF mem, of t i] message(2) unfolding ti by fastforce
    then show ?thesis using message(1,3) ti by (simp add: borrowed_new_def)
  next
    case (failed e)
    then show ?thesis
      using fetch_open [OF mem op, of "fst ?key" "snd ?key" "map_of (cn_position c) ?key" "cn_group_id c"]
      by auto
  next
    case (panicked x)
    then show ?thesis
      using fetch_open [OF mem op, of "fst ?key" "snd ?key" "map_of (cn_position c) ?key" "cn_group_id c"]
      by auto
  qed
qed

text \<open>Every element of the assignment is looked at: the scan wraps around.\<close>

lemma scan_covers:
  fixes len :: nat
  assumes "idx < len"
  shows "\<exists>j < len. (start + j) mod len = idx"
proof (intro exI conjI)
  let ?j = "(idx + (len - start mod len)) mod len"
  show "?j < len" using assms by simp
  have "(start + ?j) mod len = (start mod len + (idx + (len - start mod len))) mod len"
    by (simp add: mod_simps)
  also have "\<dots> = (idx + len) mod len"
    using less_imp_le [OF mod_less_divisor [of len start]] assms
    by (metis add.left_commute gr_implies_not0 le_add_diff_inverse not_gr_zero)
  finally show "(start + ?j) mod len = idx" using assms by simp
qed

text \<open>The attempts of \<open>poll\<close> end at the latest when the clock has reached the deadline. The
  attempts made are a chain of consumers \<open>cs\<close>, each attempt but the last without a result and
  before the deadline.\<close>

lemma poll_loop_returns:
  assumes "deadline \<le> now n" and "k \<le> n" and "n < k + fuel"
  shows "\<exists>r c' j cs. poll_loop fuel brs now deadline k c = Some (r, c') \<and> k \<le> j \<and> j \<le> n \<and>
    cs k = c \<and>
    (\<forall>i. k \<le> i \<longrightarrow> i < j \<longrightarrow> poll_once (brs i) (cs i) = (None, cs (Suc i)) \<and> now i < deadline) \<and>
    poll_once (brs j) (cs j) = (r, c') \<and> (r = None \<longrightarrow> deadline \<le> now j)"
  using assms(2,3)
proof (induction fuel arbitrary: k c)
  case 0
  then show ?case by simp
next
  case (Suc fuel)
  obtain r1 c1 where p: "poll_once (brs k) c = (r1, c1)" by fastforce
  show ?case
  proof (cases "r1 = None \<and> now k < deadline")
    case True
    then have "k \<noteq> n" using assms(1) by auto
    then have "Suc k \<le> n" "n < Suc k + fuel" using Suc.prems by simp_all
    from Suc.IH [OF this, of c1] obtain r c' j cs where ih:
      "poll_loop fuel brs now deadline (Suc k) c1 = Some (r, c')" "Suc k \<le> j" "j \<le> n"
      "cs (Suc k) = c1" "poll_once (brs j) (cs j) = (r, c')" "r = None \<longrightarrow> deadline \<le> now j"
      "\<And>i. Suc k \<le> i \<Longrightarrow> i < j \<Longrightarrow>
        poll_once (brs i) (cs i) = (None, cs (Suc i)) \<and> now i < deadline" by blast
    have run: "poll_loop (Suc fuel) brs now deadline k c = Some (r, c')" using ih(1) p True by simp
    have "poll_once (brs i) ((cs(k := c)) i) = (None, (cs(k := c)) (Suc i)) \<and> now i < deadline"
      if "k \<le> i" "i < j" for i
      using that ih(4) ih(7) [of i] p True by (cases "i = k") auto
    then show ?thesis
      using ih(2,3,5,6) run
      by (intro exI [of _ r] exI [of _ c'] exI [of _ j] exI [of _ "cs(k := c)"]) auto
  next
    case False
    then have "poll_loop (Suc fuel) brs now deadline k c = Some (r1, c1)"
      "r1 = None \<longrightarrow> deadline \<le> now k"
      using p by (cases r1; simp)+
    then show ?thesis
      using Suc.prems(1) p
      by (intro exI [of _ r1] exI [of _ c1] exI [of _ k] exI [of _ "\<lambda>_. c"]) simp
  qed
qed


lemma poll_once_finds:
  assumes "mem_broker h br" and "\<not> bk_shutdown br"
    and "(t, i) \<in> set (tpl_keys (cn_assigned c))" and "(t, i) \<notin> set (cn_paused c)"
    and "fetch_one_from_position t i (map_of (cn_position c) (t, i)) (cn_group_id c) br = Ok (Some m)"
  shows "\<exists>b. fst (poll_once (\<lambda>_. br) c) = Some (Ok b) \<and>
    (msg_topic (bm_inner b), msg_partition (bm_inner b)) \<notin> set (cn_paused c)"
proof -
  let ?len = "length (tpl_elements (cn_assigned c))"
  obtain idx where idx: "idx < ?len" "tpl_keys (cn_assigned c) ! idx = (t, i)"
    using assms(3) by (auto simp: in_set_conv_nth tpl_keys_def)
  obtain j where j: "j < ?len" "(cn_poll_start c mod ?len + j) mod ?len = idx"
    using scan_covers [OF idx(1)] by blast
  obtain r c' where scan: "poll_scan (\<lambda>_. br) (cn_poll_start c mod ?len) ?len 0 ?len c = (r, c')"
    by fastforce
  have "poll_once (\<lambda>_. br) c = (r, c')"
    using idx(1) scan by (auto simp: poll_once_def Let_def)
  moreover have "0 < ?len" using idx(1) by linarith
  ultimately show ?thesis
    using scan_finds [OF assms(1,2) scan refl, of j "(t, i)" m] j idx assms(4,5)
    by (simp add: scan_key_def)
qed


section \<open>Properties\<close>

definition demo_produced :: "(nat in_memory, nat) broker" where
  "demo_produced = demo_broker\<lparr>bk_backend :=
     snd (inmem_produce demo_clock ''t'' 1 None (Some [7]) None None demo_backend)\<rparr>"

definition demo_consumer :: rmq_consumer where
  "demo_consumer = (fresh_consumer None ''c'')
     \<lparr>cn_assigned := \<lparr>tpl_elements = [\<lparr>tpe_topic = ''u'', tpe_partition = 0, tpe_offset = Stored\<rparr>,
        \<lparr>tpe_topic = ''t'', tpe_partition = 1, tpe_offset = Stored\<rparr>]\<rparr>\<rparr>"

lemma demo_produced_mem: "mem_broker remdups demo_produced"
  unfolding demo_produced_def
  by (intro mem_broker_set_backend demo_broker_mem wf_inmem_produce)
     (auto simp: inmem_room_def demo_backend_partition end_offset_def partition_new_def
        backend_reachable_wf [OF demo_backend_reachable])

lemma demo_produced_partition:
  "\<exists>p. inmem_partition (bk_backend demo_produced) ''t'' 1 = Some p \<and>
     first_offset p = 0 \<and> end_offset p = 1"
  using inmem_produce_partition [OF demo_backend_open demo_backend_partition]
  by (simp add: demo_produced_def demo_defs)

lemma demo_produced_open [simp]: "\<not> bk_shutdown demo_produced"
  by (simp add: demo_produced_def)

lemma demo_fetch:
  "\<exists>m. fetch_one_from_position ''t'' 1 None None demo_produced = Ok (Some m)"
proof -
  obtain p where p: "inmem_partition (bk_backend demo_produced) ''t'' 1 = Some p"
    "first_offset p = 0" "end_offset p = 1"
    using demo_produced_partition by blast
  have "\<not> im_shutdown (bk_backend demo_produced)"
    using mem_brokerD(6) [OF demo_produced_mem] by simp
  from mem.oldest_offset_ok [OF mem_brokerD(1,4) [OF demo_produced_mem] this, of "''t''" 1 0 1]
    mem.fetch_one_from_position_spec [OF mem_brokerD(1,4) [OF demo_produced_mem] this
      demo_produced_open, of "''t''" 1 0 1 None None 0] p
  show ?thesis by (auto simp: inmem_window_def start_offset_def)
qed

text \<open>What being tracked from the start means for the messages received.\<close>

lemma tracked_delivery:
  assumes tr: "tracked t i (map_of (cn_position c0) (t, i)) br c ms" and got: "got = of_partition t i ms"
  shows "(case map_of (cn_position c) (t, i) of None \<Rightarrow> got = []
    | Some pos \<Rightarrow> \<exists>p. inmem_partition (bk_backend br) t i = Some p \<and> pos \<le> end_offset p \<and>
        sorted_wrt (<) (map msg_offset got) \<and>
        (\<forall>m \<in> set got. msg_offset m < first_offset p \<or>
           msg_offset m < pos \<and> read_one p (msg_offset m) = Ok (Some m)) \<and>
        (\<forall>from off. map_of (cn_position c0) (t, i) = Some from \<or> from \<in> msg_offset ` set got \<longrightarrow>
           from \<le> off \<longrightarrow> off < pos \<longrightarrow> off \<in> msg_offset ` set got \<or> off < first_offset p))"
proof (cases "map_of (cn_position c) (t, i)")
  case None
  then show ?thesis using tr got by (simp add: tracked_def)
next
  case (Some pos)
  then obtain p since where p: "inmem_partition (bk_backend br) t i = Some p"
    "\<forall>x. map_of (cn_position c0) (t, i) = Some x \<longrightarrow> since = x" "caught_up since got pos p"
    using tr got by (auto simp: tracked_def)
  note cu = p(3) [unfolded caught_up_def]
  have "off \<in> msg_offset ` set got \<or> off < first_offset p"
    if "map_of (cn_position c0) (t, i) = Some from \<or> from \<in> msg_offset ` set got"
      "from \<le> off" "off < pos" for "from" off
  proof -
    have "since \<le> from" using that(1) p(2) cu by fastforce
    then have "since \<le> off" using that(2) by simp
    then show ?thesis using that(3) cu by blast
  qed
  then show ?thesis using Some p(1) cu by auto
qed

text \<open>In-order delivery to a consumer. While a consumer polls, and produces, evictions, new
  topics, joins, leaves, commits and a shutdown happen in any order between its fetches, the
  messages it receives of a partition have strictly increasing offsets, so none comes twice;
  each is the message the partition holds at its offset or has been evicted since; and every
  offset from where the consumer was positioned, or from any message it received, up to its
  position now was received or has been evicted.\<close>

theorem consumer_delivery:
  assumes "mem_broker h br0" and "hash_order h" and "session br0 c0 ms br c"
    and "\<And>x. map_of (cn_position c0) (t, i) = Some x \<Longrightarrow>
      \<exists>p. inmem_partition (bk_backend br0) t i = Some p \<and> x \<le> end_offset p"
    and "got = of_partition t i ms"
  shows "(case map_of (cn_position c) (t, i) of None \<Rightarrow> got = []
    | Some pos \<Rightarrow> \<exists>p. inmem_partition (bk_backend br) t i = Some p \<and> pos \<le> end_offset p \<and>
        sorted_wrt (<) (map msg_offset got) \<and>
        (\<forall>m \<in> set got. msg_offset m < first_offset p \<or>
           msg_offset m < pos \<and> read_one p (msg_offset m) = Ok (Some m)) \<and>
        (\<forall>from off. map_of (cn_position c0) (t, i) = Some from \<or> from \<in> msg_offset ` set got \<longrightarrow>
           from \<le> off \<longrightarrow> off < pos \<longrightarrow> off \<in> msg_offset ` set got \<or> off < first_offset p))"
proof -
  have "tracked t i (map_of (cn_position c0) (t, i)) br0 c0 []"
    using assms(4) by (auto simp: tracked_def of_partition_def caught_up_def split: option.split)
  then have tr: "tracked t i (map_of (cn_position c0) (t, i)) br c ms"
    using session_tracked [OF assms(3,1,2)] by blast
  show ?thesis by (rule tracked_delivery [OF tr assms(5)])
qed

theorem consumer_delivery_witness:
  "\<exists>ms c. session demo_produced demo_consumer ms demo_produced c \<and>
     ms = received (fst (poll_once (\<lambda>_. demo_produced) demo_consumer)) \<and>
     sorted_wrt (<) (map msg_offset (of_partition ''t'' 1 ms))"
proof -
  obtain r c where p: "poll_once (\<lambda>_. demo_produced) demo_consumer = (r, c)" by fastforce
  have s: "session demo_produced demo_consumer (received r) demo_produced c"
    using sess_poll [OF sess_begin [of "(\<lambda>_. demo_produced) 0" demo_consumer] _ p] by simp
  have "sorted_wrt (<) (map msg_offset (of_partition ''t'' 1 (received r)))"
    using consumer_delivery [OF demo_produced_mem hash_order_remdups s, of "''t''" 1, OF _ refl]
    by (auto simp: demo_consumer_def fresh_consumer_def split: option.splits)
  then show ?thesis using s p by auto
qed

text \<open>A message that is there is found. When an open broker does not change during the poll
  and some assigned partition that is not paused has a message where the consumer would fetch,
  one round of polling returns a message, whatever the other partitions of the assignment are
  (empty, missing, out of range) and wherever the round starts; and the message is never one of
  a paused partition.\<close>

theorem poll_finds_message:
  assumes "mem_broker h br" and "\<not> bk_shutdown br"
    and "(t, i) \<in> set (tpl_keys (cn_assigned c))" and "(t, i) \<notin> set (cn_paused c)"
    and "fetch_one_from_position t i (map_of (cn_position c) (t, i)) (cn_group_id c) br = Ok (Some m)"
  shows "\<exists>b. fst (poll_once (\<lambda>_. br) c) = Some (Ok b) \<and>
    (msg_topic (bm_inner b), msg_partition (bm_inner b)) \<notin> set (cn_paused c)"
  using assms by (rule poll_once_finds)

theorem poll_finds_message_witness:
  "\<exists>b. fst (poll_once (\<lambda>_. demo_produced) demo_consumer) = Some (Ok b)"
proof -
  obtain m where m: "fetch_one_from_position ''t'' 1 None None demo_produced = Ok (Some m)"
    using demo_fetch by blast
  show ?thesis
    using poll_finds_message [OF demo_produced_mem demo_produced_open, of "''t''" 1 demo_consumer m] m
    by (auto simp: demo_consumer_def fresh_consumer_def tpl_keys_def)
qed

text \<open>C35: A poll returns, and it does not give up early. Once the clock has reached the deadline
  after attempt \<open>n\<close>, \<open>n + 1\<close> attempts are enough for a result. It makes attempts \<open>0\<close> to some
  \<open>j \<le> n\<close>, each with the consumer the one before left: all before the last found nothing, at a
  moment before the deadline, and the answer and the consumer are those of the last. So a poll
  comes back without a message or an error only when no attempt found any and the deadline had
  been reached after the last one.\<close>

theorem poll_returns:
  assumes "begun + timeout \<le> now n" and "n < fuel"
  shows "\<exists>r c' j cs. poll fuel brs begun now timeout c = Some (r, c') \<and> j \<le> n \<and> cs 0 = c \<and>
    (\<forall>i < j. poll_once (brs i) (cs i) = (None, cs (Suc i)) \<and> now i < begun + timeout) \<and>
    poll_once (brs j) (cs j) = (r, c') \<and> (r = None \<longrightarrow> begun + timeout \<le> now j)"
  using poll_loop_returns [of "begun + timeout" now n 0 fuel brs c] assms
  by (auto simp: poll_def)

theorem poll_returns_witness:
  "\<exists>r c'. poll 6 (\<lambda>_ _. demo_broker) 100 (\<lambda>k. 100 + 2 * k) 10 demo_consumer = Some (r, c')"
  using poll_returns [of 100 10 "\<lambda>k. 100 + 2 * k" 5 6 "\<lambda>_ _. demo_broker" demo_consumer] by fastforce

text \<open>Seeking on an open broker succeeds for an existing partition and moves the position of
  that partition only: to the oldest message for \<open>Beginning\<close> (0 when there is none), behind the
  newest for \<open>End\<close>, to the given offset for \<open>Offset\<close>, and \<open>n\<close> before the end, but not below 0,
  for \<open>OffsetTail n\<close>.\<close>

theorem seek_spec:
  assumes "mem_broker h br" and "\<not> bk_shutdown br"
    and "inmem_partition (bk_backend br) t i = Some p"
    and "target = (case off of
        Beginning \<Rightarrow> Some (if first_offset p = end_offset p then 0 else first_offset p)
      | End \<Rightarrow> Some (end_offset p)
      | Offset x \<Rightarrow> Some x
      | OffsetTail n \<Rightarrow> if in_i64 (end_offset p - n) then Some (max (end_offset p - n) 0) else None
      | Stored \<Rightarrow> if cn_group_id c = None then Some 0 else None)"
    and "target = Some x"
  shows "fst (seek t i off br c) = Ok () \<and>
    snd (seek t i off br c) = c\<lparr>cn_position := cn_position (snd (seek t i off br c))\<rparr> \<and>
    (\<forall>key. map_of (cn_position (snd (seek t i off br c))) key =
       (if key = (t, i) then Some x else map_of (cn_position c) key))"
proof -
  have bop: "\<not> im_shutdown (bk_backend br)" using assms(1,2) by (simp add: mem_brokerD(6))
  have wf: "wf_partition p"
    using inmem_partition_wf [OF mem_brokerD(4) [OF assms(1)] assms(3)] .
  have "inmem_window (bk_backend br) t i = Some (first_offset p, end_offset p)"
    using assms(3) by (simp add: inmem_window_def)
  from mem.watermarks_ok [OF mem_brokerD(4) [OF assms(1)] bop this]
  have wm: "broker_watermarks t i br =
      Ok (if first_offset p = end_offset p then 0 else first_offset p, end_offset p - 1)"
    by (simp add: broker_watermarks_def mem_brokerD(1) [OF assms(1)])
  have "in_i64 (end_offset p)" using wf_partitionD(1,2) [OF wf] wf_partitionD(3) [OF wf]
    by (simp add: in_i64_def)
  then have "seek_offset t i off c br = Ok x"
    using assms(4,5) wm by (cases off) (auto simp: seek_offset_def split: if_splits)
  then show ?thesis by (auto simp: seek_def set_position_def)
qed

theorem seek_spec_witness:
  "map_of (cn_position (snd (seek ''t'' 1 End demo_produced demo_consumer))) (''t'', 1) = Some 1"
proof -
  obtain p where p: "inmem_partition (bk_backend demo_produced) ''t'' 1 = Some p" "end_offset p = 1"
    using demo_produced_partition by blast
  show ?thesis
    using seek_spec [OF demo_produced_mem demo_produced_open p(1), where off = End and x = 1] p(2)
    by simp
qed

text \<open>C33: Committing a message of a group's consumer stores the offset after the message, tells the
  context, and leaves the positions alone. The two ways to resume differ: after
  \<open>seek\<close> to \<open>Stored\<close> the consumer continues with the next message, but a fetch without a
  position, as after a restart of the consumer, starts one later and skips a message.\<close>

theorem commit_message_resumes:
  assumes "mem_broker h br" and "\<not> bk_shutdown br" and "cn_group_id c = Some gid"
    and "map_of (bk_groups br) gid \<noteq> None" and "m = bm_inner b"
    and "0 \<le> msg_offset m" and "msg_offset m + 2 < 2 ^ 63"
    and "commit_message b mode c br = (r, c', br')"
  shows "r = Ok () \<and> cn_position c' = cn_position c \<and>
    (\<exists>tpl. cn_context c' = cn_context c @ [CommitCallback (Ok ()) tpl]) \<and>
    broker_committed_offset gid (msg_topic m) (msg_partition m) br' = Ok (Some (msg_offset m + 1)) \<and>
    seek_offset (msg_topic m) (msg_partition m) Stored c br' = Ok (msg_offset m + 1) \<and>
    start_offset (msg_topic m) (msg_partition m) None (Some gid) br' = Ok (msg_offset m + 2)"
proof -
  have i: "in_i64 (msg_offset m + 1)" "in_i64 (msg_offset m + 1 + 1)"
    using assms(6,7) by (simp_all add: in_i64_def)
  let ?commit = "broker_commit_offset gid (msg_topic m) (msg_partition m) (msg_offset m + 1) br"
  note known = commit_offset_known [OF assms(1,2) i(2) assms(4) refl,
      where topic = "msg_topic m" and i = "msg_partition m"]
  obtain br1 where c: "?commit = (Ok (), br1)" using known(1) by (cases ?commit) auto
  have "r = Ok () \<and> br' = br1 \<and> cn_position c' = cn_position c \<and>
      (\<exists>tpl. cn_context c' = cn_context c @ [CommitCallback (Ok ()) tpl])"
    using assms(3,5,8) c i(1)
    by (auto simp: commit_message_def commit_def commit_elem_def tpl_defs call_context_def Let_def
        st_bind_def st_return_def)
  then show ?thesis using known(2,3) c assms(3) by (simp add: seek_offset_def)
qed

definition demo_message :: "nat borrowed_message" where
  "demo_message = borrowed_new (stored_new None (Some [1]) ''t'' 1 4 7 None 0)"

theorem commit_message_resumes_witness:
  "start_offset ''t'' 1 None (Some ''g'')
     (snd (snd (commit_message demo_message CommitSync (fresh_consumer (Some ''g'') ''c'') demo_grouped))) = Ok 6"
  using commit_message_resumes [OF demo_grouped_mem, where m = "bm_inner demo_message" and gid = "''g''"
      and b = demo_message and c = "fresh_consumer (Some ''g'') ''c''" and mode = CommitSync]
  by (auto simp: demo_grouped_def demo_message_def borrowed_new_def stored_new_def fresh_consumer_def
      split_beta prod_eq_iff)

end
