(* ===== verification/Log_Service.thy ===== *)
theory Log_Service
  imports Base_Consumer
begin

text \<open>
  What the broker promises as a message store, without buffers, capacities and topics: for each
  partition the history of all messages ever appended, and the number of messages at its front
  that are gone. Messages are only added at the end, numbered by their place in the history, and
  only the oldest ones disappear. The broker on the in-memory backend refines this log service:
  every step of the broker is matched by steps of the service, and fetching by position answers
  as the service does. The history is a ghost of the specification; the broker keeps its tail.
\<close>

section \<open>The log service\<close>

record 'v log =
  lg_history :: "'v stored_message list"
  lg_low :: nat

type_synonym 'v log_service = "partition_key \<Rightarrow> 'v log option"

definition wf_log :: "'v log \<Rightarrow> bool" where
  "wf_log l \<longleftrightarrow> lg_low l \<le> length (lg_history l)"

inductive log_step :: "'v log \<Rightarrow> 'v log \<Rightarrow> bool" where
  log_append: "msg_offset m = int (length (lg_history l)) \<Longrightarrow>
    log_step l (l\<lparr>lg_history := lg_history l @ [m]\<rparr>)"
| log_evict: "lg_low l \<le> n \<Longrightarrow> n \<le> length (lg_history l) \<Longrightarrow> log_step l (l\<lparr>lg_low := n\<rparr>)"

inductive service_step :: "'v log_service \<Rightarrow> 'v log_service \<Rightarrow> bool" where
  service_create: "s k = None \<Longrightarrow> service_step s (s(k \<mapsto> \<lparr>lg_history = [], lg_low = 0\<rparr>))"
| service_log: "s k = Some l \<Longrightarrow> log_step l l' \<Longrightarrow> service_step s (s(k \<mapsto> l'))"

abbreviation service_reachable :: "'v log_service \<Rightarrow> bool" where
  "service_reachable s \<equiv> service_step\<^sup>*\<^sup>* (\<lambda>_. None) s"

text \<open>A read at an offset: the message, nothing yet, or out of range with the offset to go to.\<close>

definition log_read :: "partition_key \<Rightarrow> 'v log \<Rightarrow> i64 \<Rightarrow> 'v stored_message option res" where
  "log_read k l off =
     (let low = int (lg_low l); end = int (length (lg_history l))
      in if low \<le> off \<and> off < end then Ok (Some (lg_history l ! nat off))
         else if off = end \<or> (off = 0 \<and> low = end) then Ok None
         else Err (OffsetOutOfRange (fst k) (snd k) (if low = end then 0 else low)))"

lemma log_steps_mono:
  "log_step\<^sup>*\<^sup>* l l' \<Longrightarrow> \<exists>ms. lg_history l' = lg_history l @ ms \<and> lg_low l \<le> lg_low l'"
proof (induction rule: rtranclp_induct)
  case (step y z)
  from step.hyps(2) step.IH show ?case by (cases rule: log_step.cases) auto
qed simp

lemma service_history:
  "service_step\<^sup>*\<^sup>* s s' \<Longrightarrow> s k = Some l \<Longrightarrow>
   \<exists>l' ms. s' k = Some l' \<and> lg_history l' = lg_history l @ ms"
proof (induction rule: rtranclp_induct)
  case base
  then show ?case by simp
next
  case (step y z)
  then obtain l1 ms where l1: "y k = Some l1" "lg_history l1 = lg_history l @ ms" by blast
  from step.hyps(2) show ?case
  proof (cases rule: service_step.cases)
    case (service_create k')
    then show ?thesis using l1 by auto
  next
    case (service_log k' l0 l')
    then have "\<exists>ns. lg_history l' = lg_history l0 @ ns" using log_steps_mono [of l0 l'] by blast
    then show ?thesis using l1 service_log by (cases "k' = k") auto
  qed
qed

text \<open>In a reachable service every message is numbered by its place in the history.\<close>

definition wf_service :: "'v log_service \<Rightarrow> bool" where
  "wf_service s \<longleftrightarrow> (\<forall>k l. s k = Some l \<longrightarrow> wf_log l \<and>
     (\<forall>j < length (lg_history l). msg_offset (lg_history l ! j) = int j))"

lemma service_step_wf:
  assumes "service_step s s'" and "wf_service s"
  shows "wf_service s'"
  using assms
proof (cases rule: service_step.cases)
  case (service_create k)
  then show ?thesis using assms(2) by (auto simp: wf_service_def wf_log_def)
next
  case (service_log k l l')
  have l: "lg_low l \<le> length (lg_history l)"
    "\<forall>j < length (lg_history l). msg_offset (lg_history l ! j) = int j"
    using assms(2) service_log(2) by (cases k, auto simp: wf_service_def wf_log_def)+
  have "wf_log l' \<and> (\<forall>j < length (lg_history l'). msg_offset (lg_history l' ! j) = int j)"
    using service_log(3)
  proof (cases rule: log_step.cases)
    case (log_append m)
    then show ?thesis
      using l by (auto simp: wf_log_def nth_append less_Suc_eq)
  next
    case (log_evict n)
    then show ?thesis using l by (simp add: wf_log_def)
  qed
  then show ?thesis using assms(2) service_log(1) by (auto simp: wf_service_def)
qed

lemma service_reachable_wf: "service_reachable s \<Longrightarrow> wf_service s"
proof (induction rule: rtranclp_induct)
  case base
  then show ?case by (simp add: wf_service_def)
next
  case (step s s')
  then show ?case using service_step_wf by blast
qed


section \<open>The simulation\<close>

definition log_rel :: "'v log \<Rightarrow> 'v partition \<Rightarrow> bool" where
  "log_rel l p \<longleftrightarrow> first_offset p = int (lg_low l) \<and> end_offset p = int (length (lg_history l)) \<and>
     buf_log (buffer p) = drop (lg_low l) (lg_history l)"

definition service_rel :: "'v log_service \<Rightarrow> 'v in_memory \<Rightarrow> bool" where
  "service_rel s b \<longleftrightarrow> (\<forall>t i. rel_option log_rel (s (t, i)) (inmem_partition b t i))"

lemma log_rel_new: "log_rel \<lparr>lg_history = [], lg_low = 0\<rparr> (partition_new t i c)"
  by (simp add: log_rel_def partition_new_def first_offset_def end_offset_def)

text \<open>A step of a partition is an append followed by an eviction, or just an eviction.\<close>

lemma log_rel_step:
  assumes "partition_step p q" and "wf_partition p" and "log_rel l p"
  shows "\<exists>l'. log_step\<^sup>*\<^sup>* l l' \<and> log_rel l' q"
proof -
  obtain n ms where n: "buf_log (buffer q) = drop n (buf_log (buffer p) @ ms)"
    "n \<le> length (buf_log (buffer p) @ ms)" "end_offset q = end_offset p + int (length ms)"
    "length ms \<le> 1" "\<forall>m \<in> set ms. msg_offset m = end_offset p"
    using partition_step_log [OF assms(1,2)] by blast
  note rel = assms(3) [unfolded log_rel_def]
  have wfq: "wf_partition q" using assms(1,2) by (rule wf_partition_step)
  have low: "lg_low l \<le> length (lg_history l)" using wf_partitionD(2) [OF assms(2)] rel by simp
  define l1 where "l1 = l\<lparr>lg_history := lg_history l @ ms\<rparr>"
  have one: "log_step\<^sup>*\<^sup>* l l1"
  proof (cases ms)
    case Nil
    then show ?thesis by (simp add: l1_def)
  next
    case (Cons m ms')
    then have "ms = [m]" using n(4) by simp
    then have "log_step l l1" using log_append [of m l] n(5) rel by (simp add: l1_def)
    then show ?thesis by blast
  qed
  let ?l' = "l1\<lparr>lg_low := lg_low l + n\<rparr>"
  have len: "n + lg_low l \<le> length (lg_history l1)" using n(2) rel low by (simp add: l1_def)
  have "log_step l1 ?l'" using len by (intro log_evict) (simp_all add: l1_def)
  moreover have "log_rel ?l' q"
  proof -
    have log: "buf_log (buffer q) = drop (lg_low l + n) (lg_history l1)"
      using n(1) rel low by (simp add: l1_def add.commute)
    have ends: "end_offset q = int (length (lg_history l1))" using n(3) rel by (simp add: l1_def)
    have "first_offset q = int (lg_low l + n)"
      using wf_partitionD(4) [OF wfq] log ends len by simp
    then show ?thesis using log ends by (simp add: log_rel_def)
  qed
  ultimately show ?thesis using one by (meson rtranclp.rtrancl_into_rtrancl)
qed

lemma log_rel_steps:
  assumes "partition_step\<^sup>*\<^sup>* p q" and "wf_partition p" and "log_rel l p"
  shows "\<exists>l'. log_step\<^sup>*\<^sup>* l l' \<and> log_rel l' q"
  using assms
proof (induction rule: rtranclp_induct)
  case base
  then show ?case by blast
next
  case (step q q')
  then obtain l1 where l1: "log_step\<^sup>*\<^sup>* l l1" "log_rel l1 q" by blast
  have "wf_partition q" using plog.run_inv [OF step.hyps(1) step.prems(1)] .
  from log_rel_step [OF step.hyps(2) this l1(2)] l1(1) show ?case by (meson rtranclp_trans)
qed

text \<open>Steps of finitely many partitions, each on its own, are steps of the service.\<close>

definition log_grown :: "'v log option \<Rightarrow> 'v log option \<Rightarrow> bool" where
  "log_grown x y \<longleftrightarrow> x = y \<or>
     (\<exists>l l'. y = Some l' \<and> log_step\<^sup>*\<^sup>* l l' \<and>
        (x = Some l \<or> x = None \<and> l = \<lparr>lg_history = [], lg_low = 0\<rparr>))"

lemma service_log_steps:
  "log_step\<^sup>*\<^sup>* l l' \<Longrightarrow> service_step\<^sup>*\<^sup>* (s(k \<mapsto> l)) (s(k \<mapsto> l'))"
proof (induction rule: rtranclp_induct)
  case (step y z)
  have "service_step (s(k \<mapsto> y)) ((s(k \<mapsto> y))(k \<mapsto> z))"
    by (rule service_log [OF _ step.hyps(2)]) simp
  then have "service_step (s(k \<mapsto> y)) (s(k \<mapsto> z))" by (simp only: fun_upd_upd)
  with step.IH show ?case by (meson rtranclp.rtrancl_into_rtrancl)
qed simp

lemma service_grown_one:
  assumes "log_grown (s k) y"
  shows "service_step\<^sup>*\<^sup>* s (s(k := y))"
proof (cases "s k = y")
  case True
  then show ?thesis by (metis fun_upd_triv rtranclp.rtrancl_refl)
next
  case False
  then obtain l l' where l: "y = Some l'" "log_step\<^sup>*\<^sup>* l l'"
    "s k = Some l \<or> s k = None \<and> l = \<lparr>lg_history = [], lg_low = 0\<rparr>"
    using assms by (auto simp: log_grown_def)
  have "service_step\<^sup>*\<^sup>* s (s(k \<mapsto> l))"
    using l(3)
  proof
    assume "s k = Some l"
    then show ?thesis by (metis fun_upd_triv rtranclp.rtrancl_refl)
  next
    assume "s k = None \<and> l = \<lparr>lg_history = [], lg_low = 0\<rparr>"
    then show ?thesis using service_create [of s k] by auto
  qed
  then show ?thesis using service_log_steps [OF l(2), of s k] l(1) by (meson rtranclp_trans)
qed

lemma service_grown:
  assumes "finite K" and "\<And>k. k \<in> K \<Longrightarrow> log_grown (s k) (s' k)" and "\<And>k. k \<notin> K \<Longrightarrow> s' k = s k"
  shows "service_step\<^sup>*\<^sup>* s s'"
  using assms
proof (induction arbitrary: s' rule: finite_induct)
  case empty
  then have "s' = s" by auto
  then show ?case by simp
next
  case (insert k K)
  let ?s = "s'(k := s k)"
  have "service_step\<^sup>*\<^sup>* s ?s"
  proof (rule insert.IH)
    fix x
    assume "x \<in> K"
    moreover have "x \<noteq> k" using \<open>x \<in> K\<close> insert.hyps(2) by blast
    ultimately show "log_grown (s x) (?s x)" using insert.prems(1) [of x] by simp
  qed (use insert.prems(2) in auto)
  moreover have "service_step\<^sup>*\<^sup>* ?s (?s(k := s' k))"
    using insert.prems(1) by (intro service_grown_one) simp
  then have "service_step\<^sup>*\<^sup>* ?s s'" by simp
  ultimately show ?case by (rule rtranclp_trans)
qed

lemma partitions_finite:
  assumes "wf_backend b"
  shows "finite {k. inmem_partition b (fst k) (snd k) \<noteq> None}"
proof (rule finite_subset)
  let ?D = "dom (map_of (im_topics b))"
  show "{k. inmem_partition b (fst k) (snd k) \<noteq> None} \<subseteq>
      (SIGMA t : ?D. {0..<the (inmem_count b t)})"
  proof
    fix k
    assume "k \<in> {k. inmem_partition b (fst k) (snd k) \<noteq> None}"
    then obtain t i p where k: "k = (t, i)" and p: "inmem_partition b t i = Some p" by (cases k) auto
    then have "map_of (im_topics b) t \<noteq> None" by (auto simp: inmem_partition_Some)
    moreover obtain n where "inmem_count b t = Some n" "0 \<le> i" "i < n"
      using p inmem_partition_count [OF assms, of t i] by auto
    ultimately show "k \<in> (SIGMA t : ?D. {0..<the (inmem_count b t)})" using k by auto
  qed
  show "finite (SIGMA t : ?D. {0..<the (inmem_count b t)})"
    by (intro finite_SigmaI finite_dom_map_of) simp
qed

text \<open>The simulation step: whatever a backend does to its partitions in a run of partition steps,
  the service can do.\<close>

lemma service_simulates:
  assumes rel: "service_rel s b" and ev: "evolves b b'" and wf: "wf_backend b" "wf_backend b'"
  shows "\<exists>s'. service_step\<^sup>*\<^sup>* s s' \<and> service_rel s' b'"
proof -
  have "\<exists>y. log_grown (s (t, i)) y \<and> rel_option log_rel y (inmem_partition b' t i)" for t i
  proof (cases "inmem_partition b t i")
    case None
    then have none: "s (t, i) = None" using rel unfolding service_rel_def by (metis option.rel_distinct(2) option.exhaust)
    show ?thesis
    proof (cases "inmem_partition b' t i")
      case None
      then show ?thesis using none by (intro exI [of _ None]) (simp add: log_grown_def)
    next
      case (Some p')
      have "partition_reachable t i (make_partition_config b') p'"
        using wf(2) Some by (rule inmem_partition_reachable)
      then have "\<exists>l'. log_step\<^sup>*\<^sup>* \<lparr>lg_history = [], lg_low = 0\<rparr> l' \<and> log_rel l' p'"
      proof (induction rule: partition_reachable.induct)
        case reach_new
        then show ?case using log_rel_new by blast
      next
        case (reach_step p q)
        then obtain l1 where l1: "log_step\<^sup>*\<^sup>* \<lparr>lg_history = [], lg_low = 0\<rparr> l1" "log_rel l1 p" by blast
        from log_rel_step [OF reach_step.hyps(2) partition_reachable_wf [OF reach_step.hyps(1)] l1(2)]
        show ?case using l1(1) by (meson rtranclp_trans)
      qed
      then obtain l' where l': "log_step\<^sup>*\<^sup>* \<lparr>lg_history = [], lg_low = 0\<rparr> l'" "log_rel l' p'" by blast
      then have "log_grown (s (t, i)) (Some l')" using none unfolding log_grown_def by blast
      then show ?thesis using Some l'(2) by (intro exI [of _ "Some l'"]) simp
    qed
  next
    case (Some p)
    then obtain l where l: "s (t, i) = Some l" "log_rel l p"
      using rel unfolding service_rel_def by (metis option_rel_Some2)
    obtain p' where p': "inmem_partition b' t i = Some p'" "partition_step\<^sup>*\<^sup>* p p'"
      using ev Some unfolding evolves_def by blast
    obtain l' where "log_step\<^sup>*\<^sup>* l l'" "log_rel l' p'"
      using log_rel_steps [OF p'(2) inmem_partition_wf [OF wf(1) Some] l(2)] by blast
    then have "log_grown (s (t, i)) (Some l')" using l(1) unfolding log_grown_def by blast
    then show ?thesis using \<open>log_rel l' p'\<close> p'(1) by (intro exI [of _ "Some l'"]) simp
  qed
  then obtain f where f: "log_grown (s (t, i)) (f t i)"
    "rel_option log_rel (f t i) (inmem_partition b' t i)" for t i
    by metis
  let ?s = "\<lambda>k. f (fst k) (snd k)"
  have "service_step\<^sup>*\<^sup>* s ?s"
  proof (rule service_grown [OF partitions_finite [OF wf(2)]])
    show "?s k = s k" if "k \<notin> {k. inmem_partition b' (fst k) (snd k) \<noteq> None}" for k
    proof -
      have "?s k = None" using that f(2) [of "fst k" "snd k"] by simp
      then show ?thesis using f(1) [of "fst k" "snd k"] by (simp add: log_grown_def)
    qed
    show "log_grown (s k') (?s k')" for k' using f(1) [of "fst k'" "snd k'"] by simp
  qed
  then show ?thesis using f(2) by (auto simp: service_rel_def)
qed

lemma service_rel_read:
  assumes mem: "mem_broker h br" and op: "\<not> bk_shutdown br" and rel: "service_rel s (bk_backend br)"
    and l: "s (t, i) = Some l"
  shows "fetch_one_from_position t i (Some off) gid br = log_read (t, i) l off"
proof -
  obtain p where p: "inmem_partition (bk_backend br) t i = Some p" "log_rel l p"
    using rel l unfolding service_rel_def by (metis option_rel_Some1)
  have wf: "wf_partition p" using mem_brokerD(4) [OF mem] p(1) by (rule inmem_partition_wf)
  have low: "lg_low l \<le> length (lg_history l)"
    using wf_partitionD(2) [OF wf] p(2) by (simp add: log_rel_def)
  have "fetch_one_from_position t i (Some off) gid br = adjusted t i p (read_one p off)"
    using fetch_partition_shape [OF mem op p(1), of "Some off" gid] by simp
  moreover have "buf_log (buffer p) ! nat (off - first_offset p) = lg_history l ! nat off"
    if "first_offset p \<le> off" "off < end_offset p"
  proof -
    have "lg_low l + nat (off - int (lg_low l)) = nat off" using that(1) p(2) by (simp add: log_rel_def)
    then show ?thesis using p(2) low by (simp add: log_rel_def nth_drop)
  qed
  ultimately show ?thesis
    using p(2) by (auto simp: log_read_def Let_def read_one_wf [OF wf] log_rel_def out_of_range_def)
qed

lemma broker_step_simulates:
  assumes "broker_step br br'" and "mem_broker h br" and "hash_order h"
    and "service_rel s (bk_backend br)"
  shows "\<exists>s'. service_step\<^sup>*\<^sup>* s s' \<and> service_rel s' (bk_backend br')"
  using service_simulates [OF assms(4) broker_step_evolves [OF assms(1,2)] mem_brokerD(4) [OF assms(2)]
      mem_brokerD(4) [OF mem_broker_step [OF assms(1-3)]]] .

lemma broker_steps_simulate:
  assumes "broker_step\<^sup>*\<^sup>* br br'" and "mem_broker h br" and "hash_order h"
    and "service_rel s (bk_backend br)"
  shows "\<exists>s'. service_step\<^sup>*\<^sup>* s s' \<and> service_rel s' (bk_backend br')"
  using assms
proof (induction rule: rtranclp_induct)
  case base
  then show ?case by blast
next
  case (step y z)
  then obtain s1 where s1: "service_step\<^sup>*\<^sup>* s s1" "service_rel s1 (bk_backend y)" by blast
  have "mem_broker h y" using mem_broker_steps [OF step.hyps(1) step.prems(1,2)] .
  from broker_step_simulates [OF step.hyps(2) this step.prems(2) s1(2)] s1(1)
  show ?case by (meson rtranclp_trans)
qed

lemma service_rel_empty: "im_topics b = [] \<Longrightarrow> service_rel (\<lambda>_. None) b"
  by (simp add: service_rel_def inmem_partition_def)

lemma broker_reachable_related:
  "broker_reachable h br \<Longrightarrow> hash_order h \<Longrightarrow> \<exists>s. service_reachable s \<and> service_rel s (bk_backend br)"
proof (induction rule: broker_reachable.induct)
  case (kreach_new config br)
  then have "im_topics (bk_backend br) = []"
    by (auto simp: broker_new_def inmem_new_def)
  then show ?case using service_rel_empty by blast
next
  case (kreach_partitioner config pt br)
  then have "im_topics (bk_backend br) = []"
    by (auto simp: broker_with_partitioner_def inmem_new_def)
  then show ?case using service_rel_empty by blast
next
  case (kreach_step br br')
  then obtain s where s: "service_reachable s" "service_rel s (bk_backend br)" by blast
  from broker_step_simulates [OF kreach_step.hyps(2) broker_reachable_mem [OF kreach_step.hyps(1)
        kreach_step.prems] kreach_step.prems s(2)] s(1)
  show ?case by (meson rtranclp_trans)
qed


section \<open>Properties\<close>

text \<open>C4: The broker refines the log service, forward simulation. Whatever sequence of operations
  takes a broker on the in-memory backend from one state to another, the log service can follow
  by creating empty logs, appending numbered messages at the ends of logs and evicting from
  their fronts; the states stay related: each partition holds exactly what its log has not
  evicted, and its window is the log's.\<close>

theorem broker_refines_log_service:
  assumes "mem_broker h br" and "hash_order h" and "service_rel s (bk_backend br)"
    and "broker_step\<^sup>*\<^sup>* br br'"
  shows "\<exists>s'. service_step\<^sup>*\<^sup>* s s' \<and>
    (\<forall>t i. case inmem_partition (bk_backend br') t i of
       None \<Rightarrow> s' (t, i) = None
     | Some p \<Rightarrow> \<exists>l. s' (t, i) = Some l \<and> first_offset p = int (lg_low l) \<and>
         end_offset p = int (length (lg_history l)) \<and>
         buf_log (buffer p) = drop (lg_low l) (lg_history l)) \<and>
    (\<forall>k l. s k = Some l \<longrightarrow> (\<exists>l' ms. s' k = Some l' \<and> lg_history l' = lg_history l @ ms))"
proof -
  obtain s' where s': "service_step\<^sup>*\<^sup>* s s'" "service_rel s' (bk_backend br')"
    using broker_steps_simulate [OF assms(4,1,2,3)] by blast
  have "case inmem_partition (bk_backend br') t i of
       None \<Rightarrow> s' (t, i) = None
     | Some p \<Rightarrow> \<exists>l. s' (t, i) = Some l \<and> first_offset p = int (lg_low l) \<and>
         end_offset p = int (length (lg_history l)) \<and>
         buf_log (buffer p) = drop (lg_low l) (lg_history l)" for t i
    using s'(2) [unfolded service_rel_def, rule_format, of t i]
    by (cases "inmem_partition (bk_backend br') t i"; cases "s' (t, i)") (auto simp: log_rel_def)
  moreover have "\<exists>l' ms. s' k = Some l' \<and> lg_history l' = lg_history l @ ms" if "s k = Some l" for k l
    using s'(1) that service_history by blast
  ultimately show ?thesis using s'(1) by blast
qed

theorem broker_refines_log_service_witness:
  "\<exists>s' l. service_step\<^sup>*\<^sup>* (\<lambda>_. None) s' \<and> s' (''t'', 1) = Some l \<and> lg_history l = ([] :: nat stored_message list)"
proof -
  let ?br = "snd (broker_ensure_topic ''t'' 2 demo_broker)"
  have steps: "broker_step\<^sup>*\<^sup>* demo_broker ?br" using kstep_ensure by blast
  have p: "inmem_partition (bk_backend ?br) ''t'' 1 = Some (partition_new ''t'' 1 (demo_config 10))"
    using demo_backend_partition
    by (simp add: broker_ensure_topic_def on_backend_def split_beta demo_backend_def
        mem_brokerD(1) [OF demo_broker_mem])
  have rel: "service_rel (\<lambda>_. None) (bk_backend demo_broker)"
    by (rule service_rel_empty) (simp add: inmem_new_def)
  from broker_refines_log_service [OF demo_broker_mem hash_order_remdups this steps] obtain s' where
    s': "service_step\<^sup>*\<^sup>* (\<lambda>_. None) s'"
    "\<forall>t i. case inmem_partition (bk_backend ?br) t i of
       None \<Rightarrow> s' (t, i) = None
     | Some p \<Rightarrow> \<exists>l. s' (t, i) = Some l \<and> first_offset p = int (lg_low l) \<and>
         end_offset p = int (length (lg_history l)) \<and>
         buf_log (buffer p) = drop (lg_low l) (lg_history l)" by blast
  show ?thesis
    using s'(2) [rule_format, of "''t''" 1] s'(1) p
    by (auto simp: end_offset_def partition_new_def)
qed

text \<open>C6: Reading from the broker is reading from the log service. Every reachable broker is
  related to a reachable state of the service, in which messages are numbered by their place in
  the history of their partition; and a fetch at a position of an open broker gives exactly the
  answer of the log: the message of that number, nothing at the end, or out of range with the
  place to go on from.\<close>

theorem fetch_reads_the_log:
  assumes "broker_reachable h br" and "hash_order h"
  shows "\<exists>s. service_reachable s \<and> wf_service s \<and>
    (\<forall>t i off gid. \<not> bk_shutdown br \<longrightarrow>
       (case s (t, i) of
          Some l \<Rightarrow> fetch_one_from_position t i (Some off) gid br = log_read (t, i) l off
        | None \<Rightarrow> inmem_partition (bk_backend br) t i = None \<and>
            (\<exists>e. fetch_one_from_position t i (Some off) gid br = Err e)))"
proof -
  obtain s where s: "service_reachable s" "service_rel s (bk_backend br)"
    using broker_reachable_related [OF assms] by blast
  have mem: "mem_broker h br" using assms by (rule broker_reachable_mem)
  have "case s (t, i) of
          Some l \<Rightarrow> fetch_one_from_position t i (Some off) gid br = log_read (t, i) l off
        | None \<Rightarrow> inmem_partition (bk_backend br) t i = None \<and>
            (\<exists>e. fetch_one_from_position t i (Some off) gid br = Err e)"
    if op: "\<not> bk_shutdown br" for t i off gid
  proof (cases "s (t, i)")
    case None
    then have "inmem_partition (bk_backend br) t i = None"
      using s(2) unfolding service_rel_def by (metis option.rel_distinct(1) option.exhaust)
    then show ?thesis using None fetch_missing [OF mem, of t i "Some off" gid] by auto
  next
    case (Some l)
    then show ?thesis using service_rel_read [OF mem op s(2) Some] by simp
  qed
  then show ?thesis using s(1) service_reachable_wf [OF s(1)] by blast
qed

theorem fetch_reads_the_log_witness:
  "\<exists>s :: nat log_service. service_reachable s \<and> s (''t'', 0) = None"
proof -
  obtain s :: "nat log_service" where s: "service_reachable s"
    "\<forall>t i off gid. \<not> bk_shutdown demo_broker \<longrightarrow>
       (case s (t, i) of
          Some l \<Rightarrow> fetch_one_from_position t i (Some off) gid demo_broker = log_read (t, i) l off
        | None \<Rightarrow> inmem_partition (bk_backend demo_broker) t i = None \<and>
            (\<exists>e. fetch_one_from_position t i (Some off) gid demo_broker = Err e))"
    using fetch_reads_the_log [OF demo_broker_reachable hash_order_remdups] by blast
  have "s (''t'', 0) = None"
  proof (rule ccontr)
    assume "s (''t'', 0) \<noteq> None"
    then obtain l where l: "s (''t'', 0) = Some l" by blast
    let ?f = "fetch_one_from_position ''t'' 0 (Some (int (length (lg_history l)))) None demo_broker"
    have "?f = log_read (''t'', 0) l (int (length (lg_history l)))"
      using s(2) [rule_format, of "''t''" 0] l demo_broker_sel(1) by fastforce
    then have "?f = Ok None" by (simp add: log_read_def Let_def)
    then show False
      using fetch_missing [OF demo_broker_mem, of "''t''" 0 "Some (int (length (lg_history l)))" None]
      by simp
  qed
  then show ?thesis using s(1) by blast
qed

end
