(* ===== verification/Rmq_Record.thy ===== *)
theory Rmq_Record
  imports Headers
begin

text \<open>
  \<open>src/record.rs\<close>: the traits \<open>ToBytes\<close> and \<open>FromBytes\<close> with their implementations, and the builder
  \<open>BaseRecord\<close>. Elsewhere strings are only compared and hashed; here their bytes matter, so a
  \<open>String\<close> is the list of its Unicode scalar values and \<open>as_bytes\<close> and \<open>from_utf8\<close> are UTF-8
  encoding and decoding as the standard library defines them: shortest form only, no
  surrogates, nothing above \<open>0x10FFFF\<close>.
\<close>

type_synonym unicode = "nat list"

definition scalar_value :: "nat \<Rightarrow> bool" where
  "scalar_value c \<longleftrightarrow> c < 0xD800 \<or> 0xE000 \<le> c \<and> c < 0x110000"

definition valid_unicode :: "unicode \<Rightarrow> bool" where
  "valid_unicode s \<longleftrightarrow> list_all scalar_value s"


section \<open>UTF-8\<close>

definition byte :: "nat \<Rightarrow> 8 word" where
  "byte n = word_of_nat n"

definition utf8_char :: "nat \<Rightarrow> bytes" where
  "utf8_char c =
     (if c < 0x80 then [byte c]
      else if c < 0x800 then [byte (0xC0 + c div 64), byte (0x80 + c mod 64)]
      else if c < 0x10000 then
        [byte (0xE0 + c div 4096), byte (0x80 + c div 64 mod 64), byte (0x80 + c mod 64)]
      else
        [byte (0xF0 + c div 262144), byte (0x80 + c div 4096 mod 64),
         byte (0x80 + c div 64 mod 64), byte (0x80 + c mod 64)])"

definition continuation :: "8 word \<Rightarrow> bool" where
  "continuation b \<longleftrightarrow> 0x80 \<le> unat b \<and> unat b < 0xC0"

definition tail_bits :: "8 word \<Rightarrow> nat" where
  "tail_bits b = unat b - 0x80"

text \<open>The first character of a byte sequence, and the rest.\<close>

fun utf8_next :: "bytes \<Rightarrow> (nat \<times> bytes) option" where
  "utf8_next [] = None"
| "utf8_next (b # bs) =
     (let n = unat b
      in if n < 0x80 then Some (n, bs)
         else if n < 0xC0 then None
         else if n < 0xE0 then
           (case bs of
              b1 # rest \<Rightarrow>
                (let c = (n - 0xC0) * 64 + tail_bits b1
                 in if continuation b1 \<and> 0x80 \<le> c then Some (c, rest) else None)
            | _ \<Rightarrow> None)
         else if n < 0xF0 then
           (case bs of
              b1 # b2 # rest \<Rightarrow>
                (let c = (n - 0xE0) * 4096 + tail_bits b1 * 64 + tail_bits b2
                 in if continuation b1 \<and> continuation b2 \<and> 0x800 \<le> c \<and> scalar_value c
                    then Some (c, rest) else None)
            | _ \<Rightarrow> None)
         else if n < 0xF8 then
           (case bs of
              b1 # b2 # b3 # rest \<Rightarrow>
                (let c = (n - 0xF0) * 262144 + tail_bits b1 * 4096 + tail_bits b2 * 64 + tail_bits b3
                 in if continuation b1 \<and> continuation b2 \<and> continuation b3 \<and> 0x10000 \<le> c
                       \<and> scalar_value c
                    then Some (c, rest) else None)
            | _ \<Rightarrow> None)
         else None)"

lemma utf8_next_shorter: "utf8_next bs = Some (c, rest) \<Longrightarrow> length rest < length bs"
  by (cases bs rule: utf8_next.cases)
     (auto simp: Let_def split: if_splits list.splits)

function utf8_decode :: "bytes \<Rightarrow> unicode option" where
  "utf8_decode bs =
     (if bs = [] then Some []
      else case utf8_next bs of
             None \<Rightarrow> None
           | Some (c, rest) \<Rightarrow> map_option (Cons c) (utf8_decode rest))"
  by pat_completeness auto
termination by (relation "measure length") (auto intro: utf8_next_shorter)

declare utf8_decode.simps [simp del]


section \<open>Conversions\<close>

definition string_to_bytes :: "unicode \<Rightarrow> bytes" where
  "string_to_bytes s = concat (map utf8_char s)"

definition string_from_bytes :: "bytes \<Rightarrow> unicode option" where
  "string_from_bytes data = utf8_decode data"

definition bytes_to_bytes :: "bytes \<Rightarrow> bytes" where
  "bytes_to_bytes b = b"

definition vec_from_bytes :: "bytes \<Rightarrow> bytes option" where
  "vec_from_bytes data = Some data"

definition unit_to_bytes :: "unit \<Rightarrow> bytes" where
  "unit_to_bytes u = []"

definition unit_from_bytes :: "bytes \<Rightarrow> unit option" where
  "unit_from_bytes data = Some ()"

text \<open>An array \<open>[u8; N]\<close> is a list of length \<open>N\<close>; the macro implements \<open>ToBytes\<close> for \<open>N\<close> up to 32.\<close>

definition array_from_bytes :: "usize \<Rightarrow> bytes \<Rightarrow> bytes option" where
  "array_from_bytes N data = (if length data = N then Some data else None)"

definition array_to_bytes :: "bytes \<Rightarrow> bytes" where
  "array_to_bytes arr = arr"

text \<open>JSON goes through \<open>serde_json\<close>, whose two functions are arguments.\<close>

datatype 'a serde_json = SerdeJson 'a

definition to_json_bytes :: "('a \<Rightarrow> bytes option) \<Rightarrow> 'a \<Rightarrow> bytes" where
  "to_json_bytes to_vec val = (case to_vec val of Some b \<Rightarrow> b | None \<Rightarrow> [])"

definition from_json_bytes :: "(bytes \<Rightarrow> 'a option) \<Rightarrow> bytes \<Rightarrow> 'a option" where
  "from_json_bytes from_slice data = from_slice data"

definition serde_json_from_bytes :: "(bytes \<Rightarrow> 'a option) \<Rightarrow> bytes \<Rightarrow> 'a serde_json option" where
  "serde_json_from_bytes from_slice data = map_option SerdeJson (from_slice data)"


section \<open>The record builder\<close>

text \<open>The key and payload are of any types with a \<open>ToBytes\<close>; a \<open>FutureRecord\<close> is the same type.\<close>

record ('k, 'p) base_record =
  br_topic :: string
  br_partition :: "i32 option"
  br_payload :: "'p option"
  br_key :: "'k option"
  br_timestamp :: "i64 option"
  br_headers :: "owned_headers option"

definition record_to :: "string \<Rightarrow> ('k, 'p) base_record" where
  "record_to topic =
     \<lparr>br_topic = topic, br_partition = None, br_payload = None, br_key = None,
      br_timestamp = None, br_headers = None\<rparr>"

definition record_partition :: "i32 \<Rightarrow> ('k, 'p) base_record \<Rightarrow> ('k, 'p) base_record" where
  "record_partition p r = r\<lparr>br_partition := Some p\<rparr>"

definition record_payload :: "'p \<Rightarrow> ('k, 'p) base_record \<Rightarrow> ('k, 'p) base_record" where
  "record_payload p r = r\<lparr>br_payload := Some p\<rparr>"

definition record_key :: "'k \<Rightarrow> ('k, 'p) base_record \<Rightarrow> ('k, 'p) base_record" where
  "record_key k r = r\<lparr>br_key := Some k\<rparr>"

definition record_timestamp :: "i64 \<Rightarrow> ('k, 'p) base_record \<Rightarrow> ('k, 'p) base_record" where
  "record_timestamp ts r = r\<lparr>br_timestamp := Some ts\<rparr>"

definition record_headers :: "owned_headers \<Rightarrow> ('k, 'p) base_record \<Rightarrow> ('k, 'p) base_record" where
  "record_headers h r = r\<lparr>br_headers := Some h\<rparr>"

lemmas record_defs = record_to_def record_partition_def record_payload_def record_key_def
  record_timestamp_def record_headers_def


section \<open>UTF-8 is a bijection between valid strings and valid byte sequences\<close>

lemma unat_byte [simp]: "n < 256 \<Longrightarrow> unat (byte n) = n"
  by (simp add: byte_def unat_of_nat)

lemma continuation_byte [simp]: "n < 64 \<Longrightarrow> continuation (byte (0x80 + n)) \<and> tail_bits (byte (0x80 + n)) = n"
  by (simp add: continuation_def tail_bits_def)

lemma byte_unat [simp]: "byte (unat b) = b"
  by (simp add: byte_def)

lemma continuation_bits:
  assumes "continuation b"
  shows "tail_bits b < 64" and "byte (0x80 + tail_bits b) = b"
  using assms by (auto simp: continuation_def tail_bits_def)

text \<open>A number is put together from its digits in base 64, and taken apart.\<close>

lemma base64_digits:
  fixes c :: nat
  shows "c div 64 * 64 + c mod 64 = c"
    and "c div 4096 * 4096 + c div 64 mod 64 * 64 + c mod 64 = c"
    and "c div 262144 * 262144 + c div 4096 mod 64 * 4096 + c div 64 mod 64 * 64 + c mod 64 = c"
proof -
  have d: "c div 4096 = c div 64 div 64" "c div 262144 = c div 64 div 64 div 64"
    by (simp_all add: div_mult2_eq [symmetric])
  show a: "c div 64 * 64 + c mod 64 = c" by simp
  have b: "c div 64 div 64 * 64 + c div 64 mod 64 = c div 64" by simp
  have e: "c div 64 div 64 div 64 * 64 + c div 64 div 64 mod 64 = c div 64 div 64" by simp
  show "c div 4096 * 4096 + c div 64 mod 64 * 64 + c mod 64 = c"
    using a b unfolding d by linarith
  show "c div 262144 * 262144 + c div 4096 mod 64 * 4096 + c div 64 mod 64 * 64 + c mod 64 = c"
    using a b e unfolding d by linarith
qed

lemma base64_parts:
  fixes x y z w :: nat
  assumes "y < 64" and "z < 64" and "w < 64"
  shows "(x * 64 + y) div 64 = x" and "(x * 64 + y) mod 64 = y"
    and "(x * 4096 + y * 64 + z) div 4096 = x" and "(x * 4096 + y * 64 + z) div 64 mod 64 = y"
    and "(x * 4096 + y * 64 + z) mod 64 = z"
    and "(x * 262144 + y * 4096 + z * 64 + w) div 262144 = x"
    and "(x * 262144 + y * 4096 + z * 64 + w) div 4096 mod 64 = y"
    and "(x * 262144 + y * 4096 + z * 64 + w) div 64 mod 64 = z"
    and "(x * 262144 + y * 4096 + z * 64 + w) mod 64 = w"
proof -
  have p: "(a * 64 + b) div 64 = a" "(a * 64 + b) mod 64 = b" if "b < 64" for a b :: nat
    using that by simp_all
  have d: "n div 4096 = n div 64 div 64" "n div 262144 = n div 64 div 64 div 64" for n :: nat
    by (simp_all add: div_mult2_eq [symmetric])
  have e: "x * 4096 + y * 64 + z = (x * 64 + y) * 64 + z"
    "x * 262144 + y * 4096 + z * 64 + w = ((x * 64 + y) * 64 + z) * 64 + w" by simp_all
  show "(x * 64 + y) div 64 = x" "(x * 64 + y) mod 64 = y" using assms by (simp_all only: p)
  show "(x * 4096 + y * 64 + z) div 4096 = x" "(x * 4096 + y * 64 + z) div 64 mod 64 = y"
    "(x * 4096 + y * 64 + z) mod 64 = z"
    using assms by (simp_all only: d e p)
  show "(x * 262144 + y * 4096 + z * 64 + w) div 262144 = x"
    "(x * 262144 + y * 4096 + z * 64 + w) div 4096 mod 64 = y"
    "(x * 262144 + y * 4096 + z * 64 + w) div 64 mod 64 = z"
    "(x * 262144 + y * 4096 + z * 64 + w) mod 64 = w"
    using assms by (simp_all only: d e p)
qed

text \<open>The leading byte tells how many digits follow.\<close>

lemma utf8_next_digits:
  assumes "y < 64" and "z < 64" and "w < 64"
  shows "x < 32 \<Longrightarrow> 0x80 \<le> x * 64 + y \<Longrightarrow>
      utf8_next (byte (0xC0 + x) # byte (0x80 + y) # rest) = Some (x * 64 + y, rest)"
    and "x < 16 \<Longrightarrow> 0x800 \<le> x * 4096 + y * 64 + z \<Longrightarrow> scalar_value (x * 4096 + y * 64 + z) \<Longrightarrow>
      utf8_next (byte (0xE0 + x) # byte (0x80 + y) # byte (0x80 + z) # rest) =
        Some (x * 4096 + y * 64 + z, rest)"
    and "x < 8 \<Longrightarrow> 0x10000 \<le> x * 262144 + y * 4096 + z * 64 + w \<Longrightarrow>
      scalar_value (x * 262144 + y * 4096 + z * 64 + w) \<Longrightarrow>
      utf8_next (byte (0xF0 + x) # byte (0x80 + y) # byte (0x80 + z) # byte (0x80 + w) # rest) =
        Some (x * 262144 + y * 4096 + z * 64 + w, rest)"
  using assms by (simp_all add: Let_def)

lemma utf8_next_char:
  assumes "scalar_value c"
  shows "utf8_next (utf8_char c @ rest) = Some (c, rest)"
proof -
  have m: "c mod 64 < 64" "c div 64 mod 64 < 64" "c div 4096 mod 64 < 64" by simp_all
  consider (one) "c < 0x80" | (two) "0x80 \<le> c" "c < 0x800" | (three) "0x800 \<le> c" "c < 0x10000"
    | (four) "0x10000 \<le> c" by linarith
  then show ?thesis
  proof cases
    case one
    then show ?thesis by (simp add: utf8_char_def)
  next
    case two
    then have "c div 64 < 32" by simp
    from utf8_next_digits(1) [OF m(1) m(1) m(1) this] two show ?thesis
      by (simp add: utf8_char_def base64_digits(1) del: utf8_next.simps)
  next
    case three
    then have "c div 4096 < 16" by simp
    from utf8_next_digits(2) [OF m(2) m(1) m(1) this] three assms show ?thesis
      by (simp add: utf8_char_def base64_digits(2) del: utf8_next.simps)
  next
    case four
    moreover have "c < 0x110000" using assms by (auto simp: scalar_value_def)
    ultimately have "c div 262144 < 8" by simp
    from utf8_next_digits(3) [OF m(3,2,1) this] four assms show ?thesis
      by (simp add: utf8_char_def base64_digits(3) del: utf8_next.simps)
  qed
qed

lemma utf8_next_inverse:
  assumes "utf8_next bs = Some (c, rest)"
  shows "scalar_value c \<and> bs = utf8_char c @ rest"
proof (cases bs)
  case Nil
  then show ?thesis using assms by simp
next
  case (Cons b bs')
  consider (one) "unat b < 0x80" | (two) "0xC0 \<le> unat b" "unat b < 0xE0"
    | (three) "0xE0 \<le> unat b" "unat b < 0xF0" | (four) "0xF0 \<le> unat b" "unat b < 0xF8"
    using assms Cons by (fastforce simp: Let_def split: if_splits)
  then show ?thesis
  proof cases
    case one
    then show ?thesis using assms Cons by (auto simp: scalar_value_def utf8_char_def)
  next
    case two
    then obtain b1 where r: "bs' = b1 # rest" "c = (unat b - 0xC0) * 64 + tail_bits b1"
      "continuation b1" "0x80 \<le> c"
      using assms Cons by (auto simp: Let_def split: list.splits if_splits)
    note t = continuation_bits [OF r(3)]
    have d: "c div 64 = unat b - 0xC0" "c mod 64 = tail_bits b1" "c < 0x800"
      using t(1) two(2) unfolding r(2) by (simp_all add: base64_parts)
    then show ?thesis using r(1,4) t(2) two Cons by (simp add: scalar_value_def utf8_char_def)
  next
    case three
    then obtain b1 b2 where r: "bs' = b1 # b2 # rest"
      "c = (unat b - 0xE0) * 4096 + tail_bits b1 * 64 + tail_bits b2"
      "continuation b1" "continuation b2" "0x800 \<le> c" "scalar_value c"
      using assms Cons by (auto simp: Let_def split: list.splits if_splits)
    note t = continuation_bits [OF r(3)] continuation_bits [OF r(4)]
    have d: "c div 4096 = unat b - 0xE0" "c div 64 mod 64 = tail_bits b1" "c mod 64 = tail_bits b2"
      "c < 0x10000"
      using t(1,3) three(2) unfolding r(2) by (simp_all add: base64_parts)
    then show ?thesis using r(1,5,6) t(2,4) three Cons by (simp add: utf8_char_def)
  next
    case four
    then obtain b1 b2 b3 where r: "bs' = b1 # b2 # b3 # rest"
      "c = (unat b - 0xF0) * 262144 + tail_bits b1 * 4096 + tail_bits b2 * 64 + tail_bits b3"
      "continuation b1" "continuation b2" "continuation b3" "0x10000 \<le> c" "scalar_value c"
      using assms Cons by (auto simp: Let_def split: list.splits if_splits)
    note t = continuation_bits [OF r(3)] continuation_bits [OF r(4)] continuation_bits [OF r(5)]
    have d: "c div 262144 = unat b - 0xF0" "c div 4096 mod 64 = tail_bits b1"
      "c div 64 mod 64 = tail_bits b2" "c mod 64 = tail_bits b3"
      using t(1,3,5) unfolding r(2) by (simp_all add: base64_parts)
    then show ?thesis using r(1,6,7) t(2,4,6) four Cons by (simp add: utf8_char_def)
  qed
qed

lemma utf8_char_nonempty [simp]: "utf8_char c \<noteq> []"
  by (simp add: utf8_char_def)

lemma utf8_decode_encode: "valid_unicode s \<Longrightarrow> utf8_decode (string_to_bytes s) = Some s"
proof (induction s)
  case Nil
  then show ?case by (simp add: string_to_bytes_def utf8_decode.simps)
next
  case (Cons c s)
  then show ?case
    by (subst utf8_decode.simps)
      (simp add: string_to_bytes_def valid_unicode_def utf8_next_char)
qed

lemma utf8_encode_decode:
  "utf8_decode bs = Some s \<Longrightarrow> valid_unicode s \<and> string_to_bytes s = bs"
proof (induction bs arbitrary: s rule: utf8_decode.induct)
  case (1 bs)
  show ?case
  proof (cases "bs = []")
    case True
    then show ?thesis using "1.prems" by (simp add: utf8_decode.simps string_to_bytes_def valid_unicode_def)
  next
    case False
    then obtain c rest s' where c: "utf8_next bs = Some (c, rest)" "utf8_decode rest = Some s'" "s = c # s'"
      using "1.prems" by (auto simp: utf8_decode.simps [of bs] split: option.splits)
    have "valid_unicode s' \<and> string_to_bytes s' = rest"
      using "1.IH" [OF False c(1) refl c(2)] .
    then show ?thesis
      using utf8_next_inverse [OF c(1)] c(3) by (simp add: valid_unicode_def string_to_bytes_def)
  qed
qed


section \<open>Properties\<close>

text \<open>C26: Strings survive the way through bytes: what \<open>to_bytes\<close> makes of a string, \<open>from_bytes\<close>
  reads back; \<open>from_bytes\<close> accepts exactly the byte sequences that come from a string, so no
  two strings share their bytes and nothing malformed is accepted.\<close>

theorem string_bytes_roundtrip:
  "(valid_unicode s \<longrightarrow> string_from_bytes (string_to_bytes s) = Some s) \<and>
   (string_from_bytes data = Some s \<longleftrightarrow> valid_unicode s \<and> string_to_bytes s = data)"
  using utf8_decode_encode utf8_encode_decode by (auto simp: string_from_bytes_def)

theorem string_bytes_roundtrip_witness:
  "string_from_bytes (string_to_bytes [0x61, 0xE9, 0x20AC, 0x1F600]) = Some [0x61, 0xE9, 0x20AC, 0x1F600]"
  using string_bytes_roundtrip [of "[0x61, 0xE9, 0x20AC, 0x1F600]"]
  by (simp add: valid_unicode_def scalar_value_def)

end
