(* ===== verification/Producers.thy ===== *)
theory Producers
  imports Broker Rmq_Record
begin

text \<open>
  \<open>src/base_producer.rs\<close>, \<open>src/producer.rs\<close>, \<open>src/future_producer.rs\<close>, \<open>src/stream_producer.rs\<close>, with the
  producer context of \<open>src/context.rs\<close>: the producers. All of them end in \<open>BaseProducer::send\<close>,
  which turns the record into bytes, produces to the shared broker and tells the context how it
  went. The key and payload types come with their \<open>to_bytes\<close>, the arguments \<open>kb\<close> and \<open>pb\<close>.
\<close>

text \<open>A \<open>Result\<close> whose error is not \<open>RmqError\<close>, or a panic of the broker, which no producer catches.\<close>

datatype ('a, 'e) sent = Sent 'a | Failed 'e | Crashed panic

fun sent_map_err :: "('e \<Rightarrow> 'f) \<Rightarrow> ('a, 'e) sent \<Rightarrow> ('a, 'f) sent" where
  "sent_map_err f (Sent x) = Sent x"
| "sent_map_err f (Failed e) = Failed (f e)"
| "sent_map_err f (Crashed p) = Crashed p"

fun sent_map :: "('a \<Rightarrow> 'b) \<Rightarrow> ('a, 'e) sent \<Rightarrow> ('b, 'e) sent" where
  "sent_map f (Sent x) = Sent (f x)"
| "sent_map f (Failed e) = Failed e"
| "sent_map f (Crashed p) = Crashed p"

type_synonym delivery_result = "(record_metadata, rmq_error \<times> owned_message) sent"

text \<open>The state of a producer besides the shared broker: the calls of \<open>ProducerContext::delivery\<close>.\<close>

record base_producer =
  bp_deliveries :: "(delivery_result \<times> record_metadata) list"

definition base_producer_new :: base_producer where
  "base_producer_new = \<lparr>bp_deliveries = []\<rparr>"

definition call_delivery ::
    "delivery_result \<Rightarrow> record_metadata \<Rightarrow> base_producer \<Rightarrow> base_producer" where
  "call_delivery res meta bp = bp\<lparr>bp_deliveries := bp_deliveries bp @ [(res, meta)]\<rparr>"


section \<open>The base producer\<close>

definition owned_of_record ::
    "('k \<Rightarrow> bytes) \<Rightarrow> ('p \<Rightarrow> bytes) \<Rightarrow> ('k, 'p) base_record \<Rightarrow> owned_message" where
  "owned_of_record kb pb r =
     \<lparr>om_payload = map_option pb (br_payload r), om_key = map_option kb (br_key r),
      om_topic = br_topic r,
      om_partition = (case br_partition r of Some p \<Rightarrow> p | None \<Rightarrow> -1), om_offset = -1,
      om_timestamp = CreateTime (case br_timestamp r of Some ts \<Rightarrow> ts | None \<Rightarrow> 0),
      om_headers = br_headers r\<rparr>"

definition failed_metadata :: "('k, 'p) base_record \<Rightarrow> record_metadata" where
  "failed_metadata r =
     \<lparr>rmd_topic = br_topic r,
      rmd_partition = (case br_partition r of Some p \<Rightarrow> p | None \<Rightarrow> -1), rmd_offset = -1,
      rmd_timestamp = (case br_timestamp r of Some ts \<Rightarrow> ts | None \<Rightarrow> 0)\<rparr>"

definition base_send ::
    "('k \<Rightarrow> bytes) \<Rightarrow> ('p \<Rightarrow> bytes) \<Rightarrow> clock \<Rightarrow> ('k, 'p) base_record \<Rightarrow> base_producer \<Rightarrow> ('b, 'v) broker
     \<Rightarrow> (record_metadata, rmq_error \<times> ('k, 'p) base_record) sent \<times> base_producer \<times> ('b, 'v) broker" where
  "base_send kb pb c r bp br =
     (let key_bytes = map_option kb (br_key r);
          payload_bytes = map_option pb (br_payload r);
          (res, br') = broker_produce c (br_topic r) (br_partition r) key_bytes payload_bytes
                         (br_headers r) (br_timestamp r) br
      in case res of
           Ok meta \<Rightarrow> (Sent meta, call_delivery (Sent meta) meta bp, br')
         | Err e \<Rightarrow>
             (Failed (e, r),
              call_delivery (Failed (e, owned_of_record kb pb r)) (failed_metadata r) bp, br')
         | Panic p \<Rightarrow> (Crashed p, bp, br'))"

text \<open>The provided methods of the trait.\<close>

definition producer_flush :: "unit res" where
  "producer_flush = Ok ()"

definition in_flight_count :: i32 where
  "in_flight_count = 0"

definition producer_metadata :: "string option \<Rightarrow> ('b, 'v) broker \<Rightarrow> metadata res" where
  "producer_metadata topic br = broker_metadata topic br"

definition producer_watermarks :: "string \<Rightarrow> i32 \<Rightarrow> ('b, 'v) broker \<Rightarrow> (i64 \<times> i64) res" where
  "producer_watermarks topic p br = broker_watermarks topic p br"


section \<open>The future producer\<close>

definition to_delivery_error ::
    "('k \<Rightarrow> bytes) \<Rightarrow> ('p \<Rightarrow> bytes) \<Rightarrow> rmq_error \<Rightarrow> ('k, 'p) base_record \<Rightarrow> rmq_error \<times> owned_message" where
  "to_delivery_error kb pb e r =
     (e, \<lparr>om_payload = map_option pb (br_payload r), om_key = map_option kb (br_key r),
          om_topic = br_topic r,
          om_partition = (case br_partition r of Some p \<Rightarrow> p | None \<Rightarrow> -1), om_offset = -1,
          om_timestamp = CreateTime (case br_timestamp r of Some ts \<Rightarrow> ts | None \<Rightarrow> 0),
          om_headers = br_headers r\<rparr>)"

text \<open>The future has no suspension point: its first poll runs the whole send.\<close>

definition future_send ::
    "('k \<Rightarrow> bytes) \<Rightarrow> ('p \<Rightarrow> bytes) \<Rightarrow> clock \<Rightarrow> ('k, 'p) base_record \<Rightarrow> base_producer \<Rightarrow> ('b, 'v) broker
     \<Rightarrow> delivery_result \<times> base_producer \<times> ('b, 'v) broker" where
  "future_send kb pb c r bp br =
     (case base_send kb pb c r bp br of
        (Sent meta, s) \<Rightarrow> (Sent meta, s)
      | (Failed (e, r'), s) \<Rightarrow> (Failed (to_delivery_error kb pb e r'), s)
      | (Crashed p, s) \<Rightarrow> (Crashed p, s))"


section \<open>The stream producer and its sink\<close>

record owned_record =
  or_topic :: string
  or_partition :: "i32 option"
  or_payload :: "bytes option"
  or_key :: "bytes option"
  or_timestamp :: "i64 option"
  or_headers :: "owned_headers option"

definition owned_record_to :: "string \<Rightarrow> owned_record" where
  "owned_record_to topic =
     \<lparr>or_topic = topic, or_partition = None, or_payload = None, or_key = None,
      or_timestamp = None, or_headers = None\<rparr>"

definition owned_record_partition :: "i32 \<Rightarrow> owned_record \<Rightarrow> owned_record" where
  "owned_record_partition p r = r\<lparr>or_partition := Some p\<rparr>"

definition owned_record_payload :: "bytes \<Rightarrow> owned_record \<Rightarrow> owned_record" where
  "owned_record_payload p r = r\<lparr>or_payload := Some p\<rparr>"

definition owned_record_key :: "bytes \<Rightarrow> owned_record \<Rightarrow> owned_record" where
  "owned_record_key k r = r\<lparr>or_key := Some k\<rparr>"

definition owned_record_timestamp :: "i64 \<Rightarrow> owned_record \<Rightarrow> owned_record" where
  "owned_record_timestamp ts r = r\<lparr>or_timestamp := Some ts\<rparr>"

definition owned_record_headers :: "owned_headers \<Rightarrow> owned_record \<Rightarrow> owned_record" where
  "owned_record_headers h r = r\<lparr>or_headers := Some h\<rparr>"

definition owned_record_from ::
    "('k \<Rightarrow> bytes) \<Rightarrow> ('p \<Rightarrow> bytes) \<Rightarrow> ('k, 'p) base_record \<Rightarrow> owned_record" where
  "owned_record_from kb pb r =
     \<lparr>or_topic = br_topic r, or_partition = br_partition r,
      or_payload = map_option pb (br_payload r), or_key = map_option kb (br_key r),
      or_timestamp = br_timestamp r, or_headers = br_headers r\<rparr>"

text \<open>\<open>if let Some(x) = field { base = base.set(x) }\<close>\<close>

definition set_some :: "('a \<Rightarrow> 'r \<Rightarrow> 'r) \<Rightarrow> 'a option \<Rightarrow> 'r \<Rightarrow> 'r" where
  "set_some setter x r = (case x of Some y \<Rightarrow> setter y r | None \<Rightarrow> r)"

definition record_of_owned :: "owned_record \<Rightarrow> (bytes, bytes) base_record" where
  "record_of_owned r =
     (let base = record_to (or_topic r);
          base = set_some record_payload (or_payload r) base;
          base = set_some record_key (or_key r) base;
          base = set_some record_partition (or_partition r) base;
          base = set_some record_timestamp (or_timestamp r) base
      in set_some record_headers (or_headers r) base)"

definition stream_send_record ::
    "('k \<Rightarrow> bytes) \<Rightarrow> ('p \<Rightarrow> bytes) \<Rightarrow> clock \<Rightarrow> ('k, 'p) base_record \<Rightarrow> base_producer \<Rightarrow> ('b, 'v) broker
     \<Rightarrow> (record_metadata, rmq_error \<times> ('k, 'p) base_record) sent \<times> base_producer \<times> ('b, 'v) broker" where
  "stream_send_record kb pb c r bp br = base_send kb pb c r bp br"

definition stream_send ::
    "clock \<Rightarrow> owned_record \<Rightarrow> base_producer \<Rightarrow> ('b, 'v) broker
     \<Rightarrow> (record_metadata, rmq_error \<times> owned_record) sent \<times> base_producer \<times> ('b, 'v) broker" where
  "stream_send c r bp br =
     (let (result, bp', br') = base_send bytes_to_bytes bytes_to_bytes c (record_of_owned r) bp br;
          result = sent_map_err fst result
      in (sent_map_err (\<lambda>e. (e, r)) result, bp', br'))"

text \<open>\<open>ProducerSink\<close>: readiness, flushing and closing answer at once; an item is sent when it is given.\<close>

datatype 'a task_poll = Ready 'a | Pending

definition sink_poll_ready :: "(unit, rmq_error \<times> owned_record) sent task_poll" where
  "sink_poll_ready = Ready (Sent ())"

definition sink_start_send ::
    "clock \<Rightarrow> owned_record \<Rightarrow> base_producer \<Rightarrow> ('b, 'v) broker
     \<Rightarrow> (unit, rmq_error \<times> owned_record) sent \<times> base_producer \<times> ('b, 'v) broker" where
  "sink_start_send c item bp br =
     (case stream_send c item bp br of (r, s) \<Rightarrow> (sent_map (\<lambda>_. ()) r, s))"

definition sink_poll_flush :: "(unit, rmq_error \<times> owned_record) sent task_poll" where
  "sink_poll_flush = Ready (Sent ())"

definition sink_poll_close :: "(unit, rmq_error \<times> owned_record) sent task_poll" where
  "sink_poll_close = Ready (Sent ())"


section \<open>Lemmas\<close>

lemma sent_map_err_pair [simp]: "sent_map_err fst (sent_map_err (\<lambda>e. (e, z)) x) = x"
  by (cases x) simp_all

lemma sent_map_err_Failed: "sent_map_err (\<lambda>e. (e, z)) x = Failed (e, y) \<Longrightarrow> y = z"
  by (cases x) simp_all

lemma record_of_owned_sel [simp]:
  "br_topic (record_of_owned r) = or_topic r" "br_partition (record_of_owned r) = or_partition r"
  "br_payload (record_of_owned r) = or_payload r" "br_key (record_of_owned r) = or_key r"
  "br_timestamp (record_of_owned r) = or_timestamp r" "br_headers (record_of_owned r) = or_headers r"
  by (simp_all add: record_of_owned_def Let_def set_some_def record_defs split: option.splits)

lemma map_bytes_to_bytes [simp]: "map_option bytes_to_bytes x = x"
  by (cases x) (simp_all add: bytes_to_bytes_def)

text \<open>What a send depends on: the bytes of the record.\<close>

lemma base_send_cong:
  assumes "br_topic r = br_topic r'" and "br_partition r = br_partition r'"
    and "map_option kb (br_key r) = map_option kb' (br_key r')"
    and "map_option pb (br_payload r) = map_option pb' (br_payload r')"
    and "br_headers r = br_headers r'" and "br_timestamp r = br_timestamp r'"
  shows "sent_map_err fst (fst (base_send kb pb c r bp br)) =
      sent_map_err fst (fst (base_send kb' pb' c r' bp br)) \<and>
    snd (base_send kb pb c r bp br) = snd (base_send kb' pb' c r' bp br)"
  using assms
  by (simp add: base_send_def Let_def split_beta owned_of_record_def failed_metadata_def split: res.splits)

text \<open>A sequence of sends of one producer, each with its clock; a panic ends it.\<close>

fun send_all ::
    "('k \<Rightarrow> bytes) \<Rightarrow> ('p \<Rightarrow> bytes) \<Rightarrow> (clock \<times> ('k, 'p) base_record) list \<Rightarrow> base_producer
     \<Rightarrow> ('b, 'v) broker
     \<Rightarrow> (record_metadata, rmq_error \<times> ('k, 'p) base_record) sent list \<times> base_producer \<times> ('b, 'v) broker" where
  "send_all kb pb [] bp br = ([], bp, br)"
| "send_all kb pb ((c, r) # rs) bp br =
     (case base_send kb pb c r bp br of
        (Crashed p, bp', br') \<Rightarrow> ([Crashed p], bp', br')
      | (x, bp', br') \<Rightarrow>
          (case send_all kb pb rs bp' br' of (xs, s) \<Rightarrow> (x # xs, s)))"

fun is_crashed :: "('a, 'e) sent \<Rightarrow> bool" where
  "is_crashed (Crashed p) = True"
| "is_crashed _ = False"

text \<open>Each send that comes back has called the context exactly once, with the outcome it returns.\<close>

lemma base_send_delivery:
  assumes "base_send kb pb c r bp br = (x, bp', br')" and "\<not> is_crashed x"
  shows "\<exists>d meta. bp_deliveries bp' = bp_deliveries bp @ [(d, meta)] \<and>
    sent_map_err fst d = sent_map_err fst x \<and>
    (\<forall>e m. d = Failed (e, m) \<longrightarrow> m = owned_of_record kb pb r \<and> meta = failed_metadata r) \<and>
    (\<forall>m. d = Sent m \<longrightarrow> meta = m)"
  using assms by (auto simp: base_send_def Let_def call_delivery_def split: prod.splits res.splits)

lemma base_send_failed: "base_send kb pb c r bp br = (Failed (e, r'), s) \<Longrightarrow> r' = r"
  by (auto simp: base_send_def Let_def split: prod.splits res.splits)

lemma base_send_crashed: "base_send kb pb c r bp br = (Crashed p, bp', br') \<Longrightarrow> bp' = bp"
  by (auto simp: base_send_def Let_def split: prod.splits res.splits)


section \<open>Properties\<close>

text \<open>C28: One callback per send. For any sequence of sends, the calls of \<open>ProducerContext::delivery\<close>
  are, in order, the outcomes that the sends returned, one call each: the metadata on success,
  the same error on failure. Only a send in which the broker panics is not reported, and it is
  the last.\<close>

theorem one_delivery_per_send:
  assumes "send_all kb pb rs bp br = (xs, bp', br')"
  shows "map (sent_map_err fst \<circ> fst) (bp_deliveries bp') =
      map (sent_map_err fst \<circ> fst) (bp_deliveries bp) @
      map (sent_map_err fst) (filter (\<lambda>x. \<not> is_crashed x) xs) \<and>
    (\<forall>x \<in> set (butlast xs). \<not> is_crashed x) \<and>
    (length xs = length rs \<or> xs \<noteq> [] \<and> is_crashed (last xs))"
  using assms
proof (induction rs arbitrary: bp br xs bp' br')
  case Nil
  then show ?case by simp
next
  case (Cons cr rs)
  obtain c r x bp1 br1 where cr: "cr = (c, r)" and s: "base_send kb pb c r bp br = (x, bp1, br1)"
    by (metis prod_cases3 surj_pair)
  show ?case
  proof (cases "is_crashed x")
    case True
    then obtain p where x: "x = Crashed p" by (cases x) auto
    then have "xs = [x]" "bp' = bp1" using Cons.prems s cr by auto
    then show ?thesis using base_send_crashed [of kb pb c r bp br p bp1 br1] s x by simp
  next
    case False
    obtain ys where ys: "send_all kb pb rs bp1 br1 = (ys, bp', br')" "xs = x # ys"
      using Cons.prems s cr False by (cases x) (auto split: prod.splits)
    obtain d meta where d: "bp_deliveries bp1 = bp_deliveries bp @ [(d, meta)]"
      "sent_map_err fst d = sent_map_err fst x"
      using base_send_delivery [OF s False] by blast
    show ?thesis using Cons.IH [OF ys(1)] ys(2) d False by auto
  qed
qed

abbreviation demo_record :: "(bytes, bytes) base_record" where
  "demo_record \<equiv> record_payload [1] (record_to ''t'')"

abbreviation demo_closed :: "(nat in_memory, nat) broker" where
  "demo_closed \<equiv> demo_broker\<lparr>bk_shutdown := True\<rparr>"

lemma demo_closed_send:
  "send_all id id [(demo_clock, demo_record)] base_producer_new demo_closed =
     ([Failed (BrokerShutdown, demo_record)],
      call_delivery (Failed (BrokerShutdown, owned_of_record id id demo_record))
        (failed_metadata demo_record) base_producer_new, demo_closed)"
  by (simp add: base_send_def Let_def broker_closed(1))

theorem one_delivery_per_send_witness:
  "map (sent_map_err fst \<circ> fst) (bp_deliveries (call_delivery
     (Failed (BrokerShutdown, owned_of_record id id demo_record)) (failed_metadata demo_record)
     base_producer_new)) = [Failed BrokerShutdown]"
  using one_delivery_per_send [OF demo_closed_send] by (simp add: base_producer_new_def)

text \<open>C25: All producers send alike. Sending the owned record made from a record through the stream
  producer or its sink, or the record through the future producer, has the outcome, the
  callbacks and the effect on the broker that sending the record through the base producer has;
  they differ only in what they return with an error: the stream producer gives the owned
  record back unchanged, the future producer the message it would have become.\<close>

theorem producers_agree:
  assumes "o1 = owned_record_from kb pb r"
  shows "sent_map_err fst (fst (stream_send c o1 bp br)) = sent_map_err fst (fst (base_send kb pb c r bp br)) \<and>
    snd (stream_send c o1 bp br) = snd (base_send kb pb c r bp br) \<and>
    sent_map_err fst (fst (future_send kb pb c r bp br)) = sent_map_err fst (fst (base_send kb pb c r bp br)) \<and>
    snd (future_send kb pb c r bp br) = snd (base_send kb pb c r bp br) \<and>
    fst (sink_start_send c o1 bp br) = sent_map (\<lambda>_. ()) (fst (stream_send c o1 bp br)) \<and>
    snd (sink_start_send c o1 bp br) = snd (base_send kb pb c r bp br) \<and>
    (\<forall>e x. fst (stream_send c o1 bp br) = Failed (e, x) \<longrightarrow> x = o1) \<and>
    (\<forall>e x. fst (future_send kb pb c r bp br) = Failed (e, x) \<longrightarrow> x = owned_of_record kb pb r)"
proof -
  note same = base_send_cong [of "record_of_owned o1" r bytes_to_bytes kb bytes_to_bytes pb c bp br]
  have "sent_map_err fst (fst (base_send bytes_to_bytes bytes_to_bytes c (record_of_owned o1) bp br)) =
      sent_map_err fst (fst (base_send kb pb c r bp br)) \<and>
    snd (base_send bytes_to_bytes bytes_to_bytes c (record_of_owned o1) bp br) =
      snd (base_send kb pb c r bp br)"
    by (rule same) (simp_all add: assms owned_record_from_def)
  then have stream: "sent_map_err fst (fst (stream_send c o1 bp br)) =
      sent_map_err fst (fst (base_send kb pb c r bp br))"
    "snd (stream_send c o1 bp br) = snd (base_send kb pb c r bp br)"
    "\<And>e x. fst (stream_send c o1 bp br) = Failed (e, x) \<Longrightarrow> x = o1"
    using sent_map_err_Failed by (simp_all add: stream_send_def split_beta)
  have "sent_map_err fst (fst (future_send kb pb c r bp br)) = sent_map_err fst (fst (base_send kb pb c r bp br)) \<and>
    snd (future_send kb pb c r bp br) = snd (base_send kb pb c r bp br) \<and>
    (\<forall>e x. fst (future_send kb pb c r bp br) = Failed (e, x) \<longrightarrow> x = owned_of_record kb pb r)"
    using base_send_failed [of kb pb c r bp br]
    by (auto simp: future_send_def to_delivery_error_def owned_of_record_def
        split: prod.splits sent.splits)
  then show ?thesis using stream by (simp add: sink_start_send_def split_beta)
qed

theorem producers_agree_witness:
  "sent_map_err fst (fst (stream_send demo_clock (owned_record_from id id demo_record)
     base_producer_new demo_closed)) = Failed BrokerShutdown"
  using producers_agree [OF refl, of demo_clock id id demo_record base_producer_new demo_closed]
  by (simp add: base_send_def Let_def broker_closed(1))

end
