(* ===== verification/Delivery.thy ===== *)
theory Delivery
  imports Base_Consumer
begin

text \<open>
  The path of one message through the broker: where a produce leaves it, that a fetch at its offset
  reads it back, and that the poll of a consumer waiting at the end of the partition returns it.
\<close>

text \<open>The partition that the chosen index denotes once the topic exists.\<close>

lemma routed_partition:
  assumes mem: "mem_broker h br" and op: "\<not> bk_shutdown br"
    and n: "n = seen_count (inmem_count (bk_backend br) topic) br" and q: "0 \<le> q" "q < n"
    and off: "off = (case inmem_partition (bk_backend br) topic q of Some p \<Rightarrow> end_offset p | None \<Rightarrow> 0)"
    and b1: "b1 = snd (inmem_ensure_topic topic (default_num_partitions (bk_config br)) (bk_backend br))"
  shows "\<exists>p. partition_reachable topic q (make_partition_config (bk_backend br)) p \<and>
    end_offset p = off \<and> inmem_partition b1 topic q = Some p"
proof -
  let ?b = "bk_backend br"
  have bop: "\<not> im_shutdown ?b" using mem op by (simp add: mem_brokerD(6))
  obtain p where p: "inmem_partition b1 topic q = Some p" "end_offset p = off"
  proof (cases "inmem_count ?b topic")
    case None
    then have "inmem_partition ?b topic q = None"
      using inmem_partition_count [OF mem_brokerD(4) [OF mem], of topic q] by auto
    then show thesis
      using that None n q off b1
      by (simp add: inmem_partition_ensure [OF bop] seen_count_def end_offset_def partition_new_def)
  next
    case (Some m)
    then have "inmem_partition ?b topic q \<noteq> None"
      using inmem_partition_count [OF mem_brokerD(4) [OF mem], of topic q] n q
      by (simp add: seen_count_def)
    then show thesis using that Some off b1 by (auto simp: inmem_partition_ensure [OF bop])
  qed
  have "wf_backend b1" unfolding b1 by (rule wf_ensure_topic [OF mem_brokerD(4) [OF mem]])
  then have "partition_reachable topic q (make_partition_config b1) p"
    using p(1) by (rule inmem_partition_reachable)
  moreover have "make_partition_config b1 = make_partition_config ?b"
    unfolding b1 by (rule make_partition_config_cong) simp
  ultimately show ?thesis using p by auto
qed

text \<open>Where a successful produce leaves the message.\<close>

lemma produced_partition:
  assumes mem: "mem_broker h br" and op: "\<not> bk_shutdown br"
    and n: "n = seen_count (inmem_count (bk_backend br) topic) br" "n < 2 ^ 31"
    and q: "q = routed topic k n part (bk_partitioner br)" "0 \<le> q" "q < n"
    and off: "off = (case inmem_partition (bk_backend br) topic q of Some p \<Rightarrow> end_offset p | None \<Rightarrow> 0)"
    and br': "br' = snd (broker_produce c topic part k pl hs (Some ts) br)"
  shows "\<exists>p. partition_reachable topic q (make_partition_config (bk_backend br)) p \<and>
    end_offset p = off \<and>
    inmem_partition (bk_backend br') topic q = Some (snd (partition_append c k pl hs (Some ts) p))"
proof -
  let ?b1 = "snd (inmem_ensure_topic topic (default_num_partitions (bk_config br)) (bk_backend br))"
  have bop: "\<not> im_shutdown (bk_backend br)" using mem op by (simp add: mem_brokerD(6))
  have route: "bk_backend br' = snd (inmem_produce c topic q k pl hs (Some ts) ?b1)"
    using mem.broker_produce_route(1) [OF mem_brokerD(1,4) [OF mem] bop op n(1) _ n(2) q(1) refl,
        of c pl hs "Some ts"] q(2,3) br' by simp
  obtain p where p: "partition_reachable topic q (make_partition_config (bk_backend br)) p"
    "end_offset p = off" "inmem_partition ?b1 topic q = Some p"
    using routed_partition [OF mem op n(1) q(2,3) off refl] by blast
  have "inmem_partition (bk_backend br') topic q = Some (snd (partition_append c k pl hs (Some ts) p))"
    using inmem_produce_partition [of ?b1 topic q p c k pl hs "Some ts" topic q] p(3) bop
    by (simp add: route)
  then show ?thesis using p(1,2) by blast
qed

text \<open>A message appended to a partition that keeps it is fetched at its offset.\<close>

lemma appended_fetch:
  assumes mem: "mem_broker h br'" and op: "\<not> bk_shutdown br'" and wf: "wf_partition p"
    and p': "inmem_partition (bk_backend br') topic q = Some (snd (append_message c mk p))"
    and cfg: "policies (buffer p) = []" "max_capacity (buffer p) \<noteq> 1"
    and room: "end_offset p + 1 < 2 ^ 63"
    and mk: "msg_offset (mk (end_offset p)) = end_offset p"
      "msg_topic (mk (end_offset p)) = topic_name p" "msg_partition (mk (end_offset p)) = partition_id p"
  shows "fetch_one_from_position topic q (Some (end_offset p)) gid br' = Ok (Some (mk (end_offset p)))"
proof -
  have wfq: "wf_partition (snd (append_message c mk p))" using wf_append_message [where mk = mk, OF wf room mk] .
  have "buf_log (buffer (snd (append_message c mk p))) \<noteq> []"
    using cfg(2) by (simp add: append_log_no_policy [OF cfg(1)] trim_nonempty)
  from append_message_read [OF wf room wfq this]
  show ?thesis using fetch_partition_shape [OF mem op p', of "Some (end_offset p)" gid] by auto
qed

lemma produced_fetch:
  assumes mem: "mem_broker h br'" and op: "\<not> bk_shutdown br'" and wf: "wf_partition p"
    and p': "inmem_partition (bk_backend br') topic q = Some (snd (partition_append c k pl hs (Some ts) p))"
    and cfg: "policies (buffer p) = []" "max_capacity (buffer p) \<noteq> 1"
    and room: "end_offset p + 1 < 2 ^ 63"
  shows "fetch_one_from_position topic q (Some (end_offset p)) gid br' =
    Ok (Some (stored_new k pl (topic_name p) (partition_id p) (end_offset p) ts hs (mono c 0)))"
  by (rule appended_fetch [OF mem op wf _ cfg room]) (use p' in \<open>simp_all add: partition_append_def\<close>)

text \<open>A consumer with one assigned partition polls that partition.\<close>

lemma poll_once_single:
  assumes "tpl_keys (cn_assigned c) = [(t, i)]" and "(t, i) \<notin> set (cn_paused c)"
    and "fetch_one_from_position t i (map_of (cn_position c) (t, i)) (cn_group_id c) (brs 0) = Ok (Some m)"
  shows "poll_once brs c = (Some (Ok (borrowed_new m)),
    (set_position (t, i) (wrap_i64 (msg_offset m + 1)) c)\<lparr>cn_poll_start := 1\<rparr>)"
proof -
  obtain e where e: "tpl_elements (cn_assigned c) = [e]" "tpe_topic e = t" "tpe_partition e = i"
    using assms(1) by (auto simp: tpl_keys_def)
  then show ?thesis using assms(2,3) by (simp add: poll_once_def)
qed

text \<open>The poll after the produce.\<close>

lemma produced_then_polled:
  assumes "mem_broker h br" and "\<not> bk_shutdown br"
    and "n = seen_count (inmem_count (bk_backend br) topic) br" and "n < 2 ^ 31"
    and "q = routed topic k n part (bk_partitioner br)" and "0 \<le> q" and "q < n"
    and "off = (case inmem_partition (bk_backend br) topic q of Some p \<Rightarrow> end_offset p | None \<Rightarrow> 0)"
    and "off + 1 < 2 ^ 63"
    and "make_partition_config (bk_backend br) =
      \<lparr>pc_max_capacity = cap, pc_retention_ms = None, pc_retention_capacity = None\<rparr>" and "cap \<noteq> 1"
    and "broker_produce clk topic part k pl hs (Some ts) br = (r, br')"
    and "tpl_keys (cn_assigned c) = [(topic, q)]" and "(topic, q) \<notin> set (cn_paused c)"
    and "map_of (cn_position c) (topic, q) = Some off"
  shows "r = Ok \<lparr>rmd_topic = topic, rmd_partition = q, rmd_offset = off, rmd_timestamp = ts\<rparr>"
    and "poll_once (\<lambda>_. br') c = (Some (Ok (borrowed_new (stored_new k pl topic q off ts hs (mono clk 0)))),
      (set_position (topic, q) (off + 1) c)\<lparr>cn_poll_start := 1\<rparr>)"
proof -
  have br': "br' = snd (broker_produce clk topic part k pl hs (Some ts) br)" using assms(12) by simp
  have bop: "\<not> im_shutdown (bk_backend br)" using assms(1,2) by (simp add: mem_brokerD(6))
  have w: "off = (case inmem_window (bk_backend br) topic q of Some (lo, hi) \<Rightarrow> hi | None \<Rightarrow> 0)"
    using assms(8) by (simp add: inmem_window_def split: option.splits)
  note ok = mem.broker_produce_ok [OF mem_brokerD(1,4) [OF assms(1)] bop assms(2-7) w assms(9) br']
  have mem': "mem_broker h br'"
    using mem.broker_produce_route(1) [OF mem_brokerD(1,4) [OF assms(1)] bop assms(2,3) _ assms(4,5)
        refl, of clk pl hs "Some ts"] ok(2,3) br' assms(1,2,6,7)
    by (simp add: mem_broker_def)
  obtain p where p: "partition_reachable topic q (make_partition_config (bk_backend br)) p"
    "end_offset p = off"
    "inmem_partition (bk_backend br') topic q = Some (snd (partition_append clk k pl hs (Some ts) p))"
    using produced_partition [OF assms(1-8) br'] by blast
  have cfg: "policies (buffer p) = []" "max_capacity (buffer p) \<noteq> 1" "topic_name p = topic"
    "partition_id p = q"
    using partition_reachable_config [OF p(1)] assms(10,11) by (simp_all add: build_policies_def)
  note wf = partition_reachable_wf [OF p(1)]
  have room: "end_offset p + 1 < 2 ^ 63" using p(2) assms(9) by simp
  let ?m = "stored_new k pl topic q off ts hs (mono clk 0)"
  have "fetch_one_from_position topic q (map_of (cn_position c) (topic, q)) (cn_group_id c) br' = Ok (Some ?m)"
    using produced_fetch [OF mem' ok(9) wf p(3) cfg(1,2) room, of "cn_group_id c"] p(2) cfg(3,4) assms(15)
    by simp
  from poll_once_single [where brs = "\<lambda>_. br'", OF assms(13,14) this]
  have poll: "poll_once (\<lambda>_. br') c = (Some (Ok (borrowed_new ?m)),
      (set_position (topic, q) (wrap_i64 (off + 1)) c)\<lparr>cn_poll_start := 1\<rparr>)"
    by (simp add: stored_new_def)
  have "in_i64 (off + 1)" using wf_partitionD(1,2) [OF wf] p(2) assms(9) by (simp add: in_i64_def)
  then show "poll_once (\<lambda>_. br') c = (Some (Ok (borrowed_new ?m)),
      (set_position (topic, q) (off + 1) c)\<lparr>cn_poll_start := 1\<rparr>)"
    using poll by simp
  show "r = Ok \<lparr>rmd_topic = topic, rmd_partition = q, rmd_offset = off, rmd_timestamp = ts\<rparr>"
    using ok(1) assms(12) by simp
qed

definition waiting_consumer :: rmq_consumer where
  "waiting_consumer = set_position (''t'', 1) 0 ((fresh_consumer None ''c'')
     \<lparr>cn_assigned := tpl_add_partition ''t'' 1 tpl_new\<rparr>)"

lemma waiting_consumer_sel [simp]:
  "tpl_keys (cn_assigned waiting_consumer) = [(''t'', 1)]" "cn_paused waiting_consumer = []"
  "map_of (cn_position waiting_consumer) (''t'', 1) = Some 0"
  by (simp_all add: waiting_consumer_def fresh_consumer_def)

lemma demo_polled:
  "fst (poll_once (\<lambda>_. snd (broker_produce demo_clock ''t'' (Some 1) k pl hs (Some ts) demo_broker))
     waiting_consumer) = Some (Ok (borrowed_new (stored_new k pl ''t'' 1 0 ts hs (mono demo_clock 0))))"
  using produced_then_polled(2) [OF demo_broker_mem, where n = 2 and topic = "''t''"
      and k = k and part = "Some 1" and q = 1 and off = 0 and cap = 10 and clk = demo_clock
      and pl = pl and hs = hs and ts = ts and c = waiting_consumer, OF _ _ _ _ _ _ _ _ _ _
      prod.collapse [symmetric]]
  by (simp add: routed_def make_partition_config_def demo_broker_config_def)


text \<open>The same for typed messages, which the partitioner sees without a key.\<close>

lemma typed_produce_route:
  assumes mem: "mem_broker h br" and op: "\<not> bk_shutdown br"
    and n: "n = seen_count (inmem_count (bk_backend br) topic) br" "0 \<le> n" "n < 2 ^ 31"
    and q: "q = routed topic None n part (bk_partitioner br)"
    and b1: "b1 = snd (inmem_ensure_topic topic (default_num_partitions (bk_config br)) (bk_backend br))"
  shows "broker_produce_typed c topic part tp tk hs ts br =
    (res_map (record_metadata_of topic) (fst (inmem_produce_typed c topic q tp tk hs ts b1)),
     br\<lparr>bk_backend := snd (inmem_produce_typed c topic q tp tk hs ts b1),
        bk_partitioner := partitioner_after topic None n part (bk_partitioner br)\<rparr>)"
proof -
  have bop: "\<not> im_shutdown (bk_backend br)" using mem op by (simp add: mem_brokerD(6))
  have "b1 = snd (be_ensure_topic (inmem_ops h) topic (default_num_partitions (bk_config br)) (bk_backend br))"
    using b1 by simp
  note pre = mem.broker_produce_prefix [OF mem_brokerD(1,4) [OF mem] bop n this]
  have chk: "broker_check_shutdown br = Ok ()" using op by (simp add: broker_check_shutdown_def)
  obtain r b2 where p: "inmem_produce_typed c topic q tp tk hs ts b1 = (r, b2)" by fastforce
  show ?thesis
    using p q [symmetric] mem_brokerD(2) [OF mem]
    by (cases r) (simp_all add: broker_produce_typed_def chk pre(5)
        st_bind_Ok [where m = "ensure_default topic", OF pre(4)]
        st_bind_Ok [where m = "broker_choose topic None n part", OF broker_choose_routed]
        st_bind_def [of "on_backend _"] on_backend_def st_return_def)
qed

lemma typed_produced_then_polled:
  assumes mem: "mem_broker h br" and op: "\<not> bk_shutdown br"
    and n: "n = seen_count (inmem_count (bk_backend br) topic) br" "n < 2 ^ 31"
    and q: "q = routed topic None n part (bk_partitioner br)" "0 \<le> q" "q < n"
    and off: "off = (case inmem_partition (bk_backend br) topic q of Some p \<Rightarrow> end_offset p | None \<Rightarrow> 0)"
      "off + 1 < 2 ^ 63"
    and cfg: "make_partition_config (bk_backend br) =
      \<lparr>pc_max_capacity = cap, pc_retention_ms = None, pc_retention_capacity = None\<rparr>" "cap \<noteq> 1"
    and run: "broker_produce_typed clk topic part tp tk hs ts br = (r, br')"
    and t: "t = (case ts of Some x \<Rightarrow> x | None \<Rightarrow> unix_millis clk)"
    and c: "tpl_keys (cn_assigned c) = [(topic, q)]" "(topic, q) \<notin> set (cn_paused c)"
      "map_of (cn_position c) (topic, q) = Some off"
  shows "r = Ok \<lparr>rmd_topic = topic, rmd_partition = q, rmd_offset = off, rmd_timestamp = t\<rparr>"
    and "poll_once (\<lambda>_. br') c =
      (Some (Ok (borrowed_new (stored_new_typed tp tk topic q off t hs (mono clk 0)))),
       (set_position (topic, q) (wrap_i64 (off + 1)) c)\<lparr>cn_poll_start := 1\<rparr>)"
proof -
  define b1 where "b1 = snd (inmem_ensure_topic topic (default_num_partitions (bk_config br)) (bk_backend br))"
  have "0 \<le> n" using q by simp
  note route = typed_produce_route [OF mem op n(1) \<open>0 \<le> n\<close> n(2) q(1) b1_def, of clk tp tk hs ts]
  have bop: "\<not> im_shutdown b1" using mem op by (simp add: mem_brokerD(6) b1_def)
  obtain p where p: "partition_reachable topic q (make_partition_config (bk_backend br)) p"
    "end_offset p = off" "inmem_partition b1 topic q = Some p"
    using routed_partition [OF mem op n(1) q(2,3) off(1) b1_def] by blast
  have sel: "policies (buffer p) = []" "max_capacity (buffer p) \<noteq> 1" "topic_name p = topic"
    "partition_id p = q"
    using partition_reachable_config [OF p(1)] cfg by (simp_all add: build_policies_def)
  let ?mk = "\<lambda>off. stored_new_typed tp tk topic q off t hs (mono clk 0)"
  have app: "partition_append_typed clk tp tk hs (Some t) p = append_message clk ?mk p"
    by (simp add: partition_append_typed_def sel(3,4))
  note made = inmem_produce_typed_partition [OF bop p(3), where c = clk and tp = tp and tk = tk
      and h = hs and ts = ts, folded t, unfolded app]
  have br': "br' = snd (broker_produce_typed clk topic part tp tk hs ts br)"
    "r = fst (broker_produce_typed clk topic part tp tk hs ts br)" using run by simp_all
  show "r = Ok \<lparr>rmd_topic = topic, rmd_partition = q, rmd_offset = off, rmd_timestamp = t\<rparr>"
    using made by (simp add: br'(2) route record_metadata_of_def sel(4) p(2))
  have "wf_backend b1" unfolding b1_def by (rule wf_ensure_topic [OF mem_brokerD(4) [OF mem]])
  moreover have "inmem_room b1 topic q" using p(2,3) off(2) by (simp add: inmem_room_def)
  ultimately have "wf_backend (snd (inmem_produce_typed clk topic q tp tk hs ts b1))"
    by (rule wf_inmem_produce_typed)
  then have mem': "mem_broker h br'" and op': "\<not> bk_shutdown br'"
    using mem op bop by (simp_all add: br'(1) route mem_broker_def)
  have p': "inmem_partition (bk_backend br') topic q = Some (snd (append_message clk ?mk p))"
    using made by (simp add: br'(1) route)
  have "fetch_one_from_position topic q (map_of (cn_position c) (topic, q)) (cn_group_id c) br' =
      Ok (Some (?mk off))"
    using appended_fetch [OF mem' op' partition_reachable_wf [OF p(1)] p' sel(1,2), of "cn_group_id c"]
      p(2) off(2) c(3) sel(3,4) by simp
  from poll_once_single [where brs = "\<lambda>_. br'", OF c(1,2) this]
  show "poll_once (\<lambda>_. br') c = (Some (Ok (borrowed_new (?mk off))),
      (set_position (topic, q) (wrap_i64 (off + 1)) c)\<lparr>cn_poll_start := 1\<rparr>)"
    by simp
qed

end
