(* ===== verification/Provenance.thy ===== *)
theory Provenance
  imports Delivery
begin

text \<open>
  Where messages come from. A run of the broker is recorded with the sends that were made in it;
  whatever holds of every message that a send can store on a topic holds of every message that
  the partitions of the topic keep, and so of every message that a consumer receives. No message
  is made up, altered, or moved to another topic or partition.
\<close>

section \<open>What the partitions hold\<close>

definition all_stored ::
    "(string \<Rightarrow> 'v stored_message \<Rightarrow> bool) \<Rightarrow> 'v in_memory \<Rightarrow> bool" where
  "all_stored Q b \<longleftrightarrow> (\<forall>t i p. inmem_partition b t i = Some p \<longrightarrow>
     (\<forall>m \<in> set (buf_log (buffer p)). Q t m))"

lemma all_storedI:
  "(\<And>t i p m. inmem_partition b t i = Some p \<Longrightarrow> m \<in> set (buf_log (buffer p)) \<Longrightarrow> Q t m) \<Longrightarrow>
   all_stored Q b"
  by (simp add: all_stored_def)

lemma all_storedD:
  "all_stored Q b \<Longrightarrow> inmem_partition b t i = Some p \<Longrightarrow> m \<in> set (buf_log (buffer p)) \<Longrightarrow> Q t m"
  by (simp add: all_stored_def)

lemma all_stored_mono: "all_stored Q b \<Longrightarrow> (\<And>t m. Q t m \<Longrightarrow> R t m) \<Longrightarrow> all_stored R b"
  by (simp add: all_stored_def)

lemma append_message_holds:
  "set (buf_log (buffer (snd (append_message c mk p)))) \<subseteq>
     insert (mk (end_offset p)) (set (buf_log (buffer p)))"
  using append_message_suffix [of p c mk] set_drop_subset by fastforce

lemma partition_append_holds:
  assumes "m \<in> set (buf_log (buffer (snd (partition_append c k pl hs ts p))))"
  shows "m \<in> set (buf_log (buffer p)) \<or>
    (\<exists>i off ts at. m = stored_new k pl (topic_name p) i off ts hs at)"
  using assms append_message_holds unfolding partition_append_def Let_def by fastforce

lemma partition_append_typed_holds:
  assumes "m \<in> set (buf_log (buffer (snd (partition_append_typed c tp tk hs ts p))))"
  shows "m \<in> set (buf_log (buffer p)) \<or>
    (\<exists>i off ts at. m = stored_new_typed tp tk (topic_name p) i off ts hs at)"
  using assms append_message_holds unfolding partition_append_typed_def Let_def by fastforce

lemma all_stored_ensure:
  assumes "all_stored Q b"
  shows "all_stored Q (snd (inmem_ensure_topic name n b))"
proof (cases "im_shutdown b")
  case True
  then show ?thesis using assms by (simp add: inmem_closed)
next
  case False
  then show ?thesis
    using assms by (auto simp: all_stored_def inmem_partition_ensure partition_new_def split: if_splits)
qed

lemma all_stored_shutdown:
  assumes "all_stored Q b" and "wf_backend b"
  shows "all_stored Q (snd (inmem_shutdown b))"
proof (rule all_storedI)
  fix t i p m
  assume p: "inmem_partition (snd (inmem_shutdown b)) t i = Some p" and m: "m \<in> set (buf_log (buffer p))"
  then obtain q where "inmem_partition b t i = Some q" "p = notify q"
    using wf_backend_topic(1) [OF assms(2)]
    by (auto simp: inmem_partition_Some map_of_shutdown topic_get_notify_all split: res.splits)
  then show "Q t m" using assms(1) m by (auto dest: all_storedD)
qed

lemma all_stored_produce_with:
  assumes stored: "all_stored Q b"
    and app: "\<And>t ts i q m. map_of (im_topics b) name = Some t \<Longrightarrow>
      topic_get_partition (snd (app ts t)) i = Ok q \<Longrightarrow> m \<in> set (buf_log (buffer q)) \<Longrightarrow>
      (\<exists>p. topic_get_partition t i = Ok p \<and> m \<in> set (buf_log (buffer p))) \<or> Q name m"
  shows "all_stored Q (snd (inmem_produce_with c name timestamp app b))"
proof (cases "im_shutdown b \<or> map_of (im_topics b) name = None")
  case True
  then show ?thesis
    using stored by (auto simp: inmem_produce_with_def inmem_check_shutdown_def inmem_get_topic_def)
next
  case False
  then obtain t where t: "\<not> im_shutdown b" "map_of (im_topics b) name = Some t" by auto
  show ?thesis
  proof (rule all_storedI)
    fix name' i q m
    assume q: "inmem_partition (snd (inmem_produce_with c name timestamp app b)) name' i = Some q"
      and m: "m \<in> set (buf_log (buffer q))"
    show "Q name' m"
    proof (cases "name' = name")
      case True
      then obtain ts where "topic_get_partition (snd (app ts t)) i = Ok q"
        using q by (auto simp: inmem_produce_with_open [OF t] Let_def inmem_partition_set_topic
            split: res.splits)
      from app [OF t(2) this m] show ?thesis
        using True t(2) all_storedD [OF stored] by (auto simp: inmem_partition_Some)
    next
      case False
      then show ?thesis
        using q m all_storedD [OF stored]
        by (auto simp: inmem_produce_with_open [OF t] Let_def inmem_partition_set_topic)
    qed
  qed
qed

lemma all_stored_produce:
  assumes "all_stored Q b" and "wf_backend b"
    and "\<And>i off ts at. Q name (stored_new k pl name i off ts hs at)"
  shows "all_stored Q (snd (inmem_produce c name j k pl hs ts b))"
  unfolding inmem_produce_def
proof (rule all_stored_produce_with [OF assms(1)])
  fix t ts i q m
  assume t: "map_of (im_topics b) name = Some t"
    and q: "topic_get_partition (snd (topic_produce c j k pl hs ts t)) i = Ok q"
    and m: "m \<in> set (buf_log (buffer q))"
  note tp = wf_backend_topic [OF assms(2) t]
  show "(\<exists>p. topic_get_partition t i = Ok p \<and> m \<in> set (buf_log (buffer p))) \<or> Q name m"
  proof (cases "i = j")
    case False
    then show ?thesis using q m by (auto simp: topic_produce_other)
  next
    case True
    show ?thesis
    proof (cases "topic_get_partition t j")
      case (Ok p)
      then have "q = snd (partition_append c k pl hs ts p)"
        using q True by (simp add: topic_produce_Ok topic_get_set_partition topic_get_partition_Ok)
      then show ?thesis
        using partition_append_holds [of m c k pl hs ts p] m assms(3) Ok True
          wf_topic_partition(2) [OF tp(1) Ok] tp(2) by auto
    qed (use q m True in \<open>simp_all add: topic_produce_def\<close>)
  qed
qed

lemma all_stored_produce_typed:
  assumes "all_stored Q b" and "wf_backend b"
    and "\<And>i off ts at. Q name (stored_new_typed tp tk name i off ts hs at)"
  shows "all_stored Q (snd (inmem_produce_typed c name j tp tk hs ts b))"
  unfolding inmem_produce_typed_def
proof (rule all_stored_produce_with [OF assms(1)])
  fix t ts i q m
  assume t: "map_of (im_topics b) name = Some t"
    and q: "topic_get_partition (snd (topic_produce_typed c j tp tk hs ts t)) i = Ok q"
    and m: "m \<in> set (buf_log (buffer q))"
  note tp = wf_backend_topic [OF assms(2) t]
  show "(\<exists>p. topic_get_partition t i = Ok p \<and> m \<in> set (buf_log (buffer p))) \<or> Q name m"
  proof (cases "i = j")
    case False
    then show ?thesis using q m by (auto simp: topic_produce_typed_other)
  next
    case True
    show ?thesis
    proof (cases "topic_get_partition t j")
      case (Ok p)
      then have "q = snd (partition_append_typed c tp tk hs ts p)"
        using q True by (simp add: topic_produce_typed_Ok topic_get_set_partition topic_get_partition_Ok)
      then show ?thesis
        using partition_append_typed_holds [of m c tp tk hs ts p] m assms(3) Ok True
          wf_topic_partition(2) [OF tp(1) Ok] tp(2) by auto
    qed (use q m True in \<open>simp_all add: topic_produce_typed_def\<close>)
  qed
qed


section \<open>Recorded runs of the broker\<close>

datatype 'v sending =
    SendBytes (sending_topic: string) "bytes option" "bytes option" "owned_headers option"
  | SendTyped (sending_topic: string) "'v dyn_any" "'v dyn_any option" "owned_headers option"

text \<open>The messages that a send can store.\<close>

fun carries :: "'v sending \<Rightarrow> 'v stored_message \<Rightarrow> bool" where
  "carries (SendBytes t k pl hs) m \<longleftrightarrow> msg_topic m = t \<and> msg_key m = k \<and> msg_payload m = pl \<and>
     msg_headers m = hs \<and> msg_typed_payload m = None \<and> msg_typed_key m = None"
| "carries (SendTyped t tp tk hs) m \<longleftrightarrow> msg_topic m = t \<and> msg_key m = None \<and> msg_payload m = None \<and>
     msg_headers m = hs \<and> msg_typed_payload m = Some tp \<and> msg_typed_key m = tk"

inductive quiet_step :: "('v in_memory, 'v) broker \<Rightarrow> ('v in_memory, 'v) broker \<Rightarrow> bool" where
  quiet_ensure: "quiet_step br (snd (broker_ensure_topic topic n br))"
| quiet_join: "quiet_step br (snd (broker_join_group gid m topics br))"
| quiet_leave: "quiet_step br (snd (broker_leave_group gid m br))"
| quiet_commit: "quiet_step br (snd (broker_commit_offset gid topic p off br))"
| quiet_shutdown: "quiet_step br (snd (broker_shutdown br))"

inductive broker_run ::
    "('v in_memory, 'v) broker \<Rightarrow> 'v sending list \<Rightarrow> ('v in_memory, 'v) broker \<Rightarrow> bool"
  for br0 :: "('v in_memory, 'v) broker" where
  run_begin: "broker_run br0 [] br0"
| run_quiet: "broker_run br0 evs br \<Longrightarrow> quiet_step br br' \<Longrightarrow> broker_run br0 evs br'"
| run_send: "broker_run br0 evs br \<Longrightarrow> broker_room br \<Longrightarrow>
    broker_run br0 (evs @ [SendBytes topic k pl hs]) (snd (broker_produce c topic part k pl hs ts br))"
| run_send_typed: "broker_run br0 evs br \<Longrightarrow> broker_room br \<Longrightarrow>
    broker_run br0 (evs @ [SendTyped topic tp tk hs])
      (snd (broker_produce_typed c topic part tp tk hs ts br))"

lemma quiet_broker_step: "quiet_step br br' \<Longrightarrow> broker_step br br'"
  by (induction rule: quiet_step.induct) (auto intro: broker_step.intros)

text \<open>The record of a run is a record of what the broker's steps did, and every run of steps has one.\<close>

lemma broker_run_steps: "broker_run br0 evs br \<Longrightarrow> broker_step\<^sup>*\<^sup>* br0 br"
proof (induction rule: broker_run.induct)
  case (run_quiet evs br br')
  then show ?case using quiet_broker_step by (meson rtranclp.rtrancl_into_rtrancl)
next
  case (run_send evs br topic k pl hs c part ts)
  then show ?case using kstep_produce by (meson rtranclp.rtrancl_into_rtrancl)
next
  case (run_send_typed evs br topic tp tk hs c part ts)
  then show ?case using kstep_produce_typed by (meson rtranclp.rtrancl_into_rtrancl)
qed simp

lemma broker_steps_run:
  assumes "broker_step\<^sup>*\<^sup>* br0 br"
  shows "\<exists>evs. broker_run br0 evs br"
  using assms
proof (induction rule: rtranclp_induct)
  case base
  then show ?case using run_begin by blast
next
  case (step y z)
  then obtain evs where run: "broker_run br0 evs y" by blast
  from step.hyps(2) show ?case
  proof (cases rule: broker_step.cases)
    case (kstep_produce c topic part k pl hs ts)
    then show ?thesis using run_send [OF run] by blast
  next
    case (kstep_produce_typed c topic part tp tk hs ts)
    then show ?thesis using run_send_typed [OF run] by blast
  qed (use run in \<open>blast intro: run_quiet quiet_step.intros\<close>)+
qed

lemma all_stored_broker_ensure:
  assumes "mem_broker h br" and "all_stored Q (bk_backend br)"
  shows "all_stored Q (bk_backend (snd (broker_ensure_topic topic n br)))"
  using all_stored_ensure [OF assms(2)]
  by (simp add: broker_ensure_topic_def on_backend_def split_beta mem_brokerD(1) [OF assms(1)])

lemma all_stored_join:
  assumes mem: "mem_broker h br" and st: "all_stored Q (bk_backend br)"
  shows "all_stored Q (bk_backend (snd (broker_join_group gid m topics br)))"
proof -
  let ?I = "\<lambda>s. mem_broker h s \<and> all_stored Q (bk_backend s)"
  have "?I (snd (ensure_default t s))" if "?I s" for t s
    using that all_stored_broker_ensure [of h s Q] by (simp add: ensure_default_def mem_broker_ensure)
  then have "?I (snd (st_for ensure_default topics br))"
    using mem st by (intro st_for_inv [where I = ?I]) blast+
  then show ?thesis
    using st unfolding broker_join_group_def
    by (intro st_bind_inv [where I = "\<lambda>s. all_stored Q (bk_backend s)"
            and J = "\<lambda>s. all_stored Q (bk_backend s)"])
      (simp_all add: st_read_def create_group_def join_entry_def split_beta)
qed

lemma all_stored_quiet:
  assumes "quiet_step br br'" and "mem_broker h br" and "all_stored Q (bk_backend br)"
  shows "all_stored Q (bk_backend br')"
  using assms
proof (induction rule: quiet_step.induct)
  case (quiet_shutdown br)
  then show ?case
    using all_stored_shutdown [OF quiet_shutdown(2) mem_brokerD(4) [OF quiet_shutdown(1)]]
    by (simp add: broker_shutdown_def Let_def on_backend_def split_beta
        mem_brokerD(1) [OF quiet_shutdown(1)])
qed (simp_all add: all_stored_broker_ensure all_stored_join)

definition ready_stored ::
    "(string \<Rightarrow> 'v stored_message \<Rightarrow> bool) \<Rightarrow> (string list \<Rightarrow> string list)
     \<Rightarrow> ('v in_memory, 'v) broker \<Rightarrow> bool" where
  "ready_stored Q h br \<longleftrightarrow> mem_broker h br \<and> broker_room br \<and> all_stored Q (bk_backend br)"

lemma ready_stored_ensure: "ready_stored Q h br \<Longrightarrow> ready_stored Q h (snd (ensure_default topic br))"
  unfolding ready_stored_def ensure_default_def
  by (blast intro: mem_broker_ensure broker_room_ensure all_stored_broker_ensure)

lemma ready_stored_partitioner: "ready_stored Q h br \<Longrightarrow> ready_stored Q h (br\<lparr>bk_partitioner := pt\<rparr>)"
  by (simp add: ready_stored_def mem_broker_def broker_room_def)

lemma all_stored_broker_produce:
  assumes "mem_broker h br" and "broker_room br" and "all_stored Q (bk_backend br)"
  shows "(\<And>i off ts at. Q topic (stored_new k pl topic i off ts hs at)) \<Longrightarrow>
      all_stored Q (bk_backend (snd (broker_produce c topic part k pl hs ts br)))"
    and "(\<And>i off ts at. Q topic (stored_new_typed tp tk topic i off ts hs at)) \<Longrightarrow>
      all_stored Q (bk_backend (snd (broker_produce_typed c topic part tp tk hs ts br)))"
proof -
  let ?I = "ready_stored Q h" and ?J = "\<lambda>s. all_stored Q (bk_backend s)"
  have start: "?I br" using assms by (simp add: ready_stored_def)
  have weak: "?J s" if "?I s" for s using that by (simp add: ready_stored_def)
  have mem: "mem_broker h s" if "?I s" for s using that by (simp add: ready_stored_def)
  show "?J (snd (broker_produce c topic part k pl hs ts br))"
    if Q: "\<And>i off ts at. Q topic (stored_new k pl topic i off ts hs at)"
  proof (rule broker_produce_keeps(1) [where I = ?I and J = ?J, OF assms(1) start mem
        ready_stored_ensure ready_stored_partitioner weak])
    show "?J (snd (on_backend (inmem_produce c topic p k pl hs ts) s))" if "?I s" for s p
      using that all_stored_produce [where name = topic and Q = Q and b = "bk_backend s" and k = k and pl = pl and hs = hs] mem_brokerD(4) [OF mem [OF that]] Q
      by (simp add: ready_stored_def on_backend_def split_beta)
  qed
  show "?J (snd (broker_produce_typed c topic part tp tk hs ts br))"
    if Q: "\<And>i off ts at. Q topic (stored_new_typed tp tk topic i off ts hs at)"
  proof (rule broker_produce_keeps(2) [where I = ?I and J = ?J, OF assms(1) start mem
        ready_stored_ensure ready_stored_partitioner weak])
    show "?J (snd (on_backend (inmem_produce_typed c topic p tp tk hs ts) s))" if "?I s" for s p
      using that all_stored_produce_typed [where name = topic and Q = Q and b = "bk_backend s" and tp = tp and tk = tk and hs = hs] mem_brokerD(4) [OF mem [OF that]] Q
      by (simp add: ready_stored_def on_backend_def split_beta)
  qed
qed

lemma broker_run_stored:
  assumes "broker_run br0 evs br" and "mem_broker h br0" and "hash_order h"
    and "im_topics (bk_backend br0) = []"
  shows "mem_broker h br \<and> all_stored (\<lambda>_ m. \<exists>ev \<in> set evs. carries ev m) (bk_backend br)"
  using assms
proof (induction rule: broker_run.induct)
  case run_begin
  then show ?case by (simp add: all_stored_def inmem_partition_def)
next
  case (run_quiet evs br br')
  then show ?case
    using all_stored_quiet [OF run_quiet.hyps(2)] mem_broker_step [OF quiet_broker_step] by blast
next
  case (run_send evs br topic k pl hs c part ts)
  let ?Q = "\<lambda>_ m. \<exists>ev \<in> set (evs @ [SendBytes topic k pl hs]). carries ev m"
  have mem: "mem_broker h br" and "all_stored (\<lambda>_ m. \<exists>ev \<in> set evs. carries ev m) (bk_backend br)"
    using run_send.IH run_send.prems by blast+
  then have "all_stored ?Q (bk_backend br)" by (auto elim: all_stored_mono)
  then show ?case
    using all_stored_broker_produce(1) [OF mem run_send.hyps(2), of ?Q]
      broker_produce_good(1) [OF mem run_send.hyps(2)]
    by (simp add: stored_new_def)
next
  case (run_send_typed evs br topic tp tk hs c part ts)
  let ?Q = "\<lambda>_ m. \<exists>ev \<in> set (evs @ [SendTyped topic tp tk hs]). carries ev m"
  have mem: "mem_broker h br" and "all_stored (\<lambda>_ m. \<exists>ev \<in> set evs. carries ev m) (bk_backend br)"
    using run_send_typed.IH run_send_typed.prems by blast+
  then have "all_stored ?Q (bk_backend br)" by (auto elim: all_stored_mono)
  then show ?case
    using all_stored_broker_produce(2) [OF mem run_send_typed.hyps(2), of ?Q]
      broker_produce_good(2) [OF mem run_send_typed.hyps(2)]
    by (simp add: stored_new_typed_def)
qed


section \<open>What a consumer receives\<close>

lemma fetched_stored:
  assumes mem: "mem_broker h br" and st: "all_stored Q (bk_backend br)"
    and f: "fetch_one_from_position t i pos gid br = Ok (Some m)"
  shows "Q t m \<and> msg_topic m = t"
proof -
  obtain p where p: "inmem_partition (bk_backend br) t i = Some p" "read_one p (msg_offset m) = Ok (Some m)"
    "first_offset p \<le> msg_offset m" "msg_offset m < end_offset p" "msg_topic m = t"
    using fetch_message [OF mem f] by blast
  have "wf_partition p" using mem_brokerD(4) [OF mem] p(1) by (rule inmem_partition_wf)
  then have "m \<in> set (buf_log (buffer p))" using read_one_hit [of p "msg_offset m"] p(2-4) by auto
  then show ?thesis using all_storedD [OF st p(1)] p(5) by blast
qed

text \<open>A poll leaves the assignment and the pause flags alone. A message it returns was fetched in one
  of its fetches, from a partition of the assignment; an error it returns is one that a fetch met.\<close>

lemma poll_scan_keeps:
  assumes "poll_scan brs start len k n c = (r, c')"
    and "len = length (tpl_elements (cn_assigned c))" "0 < len"
  shows "cn_assigned c' = cn_assigned c"
  using assms
proof (induction n arbitrary: k c)
  case (Suc n)
  from Suc.prems show ?case
  proof (cases rule: poll_scan_Suc)
    case next_elem
    then show ?thesis using Suc.IH Suc.prems(2,3) by blast
  next
    case (adjust t i off)
    then show ?thesis using Suc.IH [OF adjust(3)] Suc.prems(2,3) by simp
  qed simp_all
qed simp

lemma poll_once_keeps:
  assumes "poll_once brs c = (r, c')"
  shows "cn_assigned c' = cn_assigned c"
proof (cases "length (tpl_elements (cn_assigned c)) = 0")
  case False
  then show ?thesis
    using assms by (auto simp: poll_once_def Let_def intro: poll_scan_keeps [OF _ refl])
qed (use assms in \<open>simp add: poll_once_def\<close>)

definition fetched_from :: "(nat \<Rightarrow> ('b, 'v) broker) \<Rightarrow> rmq_consumer \<Rightarrow> 'v stored_message option res \<Rightarrow> bool" where
  "fetched_from brs c x \<longleftrightarrow> (\<exists>j pos gid. \<exists>key \<in> set (tpl_keys (cn_assigned c)).
     fetch_one_from_position (fst key) (snd key) pos gid (brs j) = x)"

lemma fetched_fromI:
  assumes "fetch_at (brs k) c (scan_key start len k c) = x"
    and "len = length (tpl_elements (cn_assigned c))" "0 < len"
  shows "fetched_from brs c x"
proof -
  have "(start + k) mod len < length (tpl_keys (cn_assigned c))"
    using assms(2,3) by (simp add: tpl_keys_def)
  then have "scan_key start len k c \<in> set (tpl_keys (cn_assigned c))" by (simp add: scan_key_def)
  then show ?thesis using assms(1) unfolding fetched_from_def by blast
qed

definition poll_outcome ::
    "(nat \<Rightarrow> ('b, 'v) broker) \<Rightarrow> rmq_consumer \<Rightarrow> 'v borrowed_message res option \<Rightarrow> bool" where
  "poll_outcome brs c r \<longleftrightarrow>
     (case r of
        None \<Rightarrow> True
      | Some (Ok b) \<Rightarrow> fetched_from brs c (Ok (Some (bm_inner b)))
      | Some (Err e) \<Rightarrow> fetched_from brs c (Err e) \<and> (\<forall>t. e \<noteq> TopicNotFound t) \<and>
          (\<forall>t i. e \<noteq> PartitionOutOfRange t i) \<and> (\<forall>t i off. e \<noteq> OffsetOutOfRange t i off)
      | Some (Panic x) \<Rightarrow> fetched_from brs c (Panic x))"

lemma poll_outcome_cong:
  "cn_assigned c' = cn_assigned c \<Longrightarrow> poll_outcome brs c' r = poll_outcome brs c r"
  unfolding poll_outcome_def fetched_from_def by (simp only:)

lemma poll_scan_outcome:
  assumes "poll_scan brs start len k n c = (r, c')"
    and "len = length (tpl_elements (cn_assigned c))" "0 < len"
  shows "poll_outcome brs c r"
  using assms
proof (induction n arbitrary: k c)
  case 0
  then show ?case by (auto simp: poll_outcome_def)
next
  case (Suc n)
  note here = fetched_fromI [where brs = brs and k = k and start = start, OF _ Suc.prems(2,3)]
  from Suc.prems show ?case
  proof (cases rule: poll_scan_Suc)
    case next_elem
    then show ?thesis using Suc.IH Suc.prems(2,3) by blast
  next
    case (adjust t i off)
    then show ?thesis
      using Suc.IH [OF adjust(3)] Suc.prems(2,3)
        poll_outcome_cong [of "set_position (scan_key start len k c) off c" c brs r] by simp
  next
    case (message m)
    then show ?thesis using here [OF message(2)] by (simp add: poll_outcome_def borrowed_new_def)
  next
    case (failed e)
    then show ?thesis using here [OF failed(1)] by (simp add: poll_outcome_def)
  next
    case (panicked x)
    then show ?thesis using here [OF panicked(1)] by (simp add: poll_outcome_def)
  qed
qed

lemma poll_once_outcome:
  assumes "poll_once brs c = (r, c')"
  shows "poll_outcome brs c r"
proof (cases "length (tpl_elements (cn_assigned c)) = 0")
  case True
  then show ?thesis using assms by (auto simp: poll_once_def poll_outcome_def)
next
  case False
  then show ?thesis
    using assms by (auto simp: poll_once_def Let_def intro: poll_scan_outcome [OF _ refl])
qed

lemma poll_loop_outcome:
  "poll_loop fuel brs now deadline k c = Some (r, c') \<Longrightarrow> \<exists>k. poll_outcome (brs k) c r"
proof (induction fuel arbitrary: k c)
  case (Suc fuel)
  obtain r1 c1 where r: "poll_once (brs k) c = (r1, c1)" by fastforce
  show ?case
  proof (cases r1)
    case (Some x)
    then have "r = r1" using Suc.prems r by simp
    then show ?thesis using poll_once_outcome [OF r] by blast
  next
    case None
    show ?thesis
    proof (cases "deadline \<le> now k")
      case True
      then show ?thesis using Suc.prems r None by (auto simp: poll_outcome_def)
    next
      case False
      then have "poll_loop fuel brs now deadline (Suc k) c1 = Some (r, c')" using Suc.prems r None by simp
      from Suc.IH [OF this] show ?thesis
        unfolding poll_outcome_cong [OF poll_once_keeps [OF r]] .
    qed
  qed
qed simp

lemma poll_outcome_poll:
  assumes "poll fuel brs begun now timeout c = Some (r, c')"
  shows "\<exists>k. poll_outcome (brs k) c r"
  using assms poll_loop_outcome by (auto simp: poll_def)

lemma poll_fetched:
  assumes "poll fuel brs begun now timeout c = Some (Some (Ok b), c')"
    and "\<And>k i. broker_run br0 (evs k i) (brs k i)" and "mem_broker h br0" and "hash_order h"
    and "im_topics (bk_backend br0) = []"
  shows "(\<exists>k i. \<exists>ev \<in> set (evs k i). carries ev (bm_inner b)) \<and>
    msg_topic (bm_inner b) \<in> fst ` set (tpl_keys (cn_assigned c))"
proof -
  obtain k j pos gid key where f: "key \<in> set (tpl_keys (cn_assigned c))"
    "fetch_one_from_position (fst key) (snd key) pos gid (brs k j) = Ok (Some (bm_inner b))"
    using poll_outcome_poll [OF assms(1)] by (auto simp: poll_outcome_def fetched_from_def)
  from broker_run_stored [OF assms(2-5), of k j] fetched_stored [OF _ _ f(2)] f(1)
  show ?thesis by blast
qed

text \<open>What a poll can fail with.\<close>

lemma fetched_from_mem:
  assumes "\<And>i. mem_broker h (brs i)"
  shows "\<not> fetched_from brs c (Panic x)"
    and "fetched_from brs c (Err e) \<Longrightarrow> \<forall>t. e \<noteq> TopicNotFound t \<Longrightarrow>
      \<forall>t i. e \<noteq> PartitionOutOfRange t i \<Longrightarrow> \<forall>t i off. e \<noteq> OffsetOutOfRange t i off \<Longrightarrow>
      e = BrokerShutdown \<and> (\<exists>j. bk_shutdown (brs j))"
proof -
  have open_closed: "bk_shutdown (brs j) \<and> fetch_one_from_position t i pos gid (brs j) = Err BrokerShutdown \<or>
    (\<exists>x. fetch_one_from_position t i pos gid (brs j) = Ok x) \<or>
    (\<exists>e. fetch_one_from_position t i pos gid (brs j) = Err e \<and>
       ((\<exists>t i off. e = OffsetOutOfRange t i off) \<or> (\<exists>t. e = TopicNotFound t) \<or>
        (\<exists>t i. e = PartitionOutOfRange t i)))" for j t i pos gid
    using fetch_open [OF assms] broker_closed(3) by (cases "bk_shutdown (brs j)") blast+
  show "\<not> fetched_from brs c (Panic x)"
  proof
    assume "fetched_from brs c (Panic x)"
    then obtain j pos gid key where "fetch_one_from_position (fst key) (snd key) pos gid (brs j) = Panic x"
      unfolding fetched_from_def by blast
    then show False using open_closed [of j "fst key" "snd key" pos gid] by auto
  qed
  show "e = BrokerShutdown \<and> (\<exists>j. bk_shutdown (brs j))"
    if f: "fetched_from brs c (Err e)" and e: "\<forall>t. e \<noteq> TopicNotFound t"
      "\<forall>t i. e \<noteq> PartitionOutOfRange t i" "\<forall>t i off. e \<noteq> OffsetOutOfRange t i off"
  proof -
    obtain j pos gid key where "fetch_one_from_position (fst key) (snd key) pos gid (brs j) = Err e"
      using f unfolding fetched_from_def by blast
    then show ?thesis using open_closed [of j "fst key" "snd key" pos gid] e by auto
  qed
qed

lemma poll_error_shutdown:
  assumes "poll fuel brs begun now timeout c = Some (Some r, c')"
    and "\<And>k i. mem_broker h (brs k i)"
  shows "(\<exists>b. r = Ok b) \<or> r = Err BrokerShutdown \<and> (\<exists>k i. bk_shutdown (brs k i))"
proof -
  obtain k where k: "poll_outcome (brs k) c (Some r)" using poll_outcome_poll [OF assms(1)] by blast
  show ?thesis
  proof (cases r)
    case (Err e)
    then have "fetched_from (brs k) c (Err e)" "\<forall>t. e \<noteq> TopicNotFound t"
      "\<forall>t i. e \<noteq> PartitionOutOfRange t i" "\<forall>t i off. e \<noteq> OffsetOutOfRange t i off"
      using k by (simp_all add: poll_outcome_def)
    from fetched_from_mem(2) [where brs = "brs k" and h = h, OF assms(2) this] Err show ?thesis by blast
  next
    case (Panic x)
    then show ?thesis
      using k fetched_from_mem(1) [where brs = "brs k" and h = h, OF assms(2)] by (simp add: poll_outcome_def)
  qed simp
qed

lemma carries_case:
  "carries ev m \<longleftrightarrow>
    (case ev of
       SendBytes t key pl hs \<Rightarrow> msg_topic m = t \<and> msg_key m = key \<and> msg_payload m = pl \<and>
         msg_headers m = hs \<and> msg_typed_payload m = None \<and> msg_typed_key m = None
     | SendTyped t tp tk hs \<Rightarrow> msg_topic m = t \<and> msg_key m = None \<and> msg_payload m = None \<and>
         msg_headers m = hs \<and> msg_typed_payload m = Some tp \<and> msg_typed_key m = tk)"
  by (cases ev) simp_all

lemma new_broker_empty:
  "broker_new h config = Ok br0 \<or> broker_with_partitioner h config pt = Ok br0 \<Longrightarrow>
   im_topics (bk_backend br0) = []"
  by (auto simp: broker_new_def broker_with_partitioner_def inmem_new_def)

lemma new_broker_mem:
  "broker_new h config = Ok br0 \<or> broker_with_partitioner h config pt = Ok br0 \<Longrightarrow> hash_order h \<Longrightarrow>
   mem_broker h br0"
  by (blast intro: broker_reachable_mem broker_reachable.intros)


section \<open>Properties\<close>

text \<open>C12: Integrity. Whatever happens on a broker since it was created (\<open>evs k i\<close> are the sends
  made up to fetch \<open>i\<close> of attempt \<open>k\<close> of a poll), a message that a consumer's poll returns is one
  that was sent before, on the topic it was sent to, and with the key, payload and headers it was
  sent with; a typed message carries the same objects. A raw message never becomes a typed one,
  nor the other way round.\<close>

theorem polled_message_was_sent:
  assumes "broker_new h config = Ok br0 \<or> broker_with_partitioner h config pt = Ok br0"
    and "hash_order h" and "\<And>k i. broker_run br0 (evs k i) (brs k i)"
    and "poll fuel brs begun now timeout c = Some (Some (Ok b), c')"
  shows "\<exists>k i. \<exists>ev \<in> set (evs k i).
    (case ev of
       SendBytes t key pl hs \<Rightarrow> msg_topic (bm_inner b) = t \<and> msg_key (bm_inner b) = key \<and>
         msg_payload (bm_inner b) = pl \<and> msg_headers (bm_inner b) = hs \<and>
         msg_typed_payload (bm_inner b) = None \<and> msg_typed_key (bm_inner b) = None
     | SendTyped t tp tk hs \<Rightarrow> msg_topic (bm_inner b) = t \<and> msg_key (bm_inner b) = None \<and>
         msg_payload (bm_inner b) = None \<and> msg_headers (bm_inner b) = hs \<and>
         msg_typed_payload (bm_inner b) = Some tp \<and> msg_typed_key (bm_inner b) = tk)"
  using poll_fetched [OF assms(4,3) new_broker_mem [OF assms(1,2)] assms(2) new_broker_empty [OF assms(1)]]
  unfolding carries_case by (rule conjunct1)

lemma demo_room: "broker_room demo_broker"
  by (simp add: broker_room_def inmem_room_def)

lemma demo_broker_run:
  "broker_run demo_broker [SendBytes ''t'' (Some [2]) (Some [7]) None]
     (snd (broker_produce demo_clock ''t'' (Some 1) (Some [2]) (Some [7]) None (Some 5) demo_broker))"
  using run_send [OF run_begin demo_room] by simp

lemma poll_at_once:
  assumes "fst (poll_once (brs 0) c) = Some r"
  shows "\<exists>c'. poll (Suc n) brs begun now timeout c = Some (Some r, c')"
  using assms by (cases "poll_once (brs 0) c") (auto simp: poll_def)

theorem polled_message_was_sent_witness:
  "\<exists>b c'. poll 1 (\<lambda>_ _. snd (broker_produce demo_clock ''t'' (Some 1) (Some [2]) (Some [7]) None (Some 5)
      demo_broker)) 0 (\<lambda>_. 0) 0 waiting_consumer = Some (Some (Ok b), c') \<and>
    msg_payload (bm_inner b) = Some [7] \<and> msg_topic (bm_inner b) = ''t''"
proof -
  let ?brs = "\<lambda>_ _. snd (broker_produce demo_clock ''t'' (Some 1) (Some [2]) (Some [7]) None (Some 5) demo_broker)"
  obtain b c' where p: "poll (Suc 0) ?brs 0 (\<lambda>_. 0) 0 waiting_consumer = Some (Some (Ok b), c')"
    using poll_at_once [of ?brs waiting_consumer, OF demo_polled] by blast
  from polled_message_was_sent [where evs = "\<lambda>_ _. [SendBytes ''t'' (Some [2]) (Some [7]) None]",
      OF disjI1 [OF demo_broker_new] hash_order_remdups demo_broker_run p]
  show ?thesis using p by auto
qed

text \<open>C29: Errors of a poll. However the operations of a broker on the in-memory backend interleave
  with the fetches of a poll, the poll never panics, and the only error it returns is
  \<open>BrokerShutdown\<close>, which it returns only after the broker was shut down: missing topics, missing
  partitions and positions outside the log are never passed on to the application.\<close>

theorem poll_error_is_shutdown:
  assumes "\<And>k i. broker_reachable h (brs k i)" and "hash_order h"
    and "poll fuel brs begun now timeout c = Some (r, c')"
  shows "r = None \<or> (\<exists>b. r = Some (Ok b)) \<or>
    r = Some (Err BrokerShutdown) \<and> (\<exists>k i. bk_shutdown (brs k i))"
proof (cases r)
  case (Some x)
  have "mem_broker h (brs k i)" for k i using assms(1,2) by (rule broker_reachable_mem)
  from poll_error_shutdown [OF assms(3) [unfolded Some] this] Some show ?thesis by simp
qed simp

theorem poll_error_is_shutdown_witness:
  "\<exists>r c'. poll 1 (\<lambda>_ _. demo_broker) 0 (\<lambda>_. 0) 0 demo_consumer = Some (r, c') \<and>
     (r = None \<or> (\<exists>b. r = Some (Ok b)))"
proof -
  have "poll 1 (\<lambda>_ _. demo_broker) 0 (\<lambda>_. 0) 0 demo_consumer \<noteq> None"
    by (simp add: poll_def split: option.splits prod.splits)
  then obtain r c' where p: "poll 1 (\<lambda>_ _. demo_broker) 0 (\<lambda>_. 0) 0 demo_consumer = Some (r, c')"
    by auto
  show ?thesis
    using poll_error_is_shutdown [OF demo_broker_reachable hash_order_remdups p] p by auto
qed

end
