(* ===== verification/Draining.thy ===== *)
theory Draining
  imports Provenance
begin

text \<open>
  What a series of polls of one consumer (\<open>src/base_consumer.rs\<close>) amounts to: no partition is starved
  by the others, and polling a broker that stands still gives every message that is there, once,
  and then nothing.
\<close>

section \<open>No partition is starved\<close>

text \<open>How many partitions a scan looks at before it comes to index \<open>idx\<close>.\<close>

definition scan_distance :: "usize \<Rightarrow> rmq_consumer \<Rightarrow> usize \<Rightarrow> usize" where
  "scan_distance len c idx = (idx + (len - cn_poll_start c mod len)) mod len"

lemma scan_distance_index:
  assumes "idx < len"
  shows "scan_distance len c idx < len" and "(cn_poll_start c mod len + scan_distance len c idx) mod len = idx"
proof -
  have s: "cn_poll_start c mod len < len" using assms by simp
  show "scan_distance len c idx < len" using assms by (simp add: scan_distance_def)
  have "(cn_poll_start c mod len + scan_distance len c idx) mod len =
      (cn_poll_start c mod len + (idx + (len - cn_poll_start c mod len))) mod len"
    by (simp add: scan_distance_def mod_simps)
  also have "\<dots> = (idx + len) mod len" using s by (simp add: algebra_simps)
  finally show "(cn_poll_start c mod len + scan_distance len c idx) mod len = idx" using assms by simp
qed

lemma scan_distance_unique:
  assumes "idx < len" and "d < len" and "(cn_poll_start c mod len + d) mod len = idx"
  shows "scan_distance len c idx = d"
proof -
  let ?s = "cn_poll_start c mod len"
  have s: "?s < len" using assms(1) by simp
  have "idx + (len - ?s) = d + len \<or> idx + (len - ?s) = d"
    using assms(2,3) s by (cases "?s + d < len") (simp_all only: mod_if [of "?s + d" len] mod_less if_True if_False, arith+)
  then show ?thesis using assms(2) unfolding scan_distance_def by (metis mod_add_self2 mod_less)
qed

text \<open>The scan of one poll: it ends with a message, and if that is not one of the partition \<open>key\<close> at
  index \<open>idx\<close>, then the next scan comes to that index earlier.\<close>

lemma scan_towards:
  fixes len :: nat
  assumes "poll_scan brs start len k n c = (r, c')"
    and len: "len = length (tpl_elements (cn_assigned c))" "0 < len"
    and d: "k \<le> d" "d < k + n" "scan_key start len d c = key" "key \<notin> set (cn_paused c)"
    and f: "\<And>i. \<exists>m. fetch_at (brs i) c key = Ok (Some m)"
    and mem: "\<And>i. mem_broker h (brs i)" "\<And>i. \<not> bk_shutdown (brs i)"
  shows "\<exists>b. r = Some (Ok b) \<and> cn_assigned c' = cn_assigned c \<and> cn_paused c' = cn_paused c \<and>
    cn_group_id c' = cn_group_id c \<and>
    ((msg_topic (bm_inner b), msg_partition (bm_inner b)) = key \<or>
     map_of (cn_position c') key = map_of (cn_position c) key \<and>
     (\<exists>j < d. cn_poll_start c' = (start + j) mod len + 1))"
  using assms(1-8)
proof (induction n arbitrary: k c)
  case 0
  then show ?case by simp
next
  case (Suc n)
  let ?key = "scan_key start len k c"
  have mine: "fetch_at (brs k) c key \<noteq> Ok None" "fetch_at (brs k) c key \<noteq> Err e" "fetch_at (brs k) c key \<noteq> Panic x"
    for e x using Suc.prems(8) [of k] by auto
  have later: "Suc k \<le> d" "d < Suc k + n" if "?key \<noteq> key" using that Suc.prems(4,5,6) by (cases "d = k"; auto)+
  from Suc.prems(1-3) show ?case
  proof (cases rule: poll_scan_Suc)
    case next_elem
    then have "?key \<noteq> key" using mine Suc.prems(7) by auto
    from Suc.IH [OF next_elem(1) Suc.prems(2,3) later [OF this] Suc.prems(6-8)] show ?thesis .
  next
    case (adjust t' i' off)
    then have ne: "?key \<noteq> key" using mine by auto
    from Suc.IH [OF adjust(3) _ Suc.prems(3) later [OF this]] Suc.prems(2,6-8) ne
    show ?thesis by (simp add: scan_key_def)
  next
    case (message m)
    obtain t i where ti: "?key = (t, i)" by fastforce
    have "msg_topic m = t \<and> msg_partition m = i"
      using fetch_message [OF mem(1) [of k], of t i] message(2) unfolding ti by fastforce
    then show ?thesis
      using message(3,4) ti later(1) by (cases "?key = key") (auto simp: borrowed_new_def intro!: exI [of _ k])
  next
    case (failed e)
    then show ?thesis
      using fetch_open [OF mem(1) [of k] mem(2) [of k], of "fst ?key" "snd ?key" "map_of (cn_position c) ?key" "cn_group_id c"] by auto
  next
    case (panicked x)
    then show ?thesis
      using fetch_open [OF mem(1) [of k] mem(2) [of k], of "fst ?key" "snd ?key" "map_of (cn_position c) ?key" "cn_group_id c"] by auto
  qed
qed

lemma poll_towards:
  assumes "poll_once brs c = (r, c')"
    and len: "len = length (tpl_elements (cn_assigned c))" and idx: "idx < len" "tpl_keys (cn_assigned c) ! idx = key"
    and "key \<notin> set (cn_paused c)" and "\<And>i. \<exists>m. fetch_at (brs i) c key = Ok (Some m)"
    and "\<And>i. mem_broker h (brs i)" "\<And>i. \<not> bk_shutdown (brs i)"
  shows "\<exists>b. r = Some (Ok b) \<and> cn_assigned c' = cn_assigned c \<and> cn_paused c' = cn_paused c \<and>
    cn_group_id c' = cn_group_id c \<and>
    ((msg_topic (bm_inner b), msg_partition (bm_inner b)) = key \<or>
     map_of (cn_position c') key = map_of (cn_position c) key \<and>
     scan_distance len c' idx < scan_distance len c idx)"
proof -
  let ?s = "cn_poll_start c mod len" and ?d = "scan_distance len c idx"
  have pos: "0 < len" using idx(1) by simp
  have scan: "poll_scan brs ?s len 0 len c = (r, c')"
    using assms(1) pos by (simp add: poll_once_def Let_def len)
  have d: "?d < len" "(?s + ?d) mod len = idx" using scan_distance_index [OF idx(1)] .
  have key: "scan_key ?s len ?d c = key" using d(2) idx(2) by (simp add: scan_key_def)
  obtain b where b: "r = Some (Ok b)" "cn_assigned c' = cn_assigned c" "cn_paused c' = cn_paused c"
    "cn_group_id c' = cn_group_id c"
    "(msg_topic (bm_inner b), msg_partition (bm_inner b)) = key \<or>
     map_of (cn_position c') key = map_of (cn_position c) key \<and>
     (\<exists>j < ?d. cn_poll_start c' = (?s + j) mod len + 1)"
    using scan_towards [OF scan len pos _ _ key assms(5-8)] d(1) by auto
  have "scan_distance len c' idx < ?d" if j: "j < ?d" "cn_poll_start c' = (?s + j) mod len + 1" for j
  proof -
    have "(cn_poll_start c' mod len + (?d - j - 1)) mod len = ((?s + j) mod len + (1 + (?d - j - 1))) mod len"
      unfolding j(2) mod_add_left_eq by (simp only: add.assoc)
    also have "\<dots> = (?s + ?d) mod len" using j(1) unfolding mod_add_left_eq by simp
    also have "\<dots> = idx" by (rule d(2))
    finally show ?thesis using scan_distance_unique [OF idx(1), of "?d - j - 1" c'] d(1) j(1) by simp
  qed
  then show ?thesis using b by blast
qed

text \<open>A series of polls.\<close>

lemma served_in_time:
  assumes "\<And>k. k < n \<Longrightarrow> poll_once (brs k) (cs k) = (rs k, cs (Suc k))"
    and "scan_distance len (cs 0) idx < n"
    and "len = length (tpl_elements (cn_assigned (cs 0)))" "idx < len" "tpl_keys (cn_assigned (cs 0)) ! idx = key"
    and "key \<notin> set (cn_paused (cs 0))"
    and "\<And>k i. \<exists>m. fetch_at (brs k i) (cs 0) key = Ok (Some m)"
    and "\<And>k i. mem_broker h (brs k i)" "\<And>k i. \<not> bk_shutdown (brs k i)"
  shows "\<exists>k < n. \<exists>b. rs k = Some (Ok b) \<and> (msg_topic (bm_inner b), msg_partition (bm_inner b)) = key"
  using assms
proof (induction n arbitrary: brs cs rs)
  case 0
  then show ?case by simp
next
  case (Suc n)
  have first: "poll_once (brs 0) (cs 0) = (rs 0, cs (Suc 0))" using Suc.prems(1) by simp
  obtain b where b: "rs 0 = Some (Ok b)" "cn_assigned (cs (Suc 0)) = cn_assigned (cs 0)"
    "cn_paused (cs (Suc 0)) = cn_paused (cs 0)" "cn_group_id (cs (Suc 0)) = cn_group_id (cs 0)"
    "(msg_topic (bm_inner b), msg_partition (bm_inner b)) = key \<or>
     map_of (cn_position (cs (Suc 0))) key = map_of (cn_position (cs 0)) key \<and>
     scan_distance len (cs (Suc 0)) idx < scan_distance len (cs 0) idx"
    using poll_towards [OF first Suc.prems(3-6) Suc.prems(7) [of 0] Suc.prems(8,9) [of 0]] by blast
  show ?case
  proof (cases "(msg_topic (bm_inner b), msg_partition (bm_inner b)) = key")
    case True
    then show ?thesis using b(1) by blast
  next
    case False
    then have later: "map_of (cn_position (cs (Suc 0))) key = map_of (cn_position (cs 0)) key"
      "scan_distance len (cs (Suc 0)) idx < scan_distance len (cs 0) idx" using b(5) by blast+
    have "\<exists>k < n. \<exists>b. (rs \<circ> Suc) k = Some (Ok b) \<and> (msg_topic (bm_inner b), msg_partition (bm_inner b)) = key"
      by (rule Suc.IH [of "brs \<circ> Suc" "cs \<circ> Suc"])
        (use Suc.prems later b(2-4) in \<open>simp_all add: comp_def\<close>)
    then show ?thesis by auto
  qed
qed


section \<open>Polling until there is nothing left\<close>

text \<open>Where the consumer's next fetch of a partition starts, the messages of the partition from there
  on, and when the consumer is in step with the partition: the start is in the window (or is the 0
  that stands for the oldest message when there is none).\<close>

abbreviation starts_at :: "('v in_memory, 'v) broker \<Rightarrow> rmq_consumer \<Rightarrow> partition_key \<Rightarrow> i64 res" where
  "starts_at br c key \<equiv> start_offset (fst key) (snd key) (map_of (cn_position c) key) (cn_group_id c) br"

definition backlog :: "('v in_memory, 'v) broker \<Rightarrow> rmq_consumer \<Rightarrow> partition_key \<Rightarrow> 'v stored_message list" where
  "backlog br c key =
     (case inmem_partition (bk_backend br) (fst key) (snd key) of
        None \<Rightarrow> []
      | Some p \<Rightarrow>
          (case starts_at br c key of
             Ok x \<Rightarrow> drop (nat (x - first_offset p)) (buf_log (buffer p))
           | _ \<Rightarrow> []))"

definition in_step :: "('v in_memory, 'v) broker \<Rightarrow> rmq_consumer \<Rightarrow> partition_key \<Rightarrow> bool" where
  "in_step br c key \<longleftrightarrow>
     (case inmem_partition (bk_backend br) (fst key) (snd key) of
        None \<Rightarrow> True
      | Some p \<Rightarrow>
          (case starts_at br c key of
             Ok x \<Rightarrow> first_offset p \<le> x \<and> x \<le> end_offset p \<or> first_offset p = end_offset p \<and> x = 0
           | _ \<Rightarrow> False))"

definition polled_keys :: "rmq_consumer \<Rightarrow> partition_key set" where
  "polled_keys c = set (tpl_keys (cn_assigned c)) - set (cn_paused c)"

lemma fetch_in_step:
  assumes mem: "mem_broker h br" and op: "\<not> bk_shutdown br" and st: "in_step br c key"
  shows "(\<exists>m rest. fetch_at br c key = Ok (Some m) \<and> backlog br c key = m # rest) \<or>
    backlog br c key = [] \<and> (fetch_at br c key = Ok None \<or>
      (\<exists>t i. fetch_at br c key \<in> {Err (TopicNotFound t), Err (PartitionOutOfRange t i)}))"
proof (cases "inmem_partition (bk_backend br) (fst key) (snd key)")
  case None
  obtain e where e: "fetch_at br c key = Err e" "\<forall>t i off. e \<noteq> OffsetOutOfRange t i off"
    using fetch_missing [OF mem None] by blast
  then have "(\<exists>t. e = TopicNotFound t) \<or> (\<exists>t i. e = PartitionOutOfRange t i)"
    using fetch_open [OF mem op, of "fst key" "snd key" "map_of (cn_position c) key" "cn_group_id c"] by auto
  then show ?thesis using e(1) None by (auto simp: backlog_def)
next
  case (Some p)
  have bop: "\<not> im_shutdown (bk_backend br)" using mem op by (simp add: mem_brokerD(6))
  have wf: "wf_partition p" using mem_brokerD(4) [OF mem] Some by (rule inmem_partition_wf)
  have "inmem_window (bk_backend br) (fst key) (snd key) = Some (first_offset p, end_offset p)"
    using Some by (simp add: inmem_window_def)
  from mem.oldest_offset_ok [OF mem_brokerD(1,4) [OF mem] bop this]
  have old: "oldest_offset (fst key) (snd key) br = Ok (if first_offset p = end_offset p then 0 else first_offset p)" .
  obtain x where x: "starts_at br c key = Ok x"
    "first_offset p \<le> x \<and> x \<le> end_offset p \<or> first_offset p = end_offset p \<and> x = 0"
    using st Some by (auto simp: in_step_def split: res.splits)
  have f: "fetch_at br c key = adjusted (fst key) (snd key) p (read_one p x)"
    using op old x(1)
    by (cases "(fst key, snd key, p, read_one p x)" rule: adjusted.cases)
      (simp_all add: fetch_one_from_position_def broker_check_shutdown_def mem_brokerD(1) [OF mem]
        inmem_read_partition(2) [OF bop Some] split: option.splits)
  have log: "length (buf_log (buffer p)) = nat (end_offset p - first_offset p)" "first_offset p \<le> end_offset p"
    using wf_partitionD(2,4) [OF wf] by simp_all
  show ?thesis
  proof (cases "first_offset p \<le> x \<and> x < end_offset p")
    case True
    then have i: "nat (x - first_offset p) < length (buf_log (buffer p))" using log by simp
    have "backlog br c key = drop (nat (x - first_offset p)) (buf_log (buffer p))"
      using Some x(1) by (simp add: backlog_def)
    then have "backlog br c key = buf_log (buffer p) ! nat (x - first_offset p) #
        drop (Suc (nat (x - first_offset p))) (buf_log (buffer p))"
      by (simp only: Cons_nth_drop_Suc [OF i])
    moreover have "fetch_at br c key = Ok (Some (buf_log (buffer p) ! nat (x - first_offset p)))"
      using f True by (simp add: read_one_wf [OF wf])
    ultimately show ?thesis by blast
  next
    case False
    then have "x = end_offset p \<or> (x = 0 \<and> first_offset p = end_offset p)" using x(2) by auto
    moreover have "backlog br c key = []" using Some x log False by (auto simp: backlog_def)
    ultimately show ?thesis using f False by (auto simp: read_one_wf [OF wf])
  qed
qed

text \<open>What can be read at or after the start is in the backlog.\<close>

lemma read_in_backlog:
  assumes mem: "mem_broker h br" and p: "inmem_partition (bk_backend br) (fst key) (snd key) = Some p"
    and m: "read_one p off = Ok (Some m)" and x: "starts_at br c key = Ok x" "x \<le> off"
  shows "m \<in> set (backlog br c key) \<and> msg_offset m = off"
proof -
  have wf: "wf_partition p" using mem_brokerD(4) [OF mem] p by (rule inmem_partition_wf)
  have off: "first_offset p \<le> off" "off < end_offset p" "m = buf_log (buffer p) ! nat (off - first_offset p)"
    using m by (auto simp: read_one_wf [OF wf] split: if_splits)
  let ?k = "nat (off - first_offset p)" and ?n = "nat (x - first_offset p)" and ?log = "buf_log (buffer p)"
  have k: "?k < length ?log" "?n \<le> ?k" using off(1,2) x(2) wf_partitionD(4) [OF wf] by simp_all
  then have "drop ?n ?log ! (?k - ?n) = m" "?k - ?n < length (drop ?n ?log)" using off(3) by simp_all
  then have "m \<in> set (drop ?n ?log)" by (metis nth_mem)
  moreover have "msg_offset m = off"
    using off k(1) wf_partitionD(5) [OF wf] by (auto simp: offsets_from_def)
  ultimately show ?thesis using p x(1) by (simp add: backlog_def)
qed

lemma backlog_next:
  assumes mem: "mem_broker h br" and m: "fetch_at br c key = Ok (Some m)" and st: "in_step br c key"
    and b: "backlog br c key = m # rest"
  shows "backlog br (set_position key (wrap_i64 (msg_offset m + 1)) c) key = rest"
    and "in_step br (set_position key (wrap_i64 (msg_offset m + 1)) c) key"
proof -
  obtain p where p: "inmem_partition (bk_backend br) (fst key) (snd key) = Some p"
    "first_offset p \<le> msg_offset m" "msg_offset m < end_offset p"
    "\<forall>x. map_of (cn_position c) key = Some x \<longrightarrow> msg_offset m = x"
    using fetch_message [OF mem m] by blast
  have wf: "wf_partition p" using mem_brokerD(4) [OF mem] p(1) by (rule inmem_partition_wf)
  have w: "wrap_i64 (msg_offset m + 1) = msg_offset m + 1"
    using wf_partitionD [OF wf] p(2,3) by (intro wrap_i64_id) (simp add: in_i64_def)
  have nxt: "starts_at br (set_position key (wrap_i64 (msg_offset m + 1)) c) key = Ok (msg_offset m + 1)"
    by (simp add: start_offset_def w)
  then show "in_step br (set_position key (wrap_i64 (msg_offset m + 1)) c) key"
    using p by (simp add: in_step_def)
  obtain x where x: "starts_at br c key = Ok x" using b p(1) by (auto simp: backlog_def split: res.splits)
  then have b': "drop (nat (x - first_offset p)) (buf_log (buffer p)) = m # rest"
    using b p(1) by (simp add: backlog_def)
  then have i: "nat (x - first_offset p) < length (buf_log (buffer p))"
    using drop_eq_Nil2 not_le by fastforce
  then have "m = buf_log (buffer p) ! nat (x - first_offset p)" "rest = drop (Suc (nat (x - first_offset p))) (buf_log (buffer p))"
    using Cons_nth_drop_Suc [OF i] b' by auto
  moreover have "first_offset p \<le> x" using st p(1-3) x by (auto simp: in_step_def)
  ultimately have "msg_offset m = x" "rest = drop (nat (x + 1 - first_offset p)) (buf_log (buffer p))"
    using wf_partitionD(5) [OF wf] i by (auto simp: offsets_from_def Suc_nat_eq_nat_zadd1 algebra_simps)
  then show "backlog br (set_position key (wrap_i64 (msg_offset m + 1)) c) key = rest"
    using p(1) nxt by (simp add: backlog_def)
qed

text \<open>Where the consumer has no position and its group no committed offset, it starts at the oldest
  message.\<close>

lemma starts_fresh:
  assumes mem: "mem_broker h br" and op: "\<not> bk_shutdown br"
    and p: "inmem_partition (bk_backend br) (fst key) (snd key) = Some p"
    and "map_of (cn_position c) key = None"
    and "\<And>gid. cn_group_id c = Some gid \<Longrightarrow> map_of (os_offsets (bk_offset_store br)) (gid, fst key, snd key) = None"
  shows "starts_at br c key = Ok (if first_offset p = end_offset p then 0 else first_offset p)"
proof -
  have bop: "\<not> im_shutdown (bk_backend br)" using mem op by (simp add: mem_brokerD(6))
  have "inmem_window (bk_backend br) (fst key) (snd key) = Some (first_offset p, end_offset p)"
    using p by (simp add: inmem_window_def)
  from mem.oldest_offset_ok [OF mem_brokerD(1,4) [OF mem] bop this]
  have "oldest_offset (fst key) (snd key) br = Ok (if first_offset p = end_offset p then 0 else first_offset p)" .
  moreover have group_id: "cg_group_id g = gid" if "map_of (bk_groups br) gid = Some g" for gid g
    using mem_brokerD(5) [OF mem] that by (auto simp: wf_groups_def)
  have "starts_at br c key = oldest_offset (fst key) (snd key) br"
    using assms(4,5) group_id
    by (auto simp: start_offset_def group_committed_offset_def offset_committed_def split: option.splits)
  ultimately show ?thesis by simp
qed

lemma in_step_fresh:
  assumes "mem_broker h br" and "\<not> bk_shutdown br" and "map_of (cn_position c) key = None"
    and "\<And>gid. cn_group_id c = Some gid \<Longrightarrow> map_of (os_offsets (bk_offset_store br)) (gid, fst key, snd key) = None"
  shows "in_step br c key"
proof (cases "inmem_partition (bk_backend br) (fst key) (snd key)")
  case (Some p)
  have "first_offset p \<le> end_offset p"
    using wf_partitionD(2) [OF inmem_partition_wf [OF mem_brokerD(4) [OF assms(1)] Some]] .
  then show ?thesis using starts_fresh [OF assms(1,2) Some assms(3,4)] Some by (simp add: in_step_def)
qed (simp add: in_step_def)

lemma backlog_fresh:
  assumes "mem_broker h br" and "\<not> bk_shutdown br" and "map_of (cn_position c) key = None"
    and "\<And>gid. cn_group_id c = Some gid \<Longrightarrow> map_of (os_offsets (bk_offset_store br)) (gid, fst key, snd key) = None"
    and p: "inmem_partition (bk_backend br) (fst key) (snd key) = Some p"
  shows "backlog br c key = buf_log (buffer p)"
proof -
  have "length (buf_log (buffer p)) = nat (end_offset p - first_offset p)"
    using wf_partitionD(4) [OF inmem_partition_wf [OF mem_brokerD(4) [OF assms(1)] p]] by simp
  then show ?thesis using starts_fresh [OF assms(1,2) p assms(3,4)] p by (auto simp: backlog_def)
qed

text \<open>What a poll leaves: the same assignment, and the other partitions as they were.\<close>

definition taken :: "partition_key \<Rightarrow> 'v stored_message \<Rightarrow> usize \<Rightarrow> rmq_consumer \<Rightarrow> rmq_consumer" where
  "taken key m s c = (set_position key (wrap_i64 (msg_offset m + 1)) c)\<lparr>cn_poll_start := s\<rparr>"

lemma taken_sel [simp]:
  "cn_assigned (taken key m s c) = cn_assigned c" "cn_paused (taken key m s c) = cn_paused c"
  "cn_group_id (taken key m s c) = cn_group_id c" "polled_keys (taken key m s c) = polled_keys c"
  "backlog br (taken key m s c) key' = backlog br (set_position key (wrap_i64 (msg_offset m + 1)) c) key'"
  "in_step br (taken key m s c) key' = in_step br (set_position key (wrap_i64 (msg_offset m + 1)) c) key'"
  by (simp_all add: taken_def polled_keys_def backlog_def in_step_def cong: option.case_cong)

lemma other_backlog [simp]:
  "key' \<noteq> key \<Longrightarrow> backlog br (set_position key off c) key' = backlog br c key'"
  "key' \<noteq> key \<Longrightarrow> in_step br (set_position key off c) key' = in_step br c key'"
  by (simp_all add: backlog_def in_step_def cong: option.case_cong)

lemma scan_in_step:
  fixes len :: nat
  assumes "poll_scan (\<lambda>_. br) start len k n c = (r, c')"
    and len: "len = length (tpl_elements (cn_assigned c))" "0 < len"
    and mem: "mem_broker h br" and op: "\<not> bk_shutdown br" and st: "\<forall>key \<in> polled_keys c. in_step br c key"
  shows "r = None \<and> c' = c \<and>
      (\<forall>j. k \<le> j \<and> j < k + n \<and> scan_key start len j c \<notin> set (cn_paused c) \<longrightarrow> backlog br c (scan_key start len j c) = []) \<or>
    (\<exists>key m rest s. key \<in> polled_keys c \<and> fetch_at br c key = Ok (Some m) \<and> backlog br c key = m # rest \<and>
      r = Some (Ok (borrowed_new m)) \<and> c' = taken key m s c)"
  using assms(1)
proof (induction n arbitrary: k)
  case 0
  then show ?case by auto
next
  case (Suc n)
  let ?key = "scan_key start len k c"
  have key: "?key \<in> polled_keys c" if "?key \<notin> set (cn_paused c)"
    using that len by (simp add: polled_keys_def scan_key_def tpl_keys_def)
  have more: "k \<le> j \<and> j < k + Suc n \<Longrightarrow> j = k \<or> Suc k \<le> j \<and> j < Suc k + n" for j by arith
  note step = fetch_in_step [OF mem op bspec [OF st key]]
  from Suc.prems len show ?case
  proof (cases rule: poll_scan_Suc)
    case next_elem
    then have "?key \<notin> set (cn_paused c) \<Longrightarrow> backlog br c ?key = []" using step by auto
    then show ?thesis using Suc.IH [OF next_elem(1)] more by metis
  next
    case (adjust t' i' off)
    then show ?thesis using step by auto
  next
    case (message m)
    then obtain rest where "backlog br c ?key = m # rest" using step by auto
    then show ?thesis
      using message key
      by (intro disjI2 exI [of _ ?key] exI [of _ m] exI [of _ rest] exI [of _ "(start + k) mod len + 1"])
        (simp add: taken_def)
  next
    case (failed e)
    then show ?thesis
      using fetch_open [OF mem op, of "fst ?key" "snd ?key" "map_of (cn_position c) ?key" "cn_group_id c"] by auto
  next
    case (panicked x)
    then show ?thesis
      using fetch_open [OF mem op, of "fst ?key" "snd ?key" "map_of (cn_position c) ?key" "cn_group_id c"] by auto
  qed
qed

lemma poll_in_step:
  assumes "mem_broker h br" and "\<not> bk_shutdown br" and "\<forall>key \<in> polled_keys c. in_step br c key"
  shows "poll_once (\<lambda>_. br) c = (None, c) \<and> (\<forall>key \<in> polled_keys c. backlog br c key = []) \<or>
    (\<exists>key m rest s. key \<in> polled_keys c \<and> fetch_at br c key = Ok (Some m) \<and> backlog br c key = m # rest \<and>
      poll_once (\<lambda>_. br) c = (Some (Ok (borrowed_new m)), taken key m s c))"
proof (cases "length (tpl_elements (cn_assigned c)) = 0")
  case True
  then show ?thesis by (simp add: poll_once_def polled_keys_def tpl_keys_def)
next
  case False
  let ?len = "length (tpl_elements (cn_assigned c))"
  let ?s = "cn_poll_start c mod ?len"
  obtain r c' where scan: "poll_scan (\<lambda>_. br) ?s ?len 0 ?len c = (r, c')" by fastforce
  have p: "poll_once (\<lambda>_. br) c = (r, c')" using scan False by (simp add: poll_once_def Let_def)
  have all: "\<exists>j < ?len. scan_key ?s ?len j c = key" if "key \<in> polled_keys c" for key
  proof -
    have "key \<in> set (tpl_keys (cn_assigned c))" using that by (simp add: polled_keys_def)
    then obtain idx where idx: "idx < ?len" "tpl_keys (cn_assigned c) ! idx = key"
      unfolding in_set_conv_nth by (force simp: tpl_keys_def)
    then show ?thesis using scan_covers [OF idx(1), of ?s] by (auto simp: scan_key_def)
  qed
  have "backlog br c key = []" if "key \<in> polled_keys c"
    "\<forall>j. j < ?len \<and> scan_key ?s ?len j c \<notin> set (cn_paused c) \<longrightarrow> backlog br c (scan_key ?s ?len j c) = []" for key
    using all [OF that(1)] that by (auto simp: polled_keys_def)
  then show ?thesis using scan_in_step [OF scan refl _ assms] False p by auto
qed

text \<open>A series of polls of a broker that stands still.\<close>

fun polls :: "nat \<Rightarrow> ('v in_memory, 'v) broker \<Rightarrow> rmq_consumer \<Rightarrow> 'v borrowed_message res option list \<times> rmq_consumer" where
  "polls 0 br c = ([], c)"
| "polls (Suc n) br c =
     (let (r, c1) = poll_once (\<lambda>_. br) c; (rs, c2) = polls n br c1 in (r # rs, c2))"

lemma finite_polled_keys [simp]: "finite (polled_keys c)"
  by (simp add: polled_keys_def)

lemma polls_drain:
  assumes "mem_broker h br" and "\<not> bk_shutdown br" and "\<forall>key \<in> polled_keys c. in_step br c key"
    and "n = (\<Sum>key \<in> polled_keys c. length (backlog br c key))"
  shows "\<exists>ms c'. polls n br c = (map (\<lambda>m. Some (Ok (borrowed_new m))) ms, c') \<and>
    (\<forall>t i. of_partition t i ms = (if (t, i) \<in> polled_keys c then backlog br c (t, i) else [])) \<and>
    poll_once (\<lambda>_. br) c' = (None, c')"
  using assms(3,4)
proof (induction n arbitrary: c)
  case 0
  then have none: "\<forall>key \<in> polled_keys c. backlog br c key = []" by simp
  then have "poll_once (\<lambda>_. br) c = (None, c)" using poll_in_step [OF assms(1,2) 0(1)] by auto
  then show ?case using none by (intro exI [of _ "[]"]) (simp add: of_partition_def)
next
  case (Suc n)
  have "\<exists>key \<in> polled_keys c. backlog br c key \<noteq> []"
    using Suc.prems(2) by (metis (no_types, lifting) list.size(3) nat.simps(3) sum.neutral)
  then obtain key m rest s where m: "key \<in> polled_keys c" "fetch_at br c key = Ok (Some m)" "backlog br c key = m # rest"
    "poll_once (\<lambda>_. br) c = (Some (Ok (borrowed_new m)), taken key m s c)"
    using poll_in_step [OF assms(1,2) Suc.prems(1)] by auto
  let ?c = "taken key m s c"
  have step: "in_step br c key" using Suc.prems(1) m(1) by blast
  note nxt = backlog_next [OF assms(1) m(2) step m(3)]
  have b: "backlog br ?c key' = (if key' = key then rest else backlog br c key')" for key'
    using nxt(1) by simp
  have st: "\<forall>key' \<in> polled_keys ?c. in_step br ?c key'"
    using Suc.prems(1) nxt(2) by (metis other_backlog(2) taken_sel(4,6))
  have "(\<Sum>key' \<in> polled_keys c. length (backlog br c key')) =
      length (backlog br c key) + (\<Sum>key' \<in> polled_keys c - {key}. length (backlog br c key'))"
    using m(1) by (simp add: sum.remove)
  moreover have "(\<Sum>key' \<in> polled_keys c. length (backlog br ?c key')) =
      length (backlog br ?c key) + (\<Sum>key' \<in> polled_keys c - {key}. length (backlog br ?c key'))"
    using m(1) by (simp only: sum.remove finite_polled_keys)
  ultimately have n: "n = (\<Sum>key' \<in> polled_keys ?c. length (backlog br ?c key'))"
    using Suc.prems(2) m(3) by (simp only: b taken_sel(4)) simp
  obtain ms c' where ms: "polls n br ?c = (map (\<lambda>m. Some (Ok (borrowed_new m))) ms, c')"
    "\<And>t i. of_partition t i ms = (if (t, i) \<in> polled_keys ?c then backlog br ?c (t, i) else [])"
    "poll_once (\<lambda>_. br) c' = (None, c')"
    using Suc.IH [OF st n] by blast
  obtain t i where ti: "key = (t, i)" by fastforce
  have "msg_topic m = t \<and> msg_partition m = i"
    using fetch_message [OF assms(1), of t i] m(2) unfolding ti by fastforce
  then have "of_partition t' i' (m # ms) = (if (t', i') \<in> polled_keys c then backlog br c (t', i') else [])" for t' i'
    using ms(2) [of t' i'] m(1,3) ti unfolding b by (auto simp: of_partition_def)
  then show ?case using m(4) ms(1,3) by (intro exI [of _ "m # ms"] exI [of _ c']) simp
qed


section \<open>Properties\<close>

text \<open>C17: Polling is fair. While an assigned partition that is not paused has a message for the
  consumer at every fetch, it is served within as many polls as the assignment has partitions,
  however many messages the others have and whatever the broker does between the fetches.\<close>

theorem polling_is_fair:
  assumes "\<And>k. k < n \<Longrightarrow> poll_once (brs k) (cs k) = (rs k, cs (Suc k))"
    and "n = length (tpl_elements (cn_assigned (cs 0)))"
    and "(t, i) \<in> set (tpl_keys (cn_assigned (cs 0)))" and "(t, i) \<notin> set (cn_paused (cs 0))"
    and "\<And>k j. \<exists>m. fetch_one_from_position t i (map_of (cn_position (cs 0)) (t, i)) (cn_group_id (cs 0)) (brs k j) = Ok (Some m)"
    and "\<And>k j. mem_broker h (brs k j)" "\<And>k j. \<not> bk_shutdown (brs k j)"
  shows "\<exists>k < n. \<exists>b. rs k = Some (Ok b) \<and> msg_topic (bm_inner b) = t \<and> msg_partition (bm_inner b) = i"
proof -
  obtain idx where idx: "idx < n" "tpl_keys (cn_assigned (cs 0)) ! idx = (t, i)"
    using assms(3) unfolding assms(2) in_set_conv_nth by (force simp: tpl_keys_def)
  show ?thesis
    using served_in_time [OF assms(1) scan_distance_index(1) [OF idx(1)] assms(2) idx assms(4) _ assms(6,7)] assms(5)
    by simp
qed

theorem polling_is_fair_witness:
  "\<exists>k < 2. \<exists>b. fst (poll_once (\<lambda>_. demo_produced) (((\<lambda>c. snd (poll_once (\<lambda>_. demo_produced) c)) ^^ k) demo_consumer)) =
     Some (Ok b) \<and> msg_topic (bm_inner b) = ''t'' \<and> msg_partition (bm_inner b) = 1"
  using polling_is_fair [of 2 "\<lambda>_ _. demo_produced" "\<lambda>k. ((\<lambda>c. snd (poll_once (\<lambda>_. demo_produced) c)) ^^ k) demo_consumer"
    "\<lambda>k. fst (poll_once (\<lambda>_. demo_produced) (((\<lambda>c. snd (poll_once (\<lambda>_. demo_produced) c)) ^^ k) demo_consumer))"
    "''t''" 1 remdups] demo_fetch demo_produced_mem demo_produced_open
  by (simp add: demo_consumer_def fresh_consumer_def tpl_keys_def del: demo_produced_open)

text \<open>C18: Polling drains a broker that stands still. A consumer whose positions are in the windows
  of its partitions gets, in as many polls as there are messages from its positions on, exactly
  these messages: of every assigned partition that is not paused all of them, each once and in the
  order of the log, and of every other partition none; and the next poll finds nothing.\<close>

theorem polling_drains:
  assumes "mem_broker h br" and "\<not> bk_shutdown br" and "\<forall>key \<in> polled_keys c. in_step br c key"
    and "n = (\<Sum>key \<in> polled_keys c. length (backlog br c key))"
  shows "\<exists>ms c'. polls n br c = (map (\<lambda>m. Some (Ok (borrowed_new m))) ms, c') \<and>
    (\<forall>t i. of_partition t i ms = (if (t, i) \<in> polled_keys c then backlog br c (t, i) else [])) \<and>
    poll_once (\<lambda>_. br) c' = (None, c')"
  using assms by (rule polls_drain)

lemma demo_keys: "polled_keys demo_consumer = {(''u'', 0), (''t'', 1)}"
  by (simp add: polled_keys_def demo_consumer_def fresh_consumer_def tpl_keys_def)

lemma demo_in_step: "in_step demo_produced demo_consumer key"
  by (rule in_step_fresh [OF demo_produced_mem demo_produced_open])
    (simp_all add: demo_consumer_def fresh_consumer_def)

theorem polling_drains_witness:
  "\<exists>n m ms c'. polls n demo_produced demo_consumer = (map (\<lambda>m. Some (Ok (borrowed_new m))) (m # ms), c') \<and>
     poll_once (\<lambda>_. demo_produced) c' = (None, c')"
proof -
  let ?n = "\<Sum>key \<in> polled_keys demo_consumer. length (backlog demo_produced demo_consumer key)"
  obtain ms c' where ms: "polls ?n demo_produced demo_consumer = (map (\<lambda>m. Some (Ok (borrowed_new m))) ms, c')"
    "of_partition ''t'' 1 ms = backlog demo_produced demo_consumer (''t'', 1)"
    "poll_once (\<lambda>_. demo_produced) c' = (None, c')"
    using polling_drains [OF demo_produced_mem demo_produced_open _ refl, of demo_consumer] demo_in_step demo_keys by auto
  have "of_partition ''t'' 1 ms \<noteq> []"
    using fetch_in_step [OF demo_produced_mem demo_produced_open demo_in_step, of "(''t'', 1)"] demo_fetch ms(2)
    by (auto simp: demo_consumer_def fresh_consumer_def)
  then obtain m ms' where "ms = m # ms'" by (cases ms) (auto simp: of_partition_def)
  then show ?thesis using ms by blast
qed

end
