(* ===== verification/Group_Consumers.thy ===== *)
theory Group_Consumers
  imports Provenance Draining
begin

text \<open>
  Several consumers of one group (\<open>src/base_consumer.rs\<close>, \<open>src/consumer_group.rs\<close>). A consumer
  learns its share of the partitions from the answer of its own \<open>subscribe\<close>, which rebalances the
  group with the members there are by then; nothing tells it of later members. So the consumers
  split the partitions once each of them has subscribed again after the last one has joined, and
  then no message is received twice in the group; until then their shares overlap.
\<close>

section \<open>One member subscribes\<close>

text \<open>The subscriptions the broker knows in a group, the number of partitions a topic has or will be
  created with, and what a join needs to be computed without a conversion overflow.\<close>

definition group_topics :: "string \<Rightarrow> ('b, 'v) broker \<Rightarrow> member_topics" where
  "group_topics gid br = cg_member_topics (group_entry gid br)"

definition topic_size :: "('v in_memory, 'v) broker \<Rightarrow> string \<Rightarrow> i32" where
  "topic_size br t = seen_count (inmem_count (bk_backend br) t) br"

definition joinable :: "(string list \<Rightarrow> string list) \<Rightarrow> ('v in_memory, 'v) broker \<Rightarrow> bool" where
  "joinable h br \<longleftrightarrow> mem_broker h br \<and> \<not> bk_shutdown br \<and>
     (\<forall>t n. inmem_count (bk_backend br) t = Some n \<longrightarrow> 0 \<le> n \<and> n < 2 ^ 31) \<and>
     0 \<le> default_num_partitions (bk_config br) \<and> default_num_partitions (bk_config br) < 2 ^ 31"

text \<open>The share of a member when the subscriptions are \<open>mt\<close> and a member subscribes to \<open>ts\<close>.\<close>

definition share :: "member_topics \<Rightarrow> string list \<Rightarrow> (string \<Rightarrow> i32) \<Rightarrow> string \<Rightarrow> partition_key set" where
  "share mt ts cnt m = {(t, p). t \<in> set ts \<and> 0 \<le> p \<and> p < cnt t \<and> subscribed_members mt t \<noteq> [] \<and>
     subscribed_members mt t ! (nat p mod length (subscribed_members mt t)) = m}"

lemma owner_share:
  assumes "\<And>t. map_of pc t = (if t \<in> set ts then Some (cnt t) else None)"
  shows "owner mt pc t p = Some m \<longleftrightarrow> (t, p) \<in> share mt ts cnt m"
  by (auto simp: owner_def assms share_def Let_def)

lemma subscribe_in_group:
  assumes j: "joinable h br" and ord: "hash_order h" and gid: "cn_group_id c = Some gid"
    and mt: "mt = AList.update (cn_member_id c) ts (group_topics gid br)"
  shows "\<exists>c' br'. subscribe ts c br = (Ok (), c', br') \<and>
    set (tpl_keys (cn_assigned c')) = share mt ts (topic_size br) (cn_member_id c) \<and>
    cn_member_id c' = cn_member_id c \<and> cn_group_id c' = cn_group_id c \<and> cn_position c' = cn_position c \<and>
    joinable h br' \<and> group_topics gid br' = mt \<and> topic_size br' = topic_size br"
proof -
  note jd = j [unfolded joinable_def]
  obtain br1 meta where run: "broker_join_group gid (cn_member_id c) ts br = join_entry gid (cn_member_id c) ts meta br1"
    "mem_broker h br1" "cg_member_topics (group_entry gid br1) = group_topics gid br"
    "\<And>t. map_of (joiner_counts ts meta) t = (if t \<in> set ts then Some (topic_size br t) else None)"
    "bk_config br1 = bk_config br" "\<not> bk_shutdown br1"
    "\<And>t. inmem_count (bk_backend br1) t = (if t \<in> set ts then Some (topic_size br t) else inmem_count (bk_backend br) t)"
    using broker_join_run [of h br gid "cn_member_id c" ts] jd ord
    unfolding group_topics_def topic_size_def by blast
  obtain l g' where g': "join_entry gid (cn_member_id c) ts meta br1 =
      (Ok l, br1\<lparr>bk_groups := AList.update gid g' (bk_groups br1)\<rparr>)" "group_assignment (cn_member_id c) g' = Some l"
    "cg_member_topics g' = mt"
    "\<And>k t p. (t, p) \<in> set (keys_of (cg_assignments g') k) \<longleftrightarrow> owner mt (joiner_counts ts meta) t p = Some k"
    using join_entry_spec [OF run(2) ord, of gid "cn_member_id c" ts meta] unfolding run(3) mt by blast
  let ?br' = "br1\<lparr>bk_groups := AList.update gid g' (bk_groups br1)\<rparr>"
  have join: "broker_join_group gid (cn_member_id c) ts br = (Ok l, ?br')" using run(1) g'(1) by simp
  then have mem': "mem_broker h ?br'" using mem_broker_join [OF conjunct1 [OF jd] ord, of gid "cn_member_id c" ts] by simp
  have op: "\<not> bk_shutdown ?br'"
    using run(6) by simp
  have keys: "set (tpl_keys l) = share mt ts (topic_size br) (cn_member_id c)"
    using g'(2) g'(4) [of _ _ "cn_member_id c"] owner_share [OF run(4)] by (auto simp: keys_of_def group_assignment_def)
  have size: "topic_size ?br' t = topic_size br t" for t
    using run(5,7) by (simp add: topic_size_def seen_count_def split: option.split)
  have "0 \<le> n \<and> n < 2 ^ 31" if "inmem_count (bk_backend ?br') t = Some n" for t n
    using that run(7) [of t] jd by (auto simp: topic_size_def seen_count_def split: if_splits option.splits)
  then have "joinable h ?br'" using mem' op jd run(5) by (simp add: joinable_def)
  moreover have "group_topics gid ?br' = mt" using g'(3) by (simp add: group_topics_def group_entry_def)
  ultimately show ?thesis
    using join keys size gid by (simp add: subscribe_def Let_def call_context_def fun_eq_iff)
qed


section \<open>All members subscribe\<close>

text \<open>The consumers of a group subscribe to the same topics, one after the other.\<close>

fun subscribe_all ::
    "string list \<Rightarrow> rmq_consumer list \<Rightarrow> ('b, 'v) broker \<Rightarrow> rmq_consumer list \<times> ('b, 'v) broker" where
  "subscribe_all ts [] br = ([], br)"
| "subscribe_all ts (c # cs) br =
     (let (_, c', br1) = subscribe ts c br; (cs', br2) = subscribe_all ts cs br1 in (c' # cs', br2))"

definition joined :: "string list \<Rightarrow> rmq_consumer list \<Rightarrow> member_topics \<Rightarrow> member_topics" where
  "joined ts cs mt = fold (\<lambda>c. AList.update (cn_member_id c) ts) cs mt"

lemma joined_simps [simp]:
  "joined ts [] mt = mt" "joined ts (c # cs) mt = joined ts cs (AList.update (cn_member_id c) ts mt)"
  by (simp_all add: joined_def)

lemma joined_map_of:
  "map_of (joined ts cs mt) m = (if m \<in> cn_member_id ` set cs then Some ts else map_of mt m)"
  by (induction cs arbitrary: mt) auto

text \<open>Each consumer gets its share among the members there are when it subscribes.\<close>

lemma subscribe_all_shares:
  assumes "joinable h br" and "hash_order h" and "\<forall>c \<in> set cs. cn_group_id c = Some gid"
  shows "\<exists>cs' br'. subscribe_all ts cs br = (cs', br') \<and> joinable h br' \<and>
    group_topics gid br' = joined ts cs (group_topics gid br) \<and> topic_size br' = topic_size br \<and>
    map cn_member_id cs' = map cn_member_id cs \<and> map cn_group_id cs' = map cn_group_id cs \<and>
    map cn_position cs' = map cn_position cs \<and>
    (\<forall>i < length cs. set (tpl_keys (cn_assigned (cs' ! i))) =
       share (joined ts (take (Suc i) cs) (group_topics gid br)) ts (topic_size br) (cn_member_id (cs ! i)))"
  using assms(1,3)
proof (induction cs arbitrary: br)
  case Nil
  then show ?case by simp
next
  case (Cons c cs)
  have gid: "cn_group_id c = Some gid" using Cons.prems(2) by simp
  obtain c1 br1 where c1: "subscribe ts c br = (Ok (), c1, br1)"
    "set (tpl_keys (cn_assigned c1)) =
       share (AList.update (cn_member_id c) ts (group_topics gid br)) ts (topic_size br) (cn_member_id c)"
    "cn_member_id c1 = cn_member_id c" "cn_group_id c1 = cn_group_id c" "cn_position c1 = cn_position c" "joinable h br1"
    "group_topics gid br1 = AList.update (cn_member_id c) ts (group_topics gid br)" "topic_size br1 = topic_size br"
    using subscribe_in_group [OF Cons.prems(1) assms(2) gid refl, of ts] by blast
  have "\<forall>c \<in> set cs. cn_group_id c = Some gid" using Cons.prems(2) by simp
  from Cons.IH [OF c1(6) this] obtain cs' br' where cs': "subscribe_all ts cs br1 = (cs', br')" "joinable h br'"
    "group_topics gid br' = joined ts cs (group_topics gid br1)" "topic_size br' = topic_size br1"
    "map cn_member_id cs' = map cn_member_id cs" "map cn_group_id cs' = map cn_group_id cs" "map cn_position cs' = map cn_position cs"
    "\<And>i. i < length cs \<Longrightarrow> set (tpl_keys (cn_assigned (cs' ! i))) =
       share (joined ts (take (Suc i) cs) (group_topics gid br1)) ts (topic_size br1) (cn_member_id (cs ! i))"
    by blast
  have "set (tpl_keys (cn_assigned ((c1 # cs') ! i))) =
      share (joined ts (take (Suc i) (c # cs)) (group_topics gid br)) ts (topic_size br) (cn_member_id ((c # cs) ! i))"
    if "i < length (c # cs)" for i
    using that c1(2,7,8) cs'(8) [of "i - 1"] by (cases i) simp_all
  then show ?case
    using c1(1,3-5,7,8) cs'(1-7) by (intro exI [of _ "c1 # cs'"] exI [of _ br'] conjI allI impI) simp_all
qed

text \<open>Subscribing again changes no subscription, so that all shares are of the same members.\<close>

lemma joined_again:
  "(\<And>c. c \<in> set cs \<Longrightarrow> map_of mt (cn_member_id c) = Some ts) \<Longrightarrow> joined ts cs mt = mt"
  by (induction cs) (simp_all add: AList.update_triv)

lemma subscribe_twice:
  assumes "joinable h br" and "hash_order h" and "\<forall>c \<in> set cs. cn_group_id c = Some gid"
    and "subscribe_all ts cs br = (cs1, br1)" and "subscribe_all ts cs1 br1 = (cs2, br2)"
    and mt: "mt = joined ts cs (group_topics gid br)"
  shows "length cs2 = length cs" and "joinable h br2" and "group_topics gid br2 = mt"
    and "map cn_position cs2 = map cn_position cs" and "map cn_group_id cs2 = map cn_group_id cs"
    and "i < length cs \<Longrightarrow> set (tpl_keys (cn_assigned (cs2 ! i))) = share mt ts (topic_size br) (cn_member_id (cs ! i))"
proof -
  have r1: "joinable h br1" "group_topics gid br1 = mt" "topic_size br1 = topic_size br"
    "map cn_member_id cs1 = map cn_member_id cs" "map cn_group_id cs1 = map cn_group_id cs"
    "map cn_position cs1 = map cn_position cs"
    using subscribe_all_shares [OF assms(1-3), of ts] assms(4) mt by auto
  have ids: "cn_member_id ` set cs1 = cn_member_id ` set cs" "cn_group_id ` set cs1 = cn_group_id ` set cs"
    using arg_cong [OF r1(4), of set] arg_cong [OF r1(5), of set] by simp_all
  have known: "map_of mt (cn_member_id c) = Some ts" if "c \<in> set cs1" for c
    using that ids(1) unfolding mt joined_map_of by auto
  have "\<forall>c \<in> set cs1. cn_group_id c = Some gid" using ids(2) assms(3) by (metis image_iff)
  note r2 = subscribe_all_shares [OF r1(1) assms(2) this, of ts]
  have len: "length cs1 = length cs" using map_eq_imp_length_eq [OF r1(4)] .
  show "length cs2 = length cs" using r2 assms(5) len map_eq_imp_length_eq by fastforce
  show "joinable h br2" "group_topics gid br2 = mt" "map cn_position cs2 = map cn_position cs"
    "map cn_group_id cs2 = map cn_group_id cs"
    using r2 assms(5) joined_again [OF known] by (auto simp: r1(2,5,6))
  have "joined ts (take (Suc i) cs1) mt = mt" by (rule joined_again) (rule known, erule in_set_takeD)
  moreover have "cn_member_id (cs1 ! i) = cn_member_id (cs ! i)" if "i < length cs" for i
    using that len by (metis nth_map r1(4))
  ultimately show "set (tpl_keys (cn_assigned (cs2 ! i))) = share mt ts (topic_size br) (cn_member_id (cs ! i))"
    if "i < length cs" using that r2 assms(5) len by (auto simp: r1(2,3))
qed


section \<open>Who has which partition\<close>

lemma joined_subscribers:
  assumes "t \<in> set ts"
  shows "set (subscribed_members (joined ts cs []) t) = cn_member_id ` set cs"
  using assms by (auto simp: subscribed_members_iff joined_map_of split: if_splits)

lemma only_member: "set xs = {x} \<Longrightarrow> xs \<noteq> [] \<and> xs ! (n mod length xs) = x"
  using nth_mem [of "n mod length xs" xs] by (cases "xs = []") simp_all

text \<open>In the first round each consumer got its share of what there was then: the first one all.\<close>

lemma first_round_overlaps:
  assumes "joinable h br" and "hash_order h" and "\<forall>c \<in> set cs. cn_group_id c = Some gid"
    and "group_topics gid br = []" and "subscribe_all ts cs br = (cs1, br1)" and "i < length cs"
  shows "set (tpl_keys (cn_assigned (cs1 ! i))) \<subseteq> set (tpl_keys (cn_assigned (cs1 ! 0)))"
    and "set (tpl_keys (cn_assigned (cs1 ! 0))) = {(t, p). t \<in> set ts \<and> 0 \<le> p \<and> p < topic_size br t}"
proof -
  let ?mt = "joined ts (take (Suc 0) cs) []"
  have keys: "j < length cs \<Longrightarrow> set (tpl_keys (cn_assigned (cs1 ! j))) =
      share (joined ts (take (Suc j) cs) []) ts (topic_size br) (cn_member_id (cs ! j))" for j
    using subscribe_all_shares [OF assms(1-3), of ts] assms(4,5) by auto
  have pos: "0 < length cs" using assms(6) by linarith
  have one: "set (subscribed_members ?mt t) = {cn_member_id (cs ! 0)}" if "t \<in> set ts" for t
    using joined_subscribers [OF that, of "take (Suc 0) cs"] pos by (cases cs) simp_all
  have "(t, p) \<in> share ?mt ts (topic_size br) (cn_member_id (cs ! 0)) \<longleftrightarrow>
      t \<in> set ts \<and> 0 \<le> p \<and> p < topic_size br t" for t p
  proof (cases "t \<in> set ts")
    case True
    then show ?thesis using only_member [OF one [OF True], of "nat p"] by (auto simp: share_def)
  qed (simp add: share_def)
  then show all: "set (tpl_keys (cn_assigned (cs1 ! 0))) = {(t, p). t \<in> set ts \<and> 0 \<le> p \<and> p < topic_size br t}"
    using keys [OF pos] by auto
  show "set (tpl_keys (cn_assigned (cs1 ! i))) \<subseteq> set (tpl_keys (cn_assigned (cs1 ! 0)))"
    unfolding all using keys [OF assms(6)] by (auto simp: share_def)
qed

lemma second_round_splits:
  assumes "joinable h br" and "hash_order h" and "\<forall>c \<in> set cs. cn_group_id c = Some gid"
    and "distinct (map cn_member_id cs)" and "group_topics gid br = []"
    and "subscribe_all ts cs br = (cs1, br1)" and "subscribe_all ts cs1 br1 = (cs2, br2)"
  shows "t \<in> set ts \<Longrightarrow> 0 \<le> p \<Longrightarrow> p < topic_size br t \<Longrightarrow> cs \<noteq> [] \<Longrightarrow>
      \<exists>i < length cs. (t, p) \<in> set (tpl_keys (cn_assigned (cs2 ! i)))"
    and "i < length cs \<Longrightarrow> (t, p) \<in> set (tpl_keys (cn_assigned (cs2 ! i))) \<Longrightarrow>
      t \<in> set ts \<and> 0 \<le> p \<and> p < topic_size br t"
    and "i < length cs \<Longrightarrow> j < length cs \<Longrightarrow> (t, p) \<in> set (tpl_keys (cn_assigned (cs2 ! i))) \<Longrightarrow>
      (t, p) \<in> set (tpl_keys (cn_assigned (cs2 ! j))) \<Longrightarrow> i = j"
proof -
  note keys = subscribe_twice(6) [OF assms(1-3,6,7) refl, unfolded assms(5)]
  let ?subs = "subscribed_members (joined ts cs []) t"
  let ?m = "?subs ! (nat p mod length ?subs)"
  show "\<exists>i < length cs. (t, p) \<in> set (tpl_keys (cn_assigned (cs2 ! i)))"
    if "t \<in> set ts" "0 \<le> p" "p < topic_size br t" "cs \<noteq> []"
  proof -
    note t = that
    have "?subs \<noteq> []" using joined_subscribers [OF t(1), of cs] t(4) by auto
    then have "?m \<in> cn_member_id ` set cs"
      using joined_subscribers [OF t(1), of cs] nth_mem [of "nat p mod length ?subs" ?subs] by simp
    then obtain i where i: "i < length cs" "?m = cn_member_id (cs ! i)" by (auto simp: in_set_conv_nth)
    then show ?thesis using t \<open>?subs \<noteq> []\<close> keys [OF i(1)] by (intro exI [of _ i]) (simp add: share_def)
  qed
  show "t \<in> set ts \<and> 0 \<le> p \<and> p < topic_size br t"
    if "i < length cs" "(t, p) \<in> set (tpl_keys (cn_assigned (cs2 ! i)))" for i
    using that keys by (auto simp: share_def)
  show "i = j" if "i < length cs" "j < length cs" "(t, p) \<in> set (tpl_keys (cn_assigned (cs2 ! i)))"
    "(t, p) \<in> set (tpl_keys (cn_assigned (cs2 ! j)))" for i j
  proof -
    have "?m = cn_member_id (cs ! i)" "?m = cn_member_id (cs ! j)"
      using that keys by (auto simp: share_def)
    then show ?thesis using nth_eq_iff_index_eq [OF assms(4), of i j] that(1,2) by simp
  qed
qed


section \<open>What the members receive\<close>

text \<open>A member polls, and does whatever leaves its positions and its assignment alone.\<close>

inductive member_session ::
    "('v in_memory, 'v) broker \<Rightarrow> rmq_consumer \<Rightarrow> 'v stored_message list
     \<Rightarrow> ('v in_memory, 'v) broker \<Rightarrow> rmq_consumer \<Rightarrow> bool"
  for br0 :: "('v in_memory, 'v) broker" and c0 :: rmq_consumer where
  ms_begin: "member_session br0 c0 [] br0 c0"
| ms_broker: "member_session br0 c0 ms br c \<Longrightarrow> broker_step br br' \<Longrightarrow> member_session br0 c0 ms br' c"
| ms_consumer: "member_session br0 c0 ms br c \<Longrightarrow> cn_position c' = cn_position c \<Longrightarrow>
    cn_assigned c' = cn_assigned c \<Longrightarrow> member_session br0 c0 ms br c'"
| ms_poll: "member_session br0 c0 ms (brs 0) c \<Longrightarrow> (\<And>i. broker_step\<^sup>*\<^sup>* (brs i) (brs (Suc i))) \<Longrightarrow>
    poll_once brs c = (r, c') \<Longrightarrow>
    member_session br0 c0 (ms @ received r) (brs (length (tpl_elements (cn_assigned c)))) c'"

abbreviation msg_key_of :: "'v stored_message \<Rightarrow> partition_key" where
  "msg_key_of m \<equiv> (msg_topic m, msg_partition m)"

lemma received_assigned:
  assumes "poll_once brs c = (r, c')" and "\<And>j. mem_broker h (brs j)" and "m \<in> set (received r)"
  shows "msg_key_of m \<in> set (tpl_keys (cn_assigned c))"
proof -
  obtain b where b: "r = Some (Ok b)" "m = bm_inner b"
    using assms(3) by (auto simp: received_def split: option.splits res.splits)
  then obtain j pos gid key where f: "key \<in> set (tpl_keys (cn_assigned c))"
    "fetch_one_from_position (fst key) (snd key) pos gid (brs j) = Ok (Some m)"
    using poll_once_outcome [OF assms(1)] by (auto simp: poll_outcome_def fetched_from_def)
  then show ?thesis using fetch_message [OF assms(2) f(2)] by auto
qed

lemma member_session_keeps:
  assumes "member_session br0 c0 ms br c" and "mem_broker h br0" and "hash_order h"
  shows "session br0 c0 ms br c \<and> mem_broker h br \<and> cn_assigned c = cn_assigned c0 \<and>
    (\<forall>m \<in> set ms. msg_key_of m \<in> set (tpl_keys (cn_assigned c0)))"
  using assms
proof (induction rule: member_session.induct)
  case ms_begin
  then show ?case by (simp add: sess_begin)
next
  case (ms_broker ms br c br')
  then show ?case using sess_broker mem_broker_step by blast
next
  case (ms_consumer ms br c c')
  then show ?case using sess_consumer [of br0 c0 ms br c c'] by simp
next
  case (ms_poll ms brs c r c')
  then have ih: "session br0 c0 ms (brs 0) c" "mem_broker h (brs 0)" "cn_assigned c = cn_assigned c0"
    "\<forall>m \<in> set ms. msg_key_of m \<in> set (tpl_keys (cn_assigned c0))" by blast+
  have mem: "mem_broker h (brs j)" for j
    by (induction j) (use ih(2) mem_broker_steps ms_poll.hyps(2) ms_poll.prems(2) in blast)+
  show ?case
    using sess_poll [OF ih(1) ms_poll.hyps(2,3)] mem poll_once_keeps [OF ms_poll.hyps(3)]
      received_assigned [OF ms_poll.hyps(3) mem] ih(3,4) by auto
qed

definition msg_place :: "'v stored_message \<Rightarrow> string \<times> i32 \<times> i64" where
  "msg_place m = (msg_topic m, msg_partition m, msg_offset m)"

lemma distinct_places:
  assumes "\<And>t i. sorted_wrt (<) (map msg_offset (of_partition t i ms))"
  shows "distinct (map msg_place ms)"
proof -
  have "distinct (map msg_offset (of_partition t i ms))" for t i
    using assms [of t i] by (simp add: strict_sorted_iff)
  then show ?thesis
  proof (induction ms)
    case (Cons m ms)
    have "distinct (map msg_offset (of_partition t i ms))" for t i
      using Cons.prems [of t i] by (auto simp: of_partition_def split: if_splits)
    moreover have "msg_place m \<notin> msg_place ` set ms"
      using Cons.prems [of "msg_topic m" "msg_partition m"] by (auto simp: of_partition_def msg_place_def)
    ultimately show ?case using Cons.IH by simp
  qed simp
qed

lemma distinct_concat_upto:
  assumes "\<And>i. i < n \<Longrightarrow> distinct (f i)"
    and "\<And>i j x. i < n \<Longrightarrow> j < n \<Longrightarrow> x \<in> set (f i) \<Longrightarrow> x \<in> set (f j) \<Longrightarrow> i = j"
  shows "distinct (concat (map f [0..<n]))"
  using assms
proof (induction n)
  case (Suc n)
  have "distinct (concat (map f [0..<n]))" using Suc by simp
  moreover have "set (concat (map f [0..<n])) \<inter> set (f n) = {}"
  proof -
    have False if "x \<in> set (f i)" "i < n" "x \<in> set (f n)" for x i
      using Suc.prems(2) [of i n x] that by simp
    then show ?thesis by auto
  qed
  ultimately show ?case using Suc.prems(1) [of n] by simp
qed simp

lemma member_tracked:
  assumes "member_session br0 c0 ms br c" and "mem_broker h br0" and "hash_order h" and "cn_position c0 = []"
  shows "tracked t i None br c ms"
proof -
  have "tracked t i None br0 c0 []" using assms(4) by (simp add: tracked_def of_partition_def)
  then show ?thesis
    using session_tracked [OF conjunct1 [OF member_session_keeps [OF assms(1-3)]] assms(2,3)] by blast
qed

lemma member_places:
  assumes "member_session br0 c0 ms br c" and "mem_broker h br0" and "hash_order h" and "cn_position c0 = []"
  shows "distinct (map msg_place ms)"
proof (rule distinct_places)
  fix t i
  have "tracked t i None br c ms" by (rule member_tracked [OF assms])
  then show "sorted_wrt (<) (map msg_offset (of_partition t i ms))"
    by (auto simp: tracked_def caught_up_def split: option.splits)
qed

text \<open>Up to where it is now a member has received all that its partition still holds, from the first
  message it received on.\<close>

lemma member_gapless:
  assumes "member_session br0 c0 ms br c" and "mem_broker h br0" and "hash_order h" and "cn_position c0 = []"
    and m: "m \<in> set ms" and off: "msg_offset m \<le> off"
  shows "\<exists>pos p. map_of (cn_position c) (msg_key_of m) = Some pos \<and>
    inmem_partition (bk_backend br) (msg_topic m) (msg_partition m) = Some p \<and>
    (off < pos \<longrightarrow> (msg_topic m, msg_partition m, off) \<in> msg_place ` set ms \<or> off < first_offset p)"
proof -
  let ?ms = "of_partition (msg_topic m) (msg_partition m) ms"
  have in_ms: "m \<in> set ?ms" using m by (simp add: of_partition_def)
  obtain pos p since where p: "map_of (cn_position c) (msg_key_of m) = Some pos"
    "inmem_partition (bk_backend br) (msg_topic m) (msg_partition m) = Some p" "caught_up since ?ms pos p"
    using member_tracked [OF assms(1-4), of "msg_topic m" "msg_partition m"] in_ms
    by (auto simp: tracked_def split: option.splits)
  note cu = p(3) [unfolded caught_up_def]
  have "since \<le> off" using cu in_ms off by fastforce
  then have "off \<in> msg_offset ` set ?ms \<or> off < first_offset p" if "off < pos" using cu that by blast
  moreover have "(msg_topic m, msg_partition m, off) \<in> msg_place ` set ms" if "off \<in> msg_offset ` set ?ms"
  proof -
    note in_ms = that
    obtain m' where "m' \<in> set ms" "msg_topic m' = msg_topic m" "msg_partition m' = msg_partition m" "msg_offset m' = off"
      using in_ms unfolding of_partition_def by auto
    then show ?thesis by (intro image_eqI [of _ _ m']) (simp_all add: msg_place_def)
  qed
  ultimately have "(msg_topic m, msg_partition m, off) \<in> msg_place ` set ms \<or> off < first_offset p" if "off < pos"
    using that by blast
  then show ?thesis using p(1,2) by blast
qed


section \<open>What the members get from a broker that stands still\<close>

text \<open>A subscription changes neither what is paused nor the committed offsets.\<close>

lemma subscribe_paused [simp]: "cn_paused (fst (snd (subscribe ts c br))) = cn_paused c"
  by (simp add: subscribe_def Let_def call_context_def split_beta split: option.split res.split)

lemma subscribe_store [simp]: "bk_offset_store (snd (snd (subscribe ts c br))) = bk_offset_store br"
proof -
  have topics: "bk_offset_store (snd (st_for ensure_default ts br)) = bk_offset_store br" for br :: "('a, 'b) broker"
    by (rule st_for_inv [where I = "\<lambda>s. bk_offset_store s = bk_offset_store br"])
      (simp_all add: ensure_default_def broker_ensure_topic_def on_backend_def split_beta)
  have "bk_offset_store (snd (broker_join_group gid m ts br)) = bk_offset_store br" for gid m
    unfolding broker_join_group_def
    by (intro st_bind_keeps [where g = bk_offset_store])
      (simp_all add: st_read_def create_group_def join_entry_def split_beta topics)
  then show ?thesis by (simp add: subscribe_def Let_def split_beta split: option.split res.split)
qed

lemma subscribe_all_keeps:
  "subscribe_all ts cs br = (cs', br') \<Longrightarrow> map cn_paused cs' = map cn_paused cs \<and> bk_offset_store br' = bk_offset_store br"
proof (induction cs arbitrary: br cs' br')
  case (Cons c cs)
  obtain cs1 br1 where cs1: "subscribe_all ts cs (snd (snd (subscribe ts c br))) = (cs1, br1)" by fastforce
  then have "cs' = fst (snd (subscribe ts c br)) # cs1" "br' = br1" using Cons.prems by (simp_all add: split_beta)
  then show ?case using Cons.IH [OF cs1] by simp
qed simp

definition log_of :: "('v in_memory, 'v) broker \<Rightarrow> partition_key \<Rightarrow> 'v stored_message list" where
  "log_of br key = (case inmem_partition (bk_backend br) (fst key) (snd key) of
     None \<Rightarrow> [] | Some p \<Rightarrow> buf_log (buffer p))"

text \<open>A consumer that starts afresh gets the whole log of each of its partitions.\<close>

lemma fresh_member_drains:
  assumes "mem_broker h br" and "\<not> bk_shutdown br" and "cn_position c = []" and "cn_paused c = []"
    and "\<And>gid t p. cn_group_id c = Some gid \<Longrightarrow> map_of (os_offsets (bk_offset_store br)) (gid, t, p) = None"
  shows "\<exists>ms c'. polls (\<Sum>key \<in> set (tpl_keys (cn_assigned c)). length (log_of br key)) br c =
      (map (\<lambda>m. Some (Ok (borrowed_new m))) ms, c') \<and>
    (\<forall>t p. of_partition t p ms = (if (t, p) \<in> set (tpl_keys (cn_assigned c)) then log_of br (t, p) else [])) \<and>
    poll_once (\<lambda>_. br) c' = (None, c')"
proof -
  have keys: "polled_keys c = set (tpl_keys (cn_assigned c))" using assms(4) by (simp add: polled_keys_def)
  have none: "map_of (os_offsets (bk_offset_store br)) (gid, key) = None" if "cn_group_id c = Some gid" for gid key
    using assms(5) [OF that, of "fst key" "snd key"] by simp
  then have "in_step br c key" for key using in_step_fresh [OF assms(1,2), of c key] assms(3) by simp
  moreover have b: "backlog br c key = log_of br key" for key
    using backlog_fresh [OF assms(1,2), of c key] assms(3) none
    by (cases "inmem_partition (bk_backend br) (fst key) (snd key)") (auto simp: log_of_def backlog_def)
  ultimately show ?thesis using polls_drain [OF assms(1,2), of c, unfolded keys b] by blast
qed


section \<open>Properties\<close>

text \<open>C24: A group that has settled splits its topics. When the consumers of a group without other
  members have subscribed to the same topics, and then each of them has subscribed again, each
  partition of these topics is assigned to exactly one of the consumers, and nothing else is
  assigned to any of them. One round does not do: see \<open>first_round_overlaps\<close>.\<close>

theorem resubscribed_group_splits:
  assumes "joinable h br" and "hash_order h" and "\<forall>c \<in> set cs. cn_group_id c = Some gid"
    and "distinct (map cn_member_id cs)" and "cs \<noteq> []" and "group_topics gid br = []"
    and "subscribe_all ts cs br = (cs1, br1)" and "subscribe_all ts cs1 br1 = (cs2, br2)"
  shows "length cs2 = length cs \<and> (\<forall>t p.
    (if t \<in> set ts \<and> 0 \<le> p \<and> p < topic_size br t
     then \<exists>!i. i < length cs2 \<and> (t, p) \<in> set (tpl_keys (cn_assigned (cs2 ! i)))
     else \<forall>c \<in> set cs2. (t, p) \<notin> set (tpl_keys (cn_assigned c))))"
proof -
  note split = second_round_splits [OF assms(1-4,6-8)]
  have len: "length cs2 = length cs" by (rule subscribe_twice(1) [OF assms(1-3,7,8) refl])
  have "\<exists>!i. i < length cs2 \<and> (t, p) \<in> set (tpl_keys (cn_assigned (cs2 ! i)))"
    if t: "t \<in> set ts" "0 \<le> p" "p < topic_size br t" for t p
    using split(1) [OF t assms(5)] split(3) len by metis
  moreover have "(t, p) \<notin> set (tpl_keys (cn_assigned c))"
    if "\<not> (t \<in> set ts \<and> 0 \<le> p \<and> p < topic_size br t)" "c \<in> set cs2" for t p c
    using that split(2) [of _ t p] len by (metis in_set_conv_nth)
  ultimately show ?thesis using len by simp
qed

definition demo_consumers :: "rmq_consumer list" where
  "demo_consumers = [fresh_consumer (Some ''g'') ''a'', fresh_consumer (Some ''g'') ''b'']"

lemma demo_joinable: "joinable remdups demo_broker"
  using demo_broker_mem by (auto simp: joinable_def)

lemma demo_consumers_facts:
  "\<forall>c \<in> set demo_consumers. cn_group_id c = Some ''g''" "distinct (map cn_member_id demo_consumers)"
  "demo_consumers \<noteq> []" "group_topics ''g'' demo_broker = []" "\<forall>c \<in> set demo_consumers. cn_position c = []"
  by (simp_all add: demo_consumers_def fresh_consumer_def group_topics_def group_entry_def group_new_def demo_broker_def)

theorem resubscribed_group_splits_witness:
  "\<exists>cs1 cs2 br1 br2. subscribe_all [''t''] demo_consumers demo_broker = (cs1, br1) \<and>
     subscribe_all [''t''] cs1 br1 = (cs2, br2) \<and>
     (\<exists>!i. i < length cs2 \<and> (''t'', 1) \<in> set (tpl_keys (cn_assigned (cs2 ! i))))"
proof -
  obtain cs1 br1 where s1: "subscribe_all [''t''] demo_consumers demo_broker = (cs1, br1)" by fastforce
  obtain cs2 br2 where s2: "subscribe_all [''t''] cs1 br1 = (cs2, br2)" by fastforce
  have "1 < topic_size demo_broker ''t''" by (simp add: topic_size_def seen_count_def)
  then show ?thesis
    using resubscribed_group_splits [OF demo_joinable hash_order_remdups demo_consumers_facts(1-4) s1 s2,
      THEN conjunct2, rule_format, of "''t''" 1] s1 s2 by simp
qed

text \<open>C9: A settled group receives nothing twice and skips nothing. Once the consumers of a group
  have subscribed to the same topics and then each again, whatever the members poll, pause or commit and whatever the broker does between their fetches (also other
  consumers joining, whose assignments the members do not learn of), no message of the log is
  received twice in the whole group; and each member has received, from the first message of a
  partition it got up to where it stands there, every message that was not evicted.\<close>

theorem group_delivers_once:
  assumes "joinable h br" and "hash_order h" and "\<forall>c \<in> set cs. cn_group_id c = Some gid"
    and "distinct (map cn_member_id cs)" and "group_topics gid br = []" and "\<forall>c \<in> set cs. cn_position c = []"
    and "subscribe_all ts cs br = (cs1, br1)" and "subscribe_all ts cs1 br1 = (cs2, br2)"
    and "\<And>i. i < length cs \<Longrightarrow> member_session br2 (cs2 ! i) (got i) br' (cs' i)"
  shows "distinct (map msg_place (concat (map got [0..<length cs]))) \<and>
    (\<forall>i < length cs. \<forall>m \<in> set (got i). \<forall>off \<ge> msg_offset m.
       \<exists>pos p. map_of (cn_position (cs' i)) (msg_key_of m) = Some pos \<and>
         inmem_partition (bk_backend br') (msg_topic m) (msg_partition m) = Some p \<and>
         (off < pos \<longrightarrow> (msg_topic m, msg_partition m, off) \<in> msg_place ` set (got i) \<or> off < first_offset p))"
proof -
  note twice = subscribe_twice [OF assms(1-3,7,8) refl]
  have mem: "mem_broker h br2" using twice(2) by (simp add: joinable_def)
  have pos: "cn_position (cs2 ! i) = []" if "i < length cs" for i
    using that assms(6) twice(1,4) by (metis nth_map nth_mem)
  have keys: "msg_key_of m \<in> set (tpl_keys (cn_assigned (cs2 ! i)))" if "i < length cs" "m \<in> set (got i)" for i m
    using member_session_keeps [OF assms(9) [OF that(1)] mem assms(2)] that(2) by blast
  have "i = j" if ij: "i < length cs" "j < length cs" "x \<in> msg_place ` set (got i)" "x \<in> msg_place ` set (got j)" for i j x
  proof -
    obtain m m' where m: "m \<in> set (got i)" "m' \<in> set (got j)" "msg_key_of m = msg_key_of m'"
      using ij(3,4) by (auto simp: msg_place_def)
    show ?thesis
      using second_round_splits(3) [OF assms(1-5,7,8) ij(1,2) keys [OF ij(1) m(1)]] keys [OF ij(2) m(2)] m(3) by simp
  qed
  then have "distinct (concat (map (\<lambda>i. map msg_place (got i)) [0..<length cs]))"
    using member_places [OF assms(9) mem assms(2) pos] by (intro distinct_concat_upto) simp_all
  then show ?thesis
    using member_gapless [OF assms(9) mem assms(2) pos] by (simp add: map_concat comp_def)
qed

theorem group_delivers_once_witness:
  "\<exists>cs2 (br2 :: (nat in_memory, nat) broker). length cs2 = 2 \<and> distinct (map msg_place (concat (map
     (\<lambda>i. received (fst (poll_once (\<lambda>_. br2) (cs2 ! i)))) [0..<2])))"
proof -
  obtain cs1 br1 where s1: "subscribe_all [''t''] demo_consumers demo_broker = (cs1, br1)" by fastforce
  obtain cs2 br2 where s2: "subscribe_all [''t''] cs1 br1 = (cs2, br2)" by fastforce
  have len: "length cs2 = 2" "length demo_consumers = 2"
    using subscribe_twice(1) [OF demo_joinable hash_order_remdups demo_consumers_facts(1) s1 s2 refl]
    by (simp_all add: demo_consumers_def)
  have "member_session br2 c (received (fst (poll_once (\<lambda>_. br2) c))) br2 (snd (poll_once (\<lambda>_. br2) c))" for c
    using ms_poll [OF ms_begin [of "(\<lambda>_. br2) 0" c], of "fst (poll_once (\<lambda>_. br2) c)" "snd (poll_once (\<lambda>_. br2) c)"]
    by simp
  from group_delivers_once [OF demo_joinable hash_order_remdups demo_consumers_facts(1,2,4,5) s1 s2 this]
  show ?thesis unfolding len(2) using len(1) by blast
qed


text \<open>C10: A settled group drains its topics. If the members had no positions, the group no committed
  offsets and nothing was paused, then once the members have subscribed to the same topics and
  then each again, on a broker that stands still, every member
  polls until there is nothing left for it; and the messages of each partition have all gone,
  each once and in the order of the log, to one member, and none of them to any other.\<close>

theorem settled_group_drains:
  assumes "joinable h br" and "hash_order h" and "\<forall>c \<in> set cs. cn_group_id c = Some gid"
    and "distinct (map cn_member_id cs)" and "group_topics gid br = []" and "cs \<noteq> []"
    and "\<forall>c \<in> set cs. cn_position c = [] \<and> cn_paused c = []"
    and "\<forall>t p. map_of (os_offsets (bk_offset_store br)) (gid, t, p) = None"
    and "subscribe_all ts cs br = (cs1, br1)" and "subscribe_all ts cs1 br1 = (cs2, br2)"
  shows "\<exists>ms. (\<forall>i < length cs. \<exists>n c'. polls n br2 (cs2 ! i) = (map (\<lambda>m. Some (Ok (borrowed_new m))) (ms i), c') \<and>
      poll_once (\<lambda>_. br2) c' = (None, c')) \<and>
    (\<forall>t \<in> set ts. \<forall>p. 0 \<le> p \<longrightarrow> p < topic_size br t \<longrightarrow>
      (\<exists>i < length cs. of_partition t p (ms i) = log_of br2 (t, p) \<and>
         (\<forall>j < length cs. j \<noteq> i \<longrightarrow> of_partition t p (ms j) = [])))"
proof -
  note twice = subscribe_twice [OF assms(1-3,9,10) refl] and split = second_round_splits [OF assms(1-5,9,10)]
  have br2: "mem_broker h br2" "\<not> bk_shutdown br2" using twice(2) by (simp_all add: joinable_def)
  have store: "bk_offset_store br2 = bk_offset_store br" "map cn_paused cs2 = map cn_paused cs"
    using subscribe_all_keeps [OF assms(9)] subscribe_all_keeps [OF assms(10)] by simp_all
  have fresh: "cn_position (cs2 ! i) = []" "cn_paused (cs2 ! i) = []" "cn_group_id (cs2 ! i) = Some gid"
    if "i < length cs" for i
    using that assms(3,7) twice(1) arg_cong [OF twice(4), of "\<lambda>xs. xs ! i"] arg_cong [OF store(2), of "\<lambda>xs. xs ! i"]
      arg_cong [OF twice(5), of "\<lambda>xs. xs ! i"] by simp_all
  let ?keys = "\<lambda>i. set (tpl_keys (cn_assigned (cs2 ! i)))"
  have "\<forall>i. \<exists>ms. i < length cs \<longrightarrow> (\<exists>n c'. polls n br2 (cs2 ! i) = (map (\<lambda>m. Some (Ok (borrowed_new m))) ms, c') \<and>
      poll_once (\<lambda>_. br2) c' = (None, c')) \<and>
    (\<forall>t p. of_partition t p ms = (if (t, p) \<in> ?keys i then log_of br2 (t, p) else []))"
    using fresh_member_drains [OF br2 fresh(1,2)] fresh(3) assms(8) by (fastforce simp: store)
  then obtain ms where ms: "\<And>i. i < length cs \<Longrightarrow> \<exists>n c'. polls n br2 (cs2 ! i) =
      (map (\<lambda>m. Some (Ok (borrowed_new m))) (ms i), c') \<and> poll_once (\<lambda>_. br2) c' = (None, c')"
    "\<And>i t p. i < length cs \<Longrightarrow> of_partition t p (ms i) = (if (t, p) \<in> ?keys i then log_of br2 (t, p) else [])"
    by metis
  have "\<exists>i < length cs. of_partition t p (ms i) = log_of br2 (t, p) \<and>
      (\<forall>j < length cs. j \<noteq> i \<longrightarrow> of_partition t p (ms j) = [])"
    if t: "t \<in> set ts" "0 \<le> p" "p < topic_size br t" for t p
  proof -
    obtain i where i: "i < length cs" "(t, p) \<in> ?keys i" using split(1) [OF t assms(6)] by blast
    then have "(t, p) \<notin> ?keys j" if "j < length cs" "j \<noteq> i" for j
      using split(3) [of i j t p] that by blast
    then show ?thesis using i ms(2) by (intro exI [of _ i]) simp
  qed
  then show ?thesis using ms(1) by (intro exI [of _ ms]) blast
qed

theorem settled_group_drains_witness:
  "\<exists>cs2 (br2 :: (nat in_memory, nat) broker) ms i. i < 2 \<and> length cs2 = 2 \<and>
     of_partition ''t'' 1 (ms i) = log_of br2 (''t'', 1) \<and>
     (\<exists>n c'. polls n br2 (cs2 ! i) = (map (\<lambda>m. Some (Ok (borrowed_new m))) (ms i), c'))"
proof -
  obtain cs1 br1 where s1: "subscribe_all [''t''] demo_consumers demo_broker = (cs1, br1)" by fastforce
  obtain cs2 br2 where s2: "subscribe_all [''t''] cs1 br1 = (cs2, br2)" by fastforce
  have len: "length cs2 = 2" "length demo_consumers = 2"
    using subscribe_twice(1) [OF demo_joinable hash_order_remdups demo_consumers_facts(1) s1 s2 refl]
    by (simp_all add: demo_consumers_def)
  have d: "1 < topic_size demo_broker ''t''" by (simp add: topic_size_def seen_count_def)
  have "\<forall>c \<in> set demo_consumers. cn_position c = [] \<and> cn_paused c = []"
    "\<forall>t p. map_of (os_offsets (bk_offset_store demo_broker)) (''g'', t, p) = None"
    by (simp_all add: demo_consumers_def fresh_consumer_def demo_broker_def offset_store_new_def)
  note drained = settled_group_drains [OF demo_joinable hash_order_remdups demo_consumers_facts(1,2,4,3) this s1 s2,
    unfolded len(2)]
  from drained obtain ms where ms: "\<forall>i < 2. \<exists>n c'. polls n br2 (cs2 ! i) = (map (\<lambda>m. Some (Ok (borrowed_new m))) (ms i), c') \<and>
      poll_once (\<lambda>_. br2) c' = (None, c')"
    "\<forall>t \<in> set [''t'']. \<forall>p. 0 \<le> p \<longrightarrow> p < topic_size demo_broker t \<longrightarrow>
      (\<exists>i < 2. of_partition t p (ms i) = log_of br2 (t, p) \<and> (\<forall>j < 2. j \<noteq> i \<longrightarrow> of_partition t p (ms j) = []))"
    by blast
  then have "\<exists>i < 2. of_partition ''t'' 1 (ms i) = log_of br2 (''t'', 1)"
    using d by (metis list.set_intros(1) zero_le_one)
  then obtain i where "i < 2" "of_partition ''t'' 1 (ms i) = log_of br2 (''t'', 1)" by blast
  then show ?thesis using ms(1) len(1) by blast
qed

end
