(* ===== verification/Shared_Consumer.thy ===== *)
theory Shared_Consumer
  imports Base_Consumer
begin

text \<open>
  One consumer of \<open>src/base_consumer.rs\<close> polled by several threads. \<open>poll_once\<close> takes the lock on the
  consumer's state anew for each thing it reads or writes, and fetches without holding it; here a
  poll is cut at these points into turns, and the turns of the threads interleave with each other
  and with the steps of the broker. A thread that is alone takes the turns of \<open>poll_once\<close> as
  \<open>Base_Consumer\<close> defines it.
\<close>

section \<open>The turns of a poll\<close>

text \<open>
  Where a thread stands: about to read the start and the number of partitions; in the loop at
  iteration \<open>i\<close> with \<open>n\<close> to go after it, about to read the next element; about to fetch, with the
  index, the key and the position it has read; about to store the position after a message; about to
  store an adjusted position; done.
\<close>

datatype 'v poll_pc =
    PollBegin
  | PollScan usize usize nat nat
  | PollFetch usize usize nat nat usize partition_key "i64 option"
  | PollStore usize partition_key "'v stored_message"
  | PollAdjust usize usize nat nat partition_key i64
  | PollEnd "'v borrowed_message res option"

fun poll_turn ::
    "('b, 'v) broker \<Rightarrow> 'v poll_pc \<times> rmq_consumer \<Rightarrow> 'v poll_pc \<times> rmq_consumer" where
  "poll_turn br (PollBegin, c) =
     (let len = length (tpl_elements (cn_assigned c));
          start = (if 0 < len then cn_poll_start c mod len else 0)
      in (if len = 0 then PollEnd None else PollScan start len 0 len, c))"
| "poll_turn br (PollScan start len i 0, c) = (PollEnd None, c)"
| "poll_turn br (PollScan start len i (Suc n), c) =
     (let idx = (start + i) mod len;
          elements = tpl_elements (cn_assigned c)
      in if length elements \<le> idx then (PollScan start len (Suc i) n, c)
         else
           (let elem = elements ! idx;
                key = (tpe_topic elem, tpe_partition elem)
            in (if key \<in> set (cn_paused c) then PollScan start len (Suc i) n
                else PollFetch start len i n idx key (map_of (cn_position c) key), c)))"
| "poll_turn br (PollFetch start len i n idx key position, c) =
     (case fetch_one_from_position (fst key) (snd key) position (cn_group_id c) br of
        Ok (Some m) \<Rightarrow> PollStore idx key m
      | Ok None \<Rightarrow> PollScan start len (Suc i) n
      | Err (OffsetOutOfRange _ _ off) \<Rightarrow> PollAdjust start len i n key off
      | Err (TopicNotFound _) \<Rightarrow> PollScan start len (Suc i) n
      | Err (PartitionOutOfRange _ _) \<Rightarrow> PollScan start len (Suc i) n
      | Err e \<Rightarrow> PollEnd (Some (Err e))
      | Panic x \<Rightarrow> PollEnd (Some (Panic x)), c)"
| "poll_turn br (PollStore idx key m, c) =
     (PollEnd (Some (Ok (borrowed_new m))),
      (set_position key (wrap_i64 (msg_offset m + 1)) c)\<lparr>cn_poll_start := idx + 1\<rparr>)"
| "poll_turn br (PollAdjust start len i n key off, c) =
     (PollScan start len (Suc i) n, set_position key off c)"
| "poll_turn br (PollEnd r, c) = (PollEnd r, c)"

text \<open>How many turns are left at most, once the number of partitions has been read.\<close>

fun turns_left :: "'v poll_pc \<Rightarrow> nat" where
  "turns_left (PollScan start len i n) = 3 * n + 1"
| "turns_left (PollFetch start len i n idx key position) = 3 * n + 3"
| "turns_left (PollStore idx key m) = 1"
| "turns_left (PollAdjust start len i n key off) = 3 * n + 2"
| "turns_left _ = 0"

text \<open>Nothing the other threads or the broker do can keep a thread from getting on.\<close>

lemma poll_turn_advances:
  assumes "pc \<noteq> PollBegin" and "turns_left pc \<noteq> 0"
  shows "turns_left (fst (poll_turn br (pc, c))) < turns_left pc"
proof (cases pc)
  case (PollScan start len i n)
  then show ?thesis by (cases n) (simp_all add: Let_def)
next
  case (PollFetch start len i n idx key position)
  then show ?thesis by (auto split: res.splits option.splits rmq_error.splits)
qed (use assms in simp_all)

text \<open>A thread on its own; its fetch in iteration \<open>i\<close> is made of \<open>brs i\<close>.\<close>

fun iteration :: "'v poll_pc \<Rightarrow> nat" where
  "iteration (PollFetch start len i n idx key position) = i"
| "iteration _ = 0"

fun poll_alone ::
    "nat \<Rightarrow> (nat \<Rightarrow> ('b, 'v) broker) \<Rightarrow> 'v poll_pc \<times> rmq_consumer \<Rightarrow> 'v poll_pc \<times> rmq_consumer" where
  "poll_alone 0 brs x = x"
| "poll_alone (Suc k) brs x = poll_alone k brs (poll_turn (brs (iteration (fst x))) x)"

lemma poll_alone_End [simp]: "poll_alone k brs (PollEnd r, c) = (PollEnd r, c)"
  by (induction k) simp_all

lemma poll_alone_scan:
  assumes "turns_left (PollScan start len i n :: 'v poll_pc) \<le> k"
  shows "poll_alone k brs (PollScan start len i n :: 'v poll_pc, c) =
     (case poll_scan brs start len i n c of (r, c') \<Rightarrow> (PollEnd r, c'))"
  using assms
proof (induction n arbitrary: i c k)
  case 0
  then obtain k' where "k = Suc k'" by (cases k) auto
  then show ?case by simp
next
  case (Suc n)
  then obtain k' where k: "k = Suc (Suc (Suc k'))" "3 * n + 1 \<le> k'"
    using le_Suc_ex [of 4 k] by (auto simp: numeral_eq_Suc)
  have more: "turns_left (PollScan start len (Suc i) n :: 'v poll_pc) \<le> Suc (Suc k')"
    "turns_left (PollScan start len (Suc i) n :: 'v poll_pc) \<le> Suc k'"
    "turns_left (PollScan start len (Suc i) n :: 'v poll_pc) \<le> k'"
    using k(2) by simp_all
  let ?idx = "(start + i) mod len" and ?els = "tpl_elements (cn_assigned c)"
  let ?key = "(tpe_topic (?els ! ?idx), tpe_partition (?els ! ?idx))"
  let ?f = "fetch_one_from_position (fst ?key) (snd ?key) (map_of (cn_position c) ?key) (cn_group_id c) (brs i)"
  note IH = more [THEN Suc.IH]
  show ?case
  proof (cases "length ?els \<le> ?idx \<or> ?key \<in> set (cn_paused c)")
    case True
    then show ?thesis using IH(1) [of c] k(1) by (auto simp: Let_def)
  next
    case False
    then show ?thesis
      using IH(2) [of c] IH(3) k(1)
      by (cases ?f) (auto simp: Let_def split: option.splits rmq_error.splits)
  qed
qed

lemma poll_alone_once:
  assumes "3 * length (tpl_elements (cn_assigned c)) + 2 \<le> k"
  shows "poll_alone k brs (PollBegin, c) = (case poll_once brs c of (r, c') \<Rightarrow> (PollEnd r, c'))"
proof -
  obtain k' where k: "k = Suc k'" "3 * length (tpl_elements (cn_assigned c)) + 1 \<le> k'"
    using assms by (cases k) auto
  then show ?thesis
    using poll_alone_scan [of _ "length (tpl_elements (cn_assigned c))" 0 "length (tpl_elements (cn_assigned c))" k']
    by (auto simp: poll_once_def Let_def)
qed


section \<open>Threads\<close>

text \<open>
  The broker, the consumer's state, where its threads stand, and the messages that polls have
  returned. A thread takes a turn or, when its poll is done, begins another; the broker takes a step;
  and operations of the consumer that leave the positions alone may come in between: pausing,
  resuming, subscribing, committing.
\<close>

type_synonym 'v shared = "('v in_memory, 'v) broker \<times> rmq_consumer \<times> 'v poll_pc list \<times> 'v stored_message list"

fun poll_result :: "'v poll_pc \<Rightarrow> 'v borrowed_message res option" where
  "poll_result (PollEnd r) = r"
| "poll_result _ = None"

inductive shared_step :: "'v shared \<Rightarrow> 'v shared \<Rightarrow> bool" where
  sh_turn: "k < length ts \<Longrightarrow> \<not> (\<exists>r. ts ! k = PollEnd r) \<Longrightarrow> poll_turn br (ts ! k, c) = (pc, c') \<Longrightarrow>
    shared_step (br, c, ts, got) (br, c', ts[k := pc], got @ received (poll_result pc))"
| sh_again: "k < length ts \<Longrightarrow> ts ! k = PollEnd r \<Longrightarrow>
    shared_step (br, c, ts, got) (br, c, ts[k := PollBegin], got)"
| sh_broker: "broker_step br br' \<Longrightarrow> shared_step (br, c, ts, got) (br', c, ts, got)"
| sh_consumer: "cn_position c' = cn_position c \<Longrightarrow> shared_step (br, c, ts, got) (br, c', ts, got)"

inductive_cases shared_stepE: "shared_step (br, c, ts, got) s"

text \<open>The messages of a partition that threads have fetched but not yet returned.\<close>

fun flight :: "partition_key \<Rightarrow> 'v poll_pc \<Rightarrow> 'v stored_message set" where
  "flight key (PollStore idx k m) = (if k = key then {m} else {})"
| "flight key _ = {}"

definition in_flight :: "partition_key \<Rightarrow> 'v poll_pc list \<Rightarrow> 'v stored_message set" where
  "in_flight key ts = (\<Union>pc \<in> set ts. flight key pc)"

definition held :: "partition_key \<Rightarrow> 'v poll_pc list \<Rightarrow> 'v stored_message list \<Rightarrow> 'v stored_message set" where
  "held key ts got = set (of_partition (fst key) (snd key) got) \<union> in_flight key ts"

text \<open>Nothing between \<open>since\<close> and \<open>x\<close> is missing, and what is held is the partition's.\<close>

definition reached :: "i64 \<Rightarrow> 'v partition \<Rightarrow> 'v stored_message set \<Rightarrow> i64 \<Rightarrow> bool" where
  "reached since p H x \<longleftrightarrow> x \<le> end_offset p \<and>
     (\<forall>off. since \<le> off \<longrightarrow> off < x \<longrightarrow> off \<in> msg_offset ` H \<or> off < first_offset p)"

definition authentic :: "'v partition \<Rightarrow> 'v stored_message set \<Rightarrow> bool" where
  "authentic p H \<longleftrightarrow> (\<forall>m \<in> H. msg_offset m < end_offset p \<and>
     (msg_offset m < first_offset p \<or> read_one p (msg_offset m) = Ok (Some m)))"

fun pc_reached :: "partition_key \<Rightarrow> i64 \<Rightarrow> 'v partition \<Rightarrow> 'v stored_message set \<Rightarrow> 'v poll_pc \<Rightarrow> bool" where
  "pc_reached key since p H (PollFetch start len i n idx k position) \<longleftrightarrow>
     (k = key \<longrightarrow> (\<exists>x. position = Some x \<and> reached since p H x))"
| "pc_reached key since p H (PollStore idx k m) \<longleftrightarrow>
     msg_topic m = fst k \<and> msg_partition m = snd k \<and>
     (k = key \<longrightarrow> reached since p H (msg_offset m) \<and> 0 \<le> msg_offset m)"
| "pc_reached key since p H (PollAdjust start len i n k off) \<longleftrightarrow> (k = key \<longrightarrow> reached since p H off)"
| "pc_reached key since p H _ \<longleftrightarrow> True"

lemma reached_mono:
  assumes "reached since p H x" and "H \<subseteq> H'" and "first_offset p \<le> first_offset q"
    and "end_offset p \<le> end_offset q"
  shows "reached since q H' x"
  using assms unfolding reached_def by (meson image_mono order_less_le_trans order_trans subsetD)

lemma authentic_step:
  assumes "authentic p H" and "partition_step\<^sup>*\<^sup>* p q" and "wf_partition p"
  shows "authentic q H"
proof -
  have w: "first_offset p \<le> first_offset q" "end_offset p \<le> end_offset q"
    using plog.run_low [OF assms(2,3)] plog.run_high [OF assms(2,3)] .
  have "msg_offset m < end_offset q \<and>
      (msg_offset m < first_offset q \<or> read_one q (msg_offset m) = Ok (Some m))" if "m \<in> H" for m
    using assms(1) that w plog.run_fetch [OF assms(2,3), of "msg_offset m"]
    by (fastforce simp: authentic_def)
  then show ?thesis by (simp add: authentic_def)
qed

definition shared_inv ::
    "(string list \<Rightarrow> string list) \<Rightarrow> partition_key \<Rightarrow> i64 \<Rightarrow> 'v shared \<Rightarrow> bool" where
  "shared_inv h key since s \<longleftrightarrow>
     (case s of (br, c, ts, got) \<Rightarrow>
        mem_broker h br \<and>
        (\<exists>p x. inmem_partition (bk_backend br) (fst key) (snd key) = Some p \<and>
           map_of (cn_position c) key = Some x \<and> reached since p (held key ts got) x \<and>
           authentic p (held key ts got) \<and>
           (\<forall>pc \<in> set ts. pc_reached key since p (held key ts got) pc)))"

lemma pc_reached_mono:
  assumes "pc_reached key since p H pc" and "H \<subseteq> H'" and "first_offset p \<le> first_offset q"
    and "end_offset p \<le> end_offset q"
  shows "pc_reached key since q H' pc"
  using assms reached_mono [OF _ assms(2-4)] by (cases pc) auto

lemma in_flight_update:
  assumes "k < length ts"
  shows "in_flight key ts \<subseteq> in_flight key (ts[k := pc]) \<union> flight key (ts ! k)"
    and "in_flight key (ts[k := pc]) \<subseteq> in_flight key ts \<union> flight key pc"
    and "flight key pc \<subseteq> in_flight key (ts[k := pc])"
proof -
  show "in_flight key ts \<subseteq> in_flight key (ts[k := pc]) \<union> flight key (ts ! k)"
  proof
    fix m assume "m \<in> in_flight key ts"
    then obtain j where j: "j < length ts" "m \<in> flight key (ts ! j)"
      by (auto simp: in_flight_def in_set_conv_nth)
    show "m \<in> in_flight key (ts[k := pc]) \<union> flight key (ts ! k)"
    proof (cases "j = k")
      case False
      then have "ts ! j \<in> set (ts[k := pc])"
        using j(1) by (metis length_list_update nth_list_update_neq nth_mem)
      then show ?thesis using j(2) by (auto simp: in_flight_def)
    qed (use j(2) in simp)
  qed
  show "in_flight key (ts[k := pc]) \<subseteq> in_flight key ts \<union> flight key pc"
    using set_update_subset_insert [of ts k pc] by (auto simp: in_flight_def)
  show "flight key pc \<subseteq> in_flight key (ts[k := pc])"
    using assms unfolding in_flight_def by (meson UN_upper set_update_memI)
qed

text \<open>What a turn has to keep.\<close>

lemma shared_inv_turn:
  assumes inv: "shared_inv h key since (br, c, ts, got)" and k: "k < length ts"
    and moved: "flight key (ts ! k) \<subseteq> flight key pc \<union> set (of_partition (fst key) (snd key) new)"
    and turn: "\<And>p x H H'. inmem_partition (bk_backend br) (fst key) (snd key) = Some p \<Longrightarrow>
      map_of (cn_position c) key = Some x \<Longrightarrow> mem_broker h br \<Longrightarrow> H = held key ts got \<Longrightarrow>
      reached since p H x \<Longrightarrow> authentic p H \<Longrightarrow> pc_reached key since p H (ts ! k) \<Longrightarrow>
      H' = H \<union> flight key pc \<union> set (of_partition (fst key) (snd key) new) \<Longrightarrow>
      (\<exists>y. map_of (cn_position c') key = Some y \<and> reached since p H' y) \<and> authentic p H' \<and>
      pc_reached key since p H' pc"
  shows "shared_inv h key since (br, c', ts[k := pc], got @ new)"
proof -
  let ?H = "held key ts got" and ?H' = "held key (ts[k := pc]) (got @ new)"
  obtain p x where px: "mem_broker h br" "inmem_partition (bk_backend br) (fst key) (snd key) = Some p"
    "map_of (cn_position c) key = Some x" "reached since p ?H x" "authentic p ?H"
    "\<forall>pc \<in> set ts. pc_reached key since p ?H pc"
    using inv by (auto simp: shared_inv_def)
  have H': "?H' = ?H \<union> flight key pc \<union> set (of_partition (fst key) (snd key) new)"
    using in_flight_update [OF k, of key pc] moved by (auto simp: held_def of_partition_def)
  have pc: "pc_reached key since p ?H (ts ! k)" using px(6) k by simp
  note t = turn [OF px(2,3,1) refl px(4,5) pc H']
  have "pc_reached key since p ?H' pc'" if "pc' \<in> set (ts[k := pc])" for pc'
  proof (cases "pc' = pc")
    case False
    then have "pc' \<in> set ts" using that set_update_subset_insert [of ts k pc] by auto
    then show ?thesis using pc_reached_mono [of key since p ?H pc' ?H' p] px(6) H' by blast
  qed (use t in blast)
  then show ?thesis using px(1,2) t unfolding shared_inv_def by blast
qed

text \<open>The turns, one kind after the other.\<close>

lemma shared_inv_fetch:
  assumes inv: "shared_inv h key since (br, c, ts, got)" and k: "k < length ts"
    and pc: "ts ! k = PollFetch start len i n idx kk position"
    and t: "poll_turn br (ts ! k, c) = (pc', c')"
  shows "shared_inv h key since (br, c', ts[k := pc'], got @ received (poll_result pc'))"
proof (rule shared_inv_turn [OF inv k])
  let ?f = "fetch_one_from_position (fst kk) (snd kk) position (cn_group_id c) br"
  have c': "c' = c" and no_result: "received (poll_result pc') = []"
    using t pc by (auto split: res.splits option.splits rmq_error.splits)
  show "flight key (ts ! k) \<subseteq> flight key pc' \<union> set (of_partition (fst key) (snd key) (received (poll_result pc')))"
    by (simp add: pc)
  fix p x H H'
  assume p: "inmem_partition (bk_backend br) (fst key) (snd key) = Some p" and mem: "mem_broker h br"
    and x: "map_of (cn_position c) key = Some x" "reached since p H x"
    and auth: "authentic p H" and r: "pc_reached key since p H (ts ! k)"
    and H': "H' = H \<union> flight key pc' \<union> set (of_partition (fst key) (snd key) (received (poll_result pc')))"
  have wf: "wf_partition p" using mem_brokerD(4) [OF mem] p by (rule inmem_partition_wf)
  have "authentic p H' \<and> pc_reached key since p H' pc'"
  proof (cases "\<exists>m. ?f = Ok (Some m)")
    case True
    then obtain m where m: "?f = Ok (Some m)" by blast
    then have pc': "pc' = PollStore idx kk m" using t pc by simp
    note f = fetch_message [OF mem m]
    show ?thesis
    proof (cases "kk = key")
      case True
      then obtain y where y: "position = Some y" "reached since p H y" using r pc by auto
      have "read_one p (msg_offset m) = Ok (Some m)" "msg_offset m < end_offset p" "msg_offset m = y"
        "0 \<le> msg_offset m"
        using f p y True wf_partitionD(1) [OF wf] by auto
      then show ?thesis
        using y auth f True reached_mono [OF y(2), of H' p] unfolding H' pc' no_result
        by (auto simp: authentic_def of_partition_def)
    next
      case False
      then show ?thesis using auth f by (auto simp: H' pc' no_result of_partition_def)
    qed
  next
    case False
    then have H: "H' = H"
      using t pc no_result unfolding H'
      by (auto simp: of_partition_def split: res.splits option.splits rmq_error.splits)
    show ?thesis
    proof (cases "\<exists>start len i n off. pc' = PollAdjust start len i n key off")
      case True
      then obtain t' i' off where off: "kk = key" "pc' = PollAdjust start len i n key off"
        "?f = Err (OffsetOutOfRange t' i' off)"
        using t pc by (auto split: res.splits option.splits rmq_error.splits)
      then obtain y where y: "position = Some y" "reached since p H y" using r pc by auto
      have o': "off = (if first_offset p = end_offset p then 0 else first_offset p)"
        using fetch_out_of_range [OF mem off(3)] p off(1) by auto
      have "off \<le> first_offset p" "off \<le> end_offset p"
        using wf_partitionD(1,2) [OF wf] by (auto simp: o')
      then show ?thesis using auth off(2) H by (auto simp: reached_def)
    next
      case adj: False
      then show ?thesis
        using t pc auth H False by (auto split: res.splits option.splits rmq_error.splits)
    qed
  qed
  then show "(\<exists>y. map_of (cn_position c') key = Some y \<and> reached since p H' y) \<and> authentic p H' \<and>
      pc_reached key since p H' pc'"
    using x reached_mono [OF x(2), of H' p] unfolding c' H' by auto
qed

lemma shared_inv_other_turn:
  assumes inv: "shared_inv h key since (br, c, ts, got)" and k: "k < length ts"
    and pc: "\<nexists>start len i n idx kk position. ts ! k = PollFetch start len i n idx kk position"
    and running: "\<nexists>r. ts ! k = PollEnd r"
    and t: "poll_turn br (ts ! k, c) = (pc', c')"
  shows "shared_inv h key since (br, c', ts[k := pc'], got @ received (poll_result pc'))"
proof (rule shared_inv_turn [OF inv k])
  fix p x H H'
  assume p: "inmem_partition (bk_backend br) (fst key) (snd key) = Some p" and mem: "mem_broker h br"
    and x: "map_of (cn_position c) key = Some x" "reached since p H x"
    and H: "H = held key ts got"
    and auth: "authentic p H" and r: "pc_reached key since p H (ts ! k)"
    and H': "H' = H \<union> flight key pc' \<union> set (of_partition (fst key) (snd key) (received (poll_result pc')))"
  show "(\<exists>y. map_of (cn_position c') key = Some y \<and> reached since p H' y) \<and> authentic p H' \<and>
      pc_reached key since p H' pc'"
  proof (cases "ts ! k")
    case PollBegin
    then show ?thesis using t x auth by (auto simp: H' Let_def of_partition_def split: if_splits)
  next
    case (PollScan start len i n)
    then show ?thesis
      using t x auth by (cases n) (auto simp: H' Let_def of_partition_def split: if_splits)
  next
    case (PollStore idx kk m)
    have in_H: "m \<in> H" if "kk = key"
      using k PollStore that unfolding H held_def in_flight_def
      by (metis UN_I UnI2 flight.simps(1) nth_mem singletonI)
    have same: "H' = H"
      using t PollStore r in_H by (auto simp: H' of_partition_def borrowed_new_def prod_eq_iff)
    have wf: "wf_partition p" using mem_brokerD(4) [OF mem] p by (rule inmem_partition_wf)
    have "reached since p H (wrap_i64 (msg_offset m + 1))" if "kk = key"
    proof -
      have o': "reached since p H (msg_offset m)" "0 \<le> msg_offset m" "msg_offset m < end_offset p"
        using r PollStore that auth in_H by (auto simp: authentic_def)
      then have "wrap_i64 (msg_offset m + 1) = msg_offset m + 1"
        using wf_partitionD [OF wf] by (intro wrap_i64_id) (simp add: in_i64_def)
      moreover have "off \<in> msg_offset ` H \<or> off < first_offset p"
        if "since \<le> off" "off < msg_offset m + 1" for off
        using that o'(1) in_H [OF \<open>kk = key\<close>] by (cases "off = msg_offset m") (auto simp: reached_def)
      ultimately show ?thesis using o'(3) by (simp add: reached_def)
    qed
    then show ?thesis using t PollStore x auth same by auto
  next
    case (PollAdjust start len i n kk off)
    then show ?thesis using t x auth r by (auto simp: H' of_partition_def)
  qed (use pc running in auto)
next
  show "flight key (ts ! k) \<subseteq> flight key pc' \<union> set (of_partition (fst key) (snd key) (received (poll_result pc')))"
  proof (cases "ts ! k")
    case (PollStore idx kk m)
    have "msg_topic m = fst kk \<and> msg_partition m = snd kk"
      using inv nth_mem [OF k] PollStore unfolding shared_inv_def by fastforce
    then show ?thesis using t PollStore by (auto simp: of_partition_def borrowed_new_def)
  qed (use pc in auto)
qed

lemma shared_inv_broker:
  assumes inv: "shared_inv h key since (br, c, ts, got)" and step: "broker_step br br'" and ord: "hash_order h"
  shows "shared_inv h key since (br', c, ts, got)"
proof -
  let ?H = "held key ts got"
  obtain p x where px: "mem_broker h br" "inmem_partition (bk_backend br) (fst key) (snd key) = Some p"
    "map_of (cn_position c) key = Some x" "reached since p ?H x" "authentic p ?H"
    "\<forall>pc \<in> set ts. pc_reached key since p ?H pc"
    using inv by (auto simp: shared_inv_def)
  obtain p' where p': "inmem_partition (bk_backend br') (fst key) (snd key) = Some p'" "partition_step\<^sup>*\<^sup>* p p'"
    using broker_step_evolves [OF step px(1)] px(2) unfolding evolves_def by blast
  have wf: "wf_partition p" using mem_brokerD(4) [OF px(1)] px(2) by (rule inmem_partition_wf)
  note w = plog.run_low [OF p'(2) wf] plog.run_high [OF p'(2) wf]
  show ?thesis
    using mem_broker_step [OF step px(1) ord] p'(1) px(3) reached_mono [OF px(4) subset_refl w]
      authentic_step [OF px(5) p'(2) wf] pc_reached_mono [OF _ subset_refl w] px(6)
    unfolding shared_inv_def by blast
qed

lemma shared_inv_step:
  assumes "shared_step s s'" and "shared_inv h key since s" and "hash_order h"
  shows "shared_inv h key since s'"
  using assms(1,2)
proof (cases rule: shared_step.cases)
  case (sh_turn k ts br c pc c' got)
  then show ?thesis
    using shared_inv_fetch [of h key since br c ts got k] shared_inv_other_turn [of h key since br c ts got k]
      assms(2) by metis
next
  case (sh_again k ts r br c got)
  have "shared_inv h key since (br, c, ts[k := PollBegin], got @ [])"
    using assms(2) sh_again
    by (intro shared_inv_turn) (auto simp: of_partition_def)
  then show ?thesis using sh_again by simp
next
  case (sh_broker br br' c ts got)
  then show ?thesis using assms(2,3) shared_inv_broker by blast
next
  case (sh_consumer c' c br ts got)
  then show ?thesis using assms(2) by (simp add: shared_inv_def)
qed

lemma shared_inv_run:
  assumes "shared_step\<^sup>*\<^sup>* s s'" and "shared_inv h key since s" and "hash_order h"
  shows "shared_inv h key since s'"
  using assms by (induction rule: rtranclp_induct) (auto intro: shared_inv_step)


section \<open>Properties\<close>

text \<open>A poll is made of its turns. A thread that polls alone is done after three turns for each
  assigned partition and two more, with the result of \<open>poll_once\<close> and the consumer as \<open>poll_once\<close>
  leaves it, whatever the broker does between the fetches.\<close>

theorem lone_poll_is_poll_once:
  assumes "3 * length (tpl_elements (cn_assigned c)) + 2 \<le> k"
  shows "poll_alone k brs (PollBegin, c) =
    (PollEnd (fst (poll_once brs c)), snd (poll_once brs c))"
  using poll_alone_once [OF assms, of brs] by (simp add: split_beta)

theorem lone_poll_is_poll_once_witness:
  "poll_alone 8 (\<lambda>_. demo_produced) (PollBegin, demo_consumer) =
    (PollEnd (fst (poll_once (\<lambda>_. demo_produced) demo_consumer)),
     snd (poll_once (\<lambda>_. demo_produced) demo_consumer))"
  by (rule lone_poll_is_poll_once) (simp add: demo_consumer_def)

text \<open>C7: Threads that share a consumer lose nothing. Any number of threads poll the same consumer,
  their turns and the operations of the broker interleaving in any way, and begin where its
  position in a partition was \<open>since\<close>. Then every offset from there up to the position now
  belongs to a message that some poll returned, or that some thread has fetched and is
  about to return, or that the partition has evicted; and each message so held is
  the one the partition has at its offset, unless evicted. Nothing is said of how often a
  message is returned.\<close>

theorem shared_poll_loses_nothing:
  assumes "mem_broker h br0" and "hash_order h"
    and "inmem_partition (bk_backend br0) t i = Some p0" and "since \<le> end_offset p0"
    and "map_of (cn_position c0) (t, i) = Some since" and "\<forall>pc \<in> set ts0. pc = PollBegin"
    and "shared_step\<^sup>*\<^sup>* (br0, c0, ts0, []) (br, c, ts, got)"
  shows "\<exists>p pos. inmem_partition (bk_backend br) t i = Some p \<and>
    map_of (cn_position c) (t, i) = Some pos \<and> pos \<le> end_offset p \<and>
    (\<forall>off. since \<le> off \<longrightarrow> off < pos \<longrightarrow> off < first_offset p \<or>
       (\<exists>m. msg_offset m = off \<and> (m \<in> set (of_partition t i got) \<or> (\<exists>idx. PollStore idx (t, i) m \<in> set ts)))) \<and>
    (\<forall>m. m \<in> set (of_partition t i got) \<or> (\<exists>idx. PollStore idx (t, i) m \<in> set ts) \<longrightarrow>
       msg_offset m < first_offset p \<or> read_one p (msg_offset m) = Ok (Some m))"
proof -
  have flying: "in_flight (t, i) ts = {m. \<exists>idx. PollStore idx (t, i) m \<in> set ts}" for ts :: "'a poll_pc list"
  proof -
    have "m \<in> flight (t, i) pc \<longleftrightarrow> (\<exists>idx. pc = PollStore idx (t, i) m)" for m and pc :: "'a poll_pc"
      by (cases pc) auto
    then show ?thesis by (auto simp: in_flight_def)
  qed
  have "shared_inv h (t, i) since (br0, c0, ts0, [])"
    using assms(1,3-6) by (auto simp: shared_inv_def held_def of_partition_def reached_def authentic_def flying)
  from shared_inv_run [OF assms(7) this assms(2)] obtain p pos where
    "inmem_partition (bk_backend br) t i = Some p" "map_of (cn_position c) (t, i) = Some pos"
    "reached since p (held (t, i) ts got) pos" "authentic p (held (t, i) ts got)"
    by (auto simp: shared_inv_def)
  then show ?thesis
    by (intro exI [of _ p] exI [of _ pos]) (fastforce simp: reached_def authentic_def held_def flying)
qed

definition shared_consumer :: rmq_consumer where
  "shared_consumer = (fresh_consumer None ''c'')
     \<lparr>cn_assigned := \<lparr>tpl_elements = [\<lparr>tpe_topic = ''t'', tpe_partition = 1, tpe_offset = Stored\<rparr>]\<rparr>,
      cn_position := [((''t'', 1), 0)]\<rparr>"

lemma demo_fetch_at_0:
  "\<exists>m. fetch_one_from_position ''t'' 1 (Some 0) None demo_produced = Ok (Some m) \<and> msg_offset m = 0"
proof -
  obtain p where p: "inmem_partition (bk_backend demo_produced) ''t'' 1 = Some p"
    "first_offset p = 0" "end_offset p = 1"
    using demo_produced_partition by blast
  have "\<not> im_shutdown (bk_backend demo_produced)"
    using mem_brokerD(6) [OF demo_produced_mem] by simp
  from mem.fetch_one_from_position_spec [OF mem_brokerD(1,4) [OF demo_produced_mem] this
      demo_produced_open, of "''t''" 1 0 1 "Some 0" None 0] p
  show ?thesis by (auto simp: inmem_window_def start_offset_def)
qed

text \<open>Thread \<open>k\<close> of the demonstration at its turns, while the consumer's state is as it was.\<close>

lemma demo_shared_turns:
  assumes m: "fetch_one_from_position ''t'' 1 (Some 0) None demo_produced = Ok (Some m)"
    and "k < length ts" and "ts ! k = PollBegin"
  shows "shared_step\<^sup>*\<^sup>* (demo_produced, shared_consumer, ts, got)
    (demo_produced, shared_consumer, ts[k := PollStore 0 (''t'', 1) m], got)"
proof -
  let ?s = "\<lambda>pc. (demo_produced, shared_consumer, ts[k := pc], got)"
  let ?fetch = "PollFetch 0 1 0 0 0 (''t'', 1) (Some 0)"
  have turn: "shared_step (?s pc) (?s pc')"
    if "poll_turn demo_produced (pc, shared_consumer) = (pc', shared_consumer)"
      "\<nexists>r. pc = PollEnd r" "\<nexists>r. pc' = PollEnd r" for pc pc' :: "nat poll_pc"
    using sh_turn [of k "ts[k := pc]" demo_produced shared_consumer pc' shared_consumer got] that assms(2)
    by (cases pc') auto
  have "shared_step (?s PollBegin) (?s (PollScan 0 1 0 1))"
    by (rule turn) (simp_all add: shared_consumer_def fresh_consumer_def)
  moreover have "shared_step (?s (PollScan 0 1 0 1)) (?s ?fetch)"
    by (rule turn) (simp_all add: shared_consumer_def fresh_consumer_def Let_def)
  moreover have "shared_step (?s ?fetch) (?s (PollStore 0 (''t'', 1) m))"
    by (rule turn) (simp_all add: shared_consumer_def fresh_consumer_def m)
  ultimately have "shared_step\<^sup>*\<^sup>* (?s PollBegin) (?s (PollStore 0 (''t'', 1) m))"
    by (meson converse_rtranclp_into_rtranclp rtranclp.rtrancl_refl)
  then show ?thesis using assms(3) by (metis list_update_id)
qed

lemma demo_shared_store:
  assumes "k < length ts" and "ts ! k = PollStore 0 (''t'', 1) m" and "msg_offset m = 0"
    and "AList.update (''t'', 1) 1 (cn_position c) = [((''t'', 1), 1)]"
  shows "shared_step (br, c, ts, got)
    (br, c\<lparr>cn_position := [((''t'', 1), 1)], cn_poll_start := 1\<rparr>,
     ts[k := PollEnd (Some (Ok (borrowed_new m)))], got @ [m])"
  using sh_turn [OF assms(1), of br c "PollEnd (Some (Ok (borrowed_new m)))"] assms(2-4)
  by (simp add: set_position_def wrap_i64_id in_i64_def borrowed_new_def)

lemma demo_shared_run:
  "\<exists>m c ts. shared_step\<^sup>*\<^sup>* (demo_produced, shared_consumer, [PollBegin, PollBegin], [])
      (demo_produced, c, ts, [m, m]) \<and> msg_offset m = 0 \<and> map_of (cn_position c) (''t'', 1) = Some 1 \<and>
    (\<forall>pc \<in> set ts. \<exists>r. pc = PollEnd r)"
proof -
  obtain m where m: "fetch_one_from_position ''t'' 1 (Some 0) None demo_produced = Ok (Some m)"
    "msg_offset m = 0"
    using demo_fetch_at_0 by blast
  let ?st = "PollStore 0 (''t'', 1) m" and ?done = "PollEnd (Some (Ok (borrowed_new m)))"
  let ?c = "shared_consumer\<lparr>cn_position := [((''t'', 1), 1)], cn_poll_start := 1\<rparr>"
  have "shared_step\<^sup>*\<^sup>* (demo_produced, shared_consumer, [PollBegin, PollBegin], [])
      (demo_produced, shared_consumer, [?st, ?st], [])"
    using demo_shared_turns [OF m(1), of 0 "[PollBegin, PollBegin]" "[]"]
      demo_shared_turns [OF m(1), of 1 "[?st, PollBegin]" "[]"] by simp
  moreover have "shared_step (demo_produced, shared_consumer, [?st, ?st], [])
      (demo_produced, ?c, [?done, ?st], [m])"
    using demo_shared_store [of 0 "[?st, ?st]" m shared_consumer demo_produced "[]"] m(2)
    by (simp add: shared_consumer_def)
  moreover have "shared_step (demo_produced, ?c, [?done, ?st], [m])
      (demo_produced, ?c, [?done, ?done], [m, m])"
    using demo_shared_store [of 1 "[?done, ?st]" m ?c demo_produced "[m]"] m(2) by simp
  ultimately have "shared_step\<^sup>*\<^sup>* (demo_produced, shared_consumer, [PollBegin, PollBegin], [])
      (demo_produced, ?c, [?done, ?done], [m, m])"
    by (meson rtranclp.rtrancl_into_rtrancl)
  then show ?thesis using m(2) by (intro exI conjI) auto
qed

theorem shared_poll_loses_nothing_witness:
  "\<exists>c ts got. shared_step\<^sup>*\<^sup>* (demo_produced, shared_consumer, [PollBegin, PollBegin], [])
      (demo_produced, c, ts, got) \<and> (\<exists>m \<in> set (of_partition ''t'' 1 got). msg_offset m = 0)"
proof -
  obtain p where p: "inmem_partition (bk_backend demo_produced) ''t'' 1 = Some p"
    "first_offset p = 0" "end_offset p = 1"
    using demo_produced_partition by blast
  obtain m c ts where run: "shared_step\<^sup>*\<^sup>* (demo_produced, shared_consumer, [PollBegin, PollBegin], [])
      (demo_produced, c, ts, [m, m])" "map_of (cn_position c) (''t'', 1) = Some 1"
    "\<forall>pc \<in> set ts. \<exists>r. pc = PollEnd r"
    using demo_shared_run by blast
  have "(0 :: int) \<le> end_offset p" "map_of (cn_position shared_consumer) (''t'', 1) = Some 0"
    "\<forall>pc \<in> set [PollBegin, PollBegin :: nat poll_pc]. pc = PollBegin"
    using p(3) by (simp_all add: shared_consumer_def)
  note kept = shared_poll_loses_nothing [OF demo_produced_mem hash_order_remdups p(1) this run(1)]
  have "\<exists>m' \<in> set (of_partition ''t'' 1 [m, m]). msg_offset m' = 0"
    using kept [unfolded p(1) run(2)] p(2) run(3) by (auto dest!: spec [of _ 0])
  then show ?thesis using run(1) by blast
qed

text \<open>Two threads can both be given the same message: both read the position before either stores the
  new one. And a \<open>seek\<close> between the fetch and the store of a poll is lost.\<close>

theorem shared_poll_duplicates:
  "\<exists>m c ts. shared_step\<^sup>*\<^sup>* (demo_produced, shared_consumer, [PollBegin, PollBegin], [])
      (demo_produced, c, ts, [m, m])"
  using demo_shared_run by blast

theorem shared_seek_is_lost:
  "map_of (cn_position (snd (poll_turn br (PollStore idx (t, i) m, snd (seek t i off br' c))))) (t, i) =
     Some (wrap_i64 (msg_offset m + 1))"
  by simp

end
