(* ===== verification/Concurrent_Produce.thy ===== *)
theory Concurrent_Produce
  imports Provenance Log_Service
begin

text \<open>
  Any number of calls of \<open>Broker::produce\<close> and \<open>Broker::produce_typed\<close> (\<open>src/broker.rs\<close>) at once, on the
  in-memory backend. A produce takes locks several times and gives them back in between: the
  shutdown flags, the look for the topic under the read lock and again under the write lock
  (\<open>InMemoryBackend::ensure_topic\<close>), the partition count, the partitioner's atomic counter, and the
  lock of the partition. Here it is cut into turns at these points; the turns of the calls
  interleave with each other and with the other operations of the broker.
\<close>

section \<open>The turns of a produce\<close>

record 'v produce_call =
  rq_sending :: "'v sending"
  rq_partition :: "i32 option"
  rq_timestamp :: "i64 option"
  rq_clock :: clock

fun sending_key :: "'v sending \<Rightarrow> bytes option" where
  "sending_key (SendBytes t k pl hs) = k"
| "sending_key (SendTyped t tp tk hs) = None"

fun sending_append ::
    "clock \<Rightarrow> i32 \<Rightarrow> 'v sending \<Rightarrow> i64 option \<Rightarrow> 'v topic \<Rightarrow> (i32 \<times> i64) res \<times> 'v topic" where
  "sending_append c i (SendBytes t k pl hs) ts = topic_produce c i k pl hs ts"
| "sending_append c i (SendTyped t tp tk hs) ts = topic_produce_typed c i tp tk hs ts"

lemma sending_append_eta [simp]:
  "sending_append c i (SendBytes t k pl hs) = topic_produce c i k pl hs"
  "sending_append c i (SendTyped t tp tk hs) = topic_produce_typed c i tp tk hs"
  by (simp_all add: fun_eq_iff)

text \<open>Where a call stands: what it does in its next turn.\<close>

datatype produce_pc =
    ProduceBegin
  | EnsureCheck
  | EnsureLook
  | EnsureInsert
  | CountCheck
  | CountRead
  | ProduceChoose i32
  | AppendCheck i32
  | ProduceAppend i32
  | ProduceEnd "record_metadata res"

definition go_on :: "('a \<Rightarrow> produce_pc) \<Rightarrow> 'a res \<Rightarrow> produce_pc" where
  "go_on f r = (case r of Ok x \<Rightarrow> f x | Err e \<Rightarrow> ProduceEnd (Err e) | Panic x \<Rightarrow> ProduceEnd (Panic x))"

text \<open>The second half of \<open>ensure_topic\<close>, under the write lock: the topic is looked for again.\<close>

definition ensure_insert :: "string \<Rightarrow> i32 \<Rightarrow> 'v in_memory \<Rightarrow> 'v in_memory" where
  "ensure_insert name n b =
     (if map_of (im_topics b) name \<noteq> None then b
      else b\<lparr>im_topics := AList.update name (topic_new name n (make_partition_config b)) (im_topics b)\<rparr>)"

text \<open>The count, read from the metadata of the topic.\<close>

definition count_read :: "string \<Rightarrow> 'v in_memory \<Rightarrow> i32 res" where
  "count_read name b =
     (case map_of (im_topics b) name of
        None \<Rightarrow> Err (TopicNotFound name)
      | Some t \<Rightarrow> res_map (\<lambda>tm. wrap_i32 (int (length (tmd_partitions tm)))) (topic_metadata_of t))"

text \<open>The rest of the backend's \<open>produce\<close> after its check.\<close>

definition append_unchecked ::
    "clock \<Rightarrow> string \<Rightarrow> i64 option \<Rightarrow> (i64 option \<Rightarrow> 'v topic \<Rightarrow> (i32 \<times> i64) res \<times> 'v topic)
     \<Rightarrow> 'v in_memory \<Rightarrow> (i32 \<times> i64 \<times> i64) res \<times> 'v in_memory" where
  "append_unchecked c name timestamp app b =
     (let ts = (case timestamp of Some t \<Rightarrow> t | None \<Rightarrow> unix_millis c)
      in case inmem_get_topic name b of
           Ok t \<Rightarrow>
             (let (r, t') = app (Some ts) t
              in (res_map (\<lambda>(pid, off). (pid, off, ts)) r, inmem_set_topic name t' b))
         | Err e \<Rightarrow> (Err e, b)
         | Panic x \<Rightarrow> (Panic x, b))"

definition begin_check :: "'v sending \<Rightarrow> ('v in_memory, 'v) broker \<Rightarrow> unit res" where
  "begin_check ev br =
     res_bind (broker_check_shutdown br) (\<lambda>_.
       case ev of
         SendTyped t tp tk hs \<Rightarrow>
           (if bk_in_memory br = None then Err (Custom ''typed produce requires InMemoryBackend'') else Ok ())
       | SendBytes t k pl hs \<Rightarrow> Ok ())"

fun produce_turn ::
    "'v produce_call \<Rightarrow> produce_pc \<times> ('v in_memory, 'v) broker \<Rightarrow> produce_pc \<times> ('v in_memory, 'v) broker" where
  "produce_turn q (ProduceBegin, br) = (go_on (\<lambda>_. EnsureCheck) (begin_check (rq_sending q) br), br)"
| "produce_turn q (EnsureCheck, br) = (go_on (\<lambda>_. EnsureLook) (inmem_check_shutdown (bk_backend br)), br)"
| "produce_turn q (EnsureLook, br) =
     (if map_of (im_topics (bk_backend br)) (sending_topic (rq_sending q)) \<noteq> None then CountCheck
      else EnsureInsert, br)"
| "produce_turn q (EnsureInsert, br) =
     (CountCheck, br\<lparr>bk_backend := ensure_insert (sending_topic (rq_sending q))
        (default_num_partitions (bk_config br)) (bk_backend br)\<rparr>)"
| "produce_turn q (CountCheck, br) = (go_on (\<lambda>_. CountRead) (inmem_check_shutdown (bk_backend br)), br)"
| "produce_turn q (CountRead, br) =
     (go_on ProduceChoose (count_read (sending_topic (rq_sending q)) (bk_backend br)), br)"
| "produce_turn q (ProduceChoose n, br) =
     (case broker_choose (sending_topic (rq_sending q)) (sending_key (rq_sending q)) n (rq_partition q) br of
        (r, br') \<Rightarrow> (go_on AppendCheck r, br'))"
| "produce_turn q (AppendCheck p, br) =
     (go_on (\<lambda>_. ProduceAppend p) (inmem_check_shutdown (bk_backend br)), br)"
| "produce_turn q (ProduceAppend p, br) =
     (case append_unchecked (rq_clock q) (sending_topic (rq_sending q)) (rq_timestamp q)
             (sending_append (rq_clock q) p (rq_sending q)) (bk_backend br) of
        (r, b) \<Rightarrow> (go_on (\<lambda>x. ProduceEnd (Ok (record_metadata_of (sending_topic (rq_sending q)) x))) r,
                   br\<lparr>bk_backend := b\<rparr>))"
| "produce_turn q (ProduceEnd r, br) = (ProduceEnd r, br)"

fun produce_turns :: "nat \<Rightarrow> 'v produce_call \<Rightarrow> produce_pc \<times> ('v in_memory, 'v) broker
     \<Rightarrow> produce_pc \<times> ('v in_memory, 'v) broker" where
  "produce_turns 0 q x = x"
| "produce_turns (Suc k) q x = produce_turns k q (produce_turn q x)"

text \<open>A call on its own is the produce of the broker.\<close>

definition produce_at_once ::
    "'v produce_call \<Rightarrow> ('v in_memory, 'v) broker \<Rightarrow> record_metadata res \<times> ('v in_memory, 'v) broker" where
  "produce_at_once q br =
     (case rq_sending q of
        SendBytes t k pl hs \<Rightarrow>
          broker_produce (rq_clock q) t (rq_partition q) k pl hs (rq_timestamp q) br
      | SendTyped t tp tk hs \<Rightarrow>
          broker_produce_typed (rq_clock q) t (rq_partition q) tp tk hs (rq_timestamp q) br)"

lemma go_on_simps [simp]:
  "go_on f (Ok x) = f x" "go_on f (Err e) = ProduceEnd (Err e)" "go_on f (Panic y) = ProduceEnd (Panic y)"
  by (simp_all add: go_on_def)

lemma produce_turns_End [simp]: "produce_turns k q (ProduceEnd r, br) = (ProduceEnd r, br)"
  by (induction k) simp_all

lemma open_checks:
  assumes "mem_broker h br" and "\<not> bk_shutdown br"
  shows "begin_check ev br = Ok ()" and "inmem_check_shutdown (bk_backend br) = Ok ()"
  using assms
  by (simp_all add: begin_check_def broker_check_shutdown_def inmem_check_shutdown_def mem_brokerD(2,6)
      split: sending.splits)

text \<open>On an open broker the turns are the calls that the produce of \<open>Broker\<close> makes.\<close>

lemma ensure_open:
  assumes "mem_broker h br" and "\<not> bk_shutdown br"
  shows "ensure_default topic br = (Ok (), br\<lparr>bk_backend :=
    ensure_insert topic (default_num_partitions (bk_config br)) (bk_backend br)\<rparr>)"
  using assms mem_brokerD(6) [OF assms(1)]
  by (simp add: ensure_default_def broker_ensure_topic_def on_backend_def mem_brokerD(1)
      inmem_ensure_topic_open ensure_insert_def inmem_set_topic_def)

lemma count_open:
  assumes "mem_broker h br" and "\<not> bk_shutdown br"
  shows "broker_num_partitions topic br = count_read topic (bk_backend br)"
  using open_checks(2) [OF assms]
  by (simp add: broker_num_partitions_def mem_brokerD(1) [OF assms(1)] inmem_metadata_def count_read_def
      topic_metadata_of_def Let_def split: option.splits res.splits)

lemma append_open:
  assumes "mem_broker h br" and "\<not> bk_shutdown br"
  shows "on_backend (inmem_produce_with c topic ts app) br =
    (case append_unchecked c topic ts app (bk_backend br) of (r, b) \<Rightarrow> (r, br\<lparr>bk_backend := b\<rparr>))"
  using open_checks(2) [OF assms]
  by (simp add: on_backend_def inmem_produce_with_def append_unchecked_def Let_def)

lemma mem_broker_ensure_insert:
  assumes "mem_broker h br" and "\<not> bk_shutdown br"
  shows "mem_broker h (br\<lparr>bk_backend := ensure_insert topic (default_num_partitions (bk_config br)) (bk_backend br)\<rparr>)"
  using mem_broker_ensure [OF assms(1), of topic "default_num_partitions (bk_config br)"]
    ensure_open [OF assms, of topic] by (simp add: ensure_default_def)

lemma mem_broker_partitioner: "mem_broker h br \<Longrightarrow> mem_broker h (br\<lparr>bk_partitioner := pt\<rparr>)"
  by (simp add: mem_broker_def)

lemma produce_turns_append:
  assumes "mem_broker h br" and "\<not> bk_shutdown br"
  shows "produce_turns (Suc (Suc n)) q (AppendCheck p, br) =
    (case st_bind (on_backend (inmem_produce_with (rq_clock q) (sending_topic (rq_sending q)) (rq_timestamp q)
         (sending_append (rq_clock q) p (rq_sending q))))
       (\<lambda>x. st_return (record_metadata_of (sending_topic (rq_sending q)) x)) br of
       (r, br') \<Rightarrow> (ProduceEnd r, br'))"
  using open_checks(2) [OF assms]
  by (simp add: append_open [OF assms] st_bind_def st_return_def split: prod.splits res.splits)

lemma produce_turns_count:
  assumes mem: "mem_broker h br" and op: "\<not> bk_shutdown br"
  shows "produce_turns (Suc (Suc (Suc (Suc (Suc n))))) q (CountCheck, br) =
    (case st_bind (st_read (broker_num_partitions (sending_topic (rq_sending q)))) (\<lambda>num_p.
       st_bind (broker_choose (sending_topic (rq_sending q)) (sending_key (rq_sending q)) num_p (rq_partition q)) (\<lambda>p.
       st_bind (on_backend (inmem_produce_with (rq_clock q) (sending_topic (rq_sending q)) (rq_timestamp q)
           (sending_append (rq_clock q) p (rq_sending q))))
         (\<lambda>x. st_return (record_metadata_of (sending_topic (rq_sending q)) x)))) br of
       (r, br') \<Rightarrow> (ProduceEnd r, br'))"
proof (cases "count_read (sending_topic (rq_sending q)) (bk_backend br)")
  case (Ok num_p)
  let ?pt = "partitioner_after (sending_topic (rq_sending q)) (sending_key (rq_sending q)) num_p (rq_partition q)
    (bk_partitioner br)"
  have "mem_broker h (br\<lparr>bk_partitioner := ?pt\<rparr>)" "\<not> bk_shutdown (br\<lparr>bk_partitioner := ?pt\<rparr>)"
    using mem op by (simp_all add: mem_broker_partitioner)
  note app = produce_turns_append [OF this, of n q]
  show ?thesis
    using Ok open_checks(2) [OF mem op] count_open [OF mem op] app
    by (simp add: broker_choose_routed st_bind_def [of "st_read f" for f]
        st_bind_def [of "broker_choose a b c d" for a b c d] st_read_def del: produce_turns.simps
        add: produce_turns.simps(2) [of "Suc (Suc (Suc (Suc n)))"] produce_turns.simps(2) [of "Suc (Suc (Suc n))"]
          produce_turns.simps(2) [of "Suc (Suc n)"])
qed (use open_checks(2) [OF mem op] count_open [OF mem op] in
    \<open>simp_all add: st_bind_def [of "st_read f" for f] st_read_def\<close>)

lemma produce_turns_at_once:
  assumes mem: "mem_broker h br"
  shows "produce_turns 9 q (ProduceBegin, br) = (case produce_at_once q br of (r, br') \<Rightarrow> (ProduceEnd r, br'))"
proof (cases "bk_shutdown br")
  case True
  then have "begin_check (rq_sending q) br = Err BrokerShutdown"
    by (simp add: begin_check_def broker_check_shutdown_def)
  moreover have "produce_at_once q br = (Err BrokerShutdown, br)"
    using True by (simp add: produce_at_once_def broker_closed split: sending.splits)
  ultimately show ?thesis by (simp add: eval_nat_numeral)
next
  case False
  let ?br = "br\<lparr>bk_backend := ensure_insert (sending_topic (rq_sending q)) (default_num_partitions (bk_config br)) (bk_backend br)\<rparr>"
  have mem': "mem_broker h ?br" "\<not> bk_shutdown ?br"
    using mem_broker_ensure_insert [OF mem False] False by simp_all
  have "produce_turns 9 q (ProduceBegin, br) = produce_turns 5 q (CountCheck, ?br) \<or>
      produce_turns 9 q (ProduceBegin, br) = produce_turns 6 q (CountCheck, ?br)"
    using open_checks [OF mem False]
    by (cases "map_of (im_topics (bk_backend br)) (sending_topic (rq_sending q))")
      (simp_all add: eval_nat_numeral ensure_insert_def)
  moreover have "broker_check_shutdown br = Ok ()" using False by (simp add: broker_check_shutdown_def)
  ultimately show ?thesis
    using produce_turns_count [OF mem', of 0 q] produce_turns_count [OF mem', of 1 q]
      mem_brokerD(1,2) [OF mem]
    by (cases "rq_sending q")
      (auto simp: produce_at_once_def broker_produce_def broker_produce_typed_def ensure_open [OF mem False]
        st_bind_def [of "st_read f" for f] st_bind_def [of "ensure_default t" for t] st_read_def
        eval_nat_numeral inmem_produce_def [abs_def] inmem_produce_typed_def [abs_def]
        simp del: produce_turns.simps)
qed


section \<open>What a turn does to the backend\<close>

text \<open>The second halves do not look at the shutdown flag: they do what the whole operation does on
  the backend with the flag down.\<close>

definition reopened :: "'v in_memory \<Rightarrow> 'v in_memory" where
  "reopened b = b\<lparr>im_shutdown := False\<rparr>"

lemma reopened_sel [simp]:
  "im_topics (reopened b) = im_topics b" "\<not> im_shutdown (reopened b)" "im_config (reopened b) = im_config b"
  by (simp_all add: reopened_def)

lemma flag_irrelevant [simp]:
  "inmem_partition (b\<lparr>im_shutdown := x\<rparr>) = inmem_partition b"
  "inmem_count (b\<lparr>im_shutdown := x\<rparr>) = inmem_count b"
  "wf_backend (b\<lparr>im_shutdown := x\<rparr>) = wf_backend b"
  "inmem_room (b\<lparr>im_shutdown := x\<rparr>) = inmem_room b"
  by (simp_all add: inmem_partition_def inmem_count_def wf_backend_def make_partition_config_def inmem_room_def
      fun_eq_iff)

lemma evolves_flag [simp]:
  "evolves (b\<lparr>im_shutdown := x\<rparr>) b' = evolves b b'" "evolves b (b'\<lparr>im_shutdown := x\<rparr>) = evolves b b'"
  by (simp_all add: evolves_def)

lemma ensure_insert_reopened:
  "ensure_insert name n b = (snd (inmem_ensure_topic name n (reopened b)))\<lparr>im_shutdown := im_shutdown b\<rparr>"
  by (simp add: inmem_ensure_topic_open ensure_insert_def inmem_set_topic_def)
    (simp add: reopened_def make_partition_config_def)

lemma append_unchecked_reopened:
  "append_unchecked c name ts app b =
     (case inmem_produce_with c name ts app (reopened b) of (r, b') \<Rightarrow> (r, b'\<lparr>im_shutdown := im_shutdown b\<rparr>))"
  by (auto simp: append_unchecked_def inmem_produce_with_def inmem_check_shutdown_def inmem_get_topic_def
      inmem_set_topic_def split_beta Let_def reopened_def split: option.splits)

lemma ensure_insert_good:
  assumes "wf_backend b"
  shows "wf_backend (ensure_insert name n b)" and "evolves b (ensure_insert name n b)"
    and "im_shutdown (ensure_insert name n b) = im_shutdown b"
    and "inmem_count (ensure_insert name n b) name \<noteq> None"
proof -
  have wf: "wf_backend (reopened b)" using assms by (simp add: reopened_def)
  show "wf_backend (ensure_insert name n b)"
    using wf_ensure_topic [OF wf] by (simp add: ensure_insert_reopened)
  show "evolves b (ensure_insert name n b)"
    using evolves_ensure [of "reopened b" name n] by (simp add: ensure_insert_reopened reopened_def)
qed (simp_all add: ensure_insert_def inmem_count_def)

lemma sending_produce:
  "inmem_produce_with c name ts (sending_append c i ev) b =
     (case ev of SendBytes t k pl hs \<Rightarrow> inmem_produce c name i k pl hs ts b
      | SendTyped t tp tk hs \<Rightarrow> inmem_produce_typed c name i tp tk hs ts b)"
  by (simp add: inmem_produce_def inmem_produce_typed_def split: sending.splits)

lemma append_unchecked_good:
  assumes "wf_backend b" and "inmem_room b name i"
  shows "wf_backend (snd (append_unchecked c name ts (sending_append c i ev) b))"
    and "evolves b (snd (append_unchecked c name ts (sending_append c i ev) b))"
    and "im_shutdown (snd (append_unchecked c name ts (sending_append c i ev) b)) = im_shutdown b"
proof -
  have r: "wf_backend (reopened b)" "inmem_room (reopened b) name i"
    using assms by (simp_all add: reopened_def)
  show "wf_backend (snd (append_unchecked c name ts (sending_append c i ev) b))"
    using wf_inmem_produce [OF r] wf_inmem_produce_typed [OF r]
    by (simp add: append_unchecked_reopened sending_produce split_beta split: sending.splits)
  have "evolves (reopened b) (snd (inmem_produce_with c name ts (sending_append c i ev) (reopened b)))"
    using evolves_produce [OF r(2)] evolves_produce_typed [OF r(2)]
    by (simp add: sending_produce split: sending.splits)
  then show "evolves b (snd (append_unchecked c name ts (sending_append c i ev) b))"
    by (simp add: append_unchecked_reopened split_beta reopened_def)
qed (simp add: append_unchecked_reopened split_beta)

text \<open>An append that succeeds is one to the partition named, at its end.\<close>

definition sent_message :: "'v sending \<Rightarrow> string \<Rightarrow> i32 \<Rightarrow> i64 \<Rightarrow> nat \<Rightarrow> i64 \<Rightarrow> 'v stored_message" where
  "sent_message ev topic i ts at off =
     (case ev of SendBytes t k pl hs \<Rightarrow> stored_new k pl topic i off ts hs at
      | SendTyped t tp tk hs \<Rightarrow> stored_new_typed tp tk topic i off ts hs at)"

lemma sent_message_sel [simp]:
  "msg_offset (sent_message ev topic i ts at off) = off" "msg_topic (sent_message ev topic i ts at off) = topic"
  "msg_partition (sent_message ev topic i ts at off) = i" "msg_timestamp (sent_message ev topic i ts at off) = ts"
  "carries ev (sent_message ev topic i ts at off) \<longleftrightarrow> topic = sending_topic ev"
  by (cases ev; auto simp: sent_message_def stored_defs)+

lemma sending_append_Ok:
  assumes "topic_get_partition t i = Ok p"
  shows "sending_append c i ev (Some ts) t =
    (let (r, p') = append_message c (sent_message ev (topic_name p) (partition_id p) ts (mono c 0)) p
     in (r, topic_set_partition i p' t))"
  using assms
  by (cases ev) (simp_all add: topic_produce_def topic_produce_typed_def partition_append_def
      partition_append_typed_def sent_message_def [abs_def])

lemma append_unchecked_Ok:
  assumes wf: "wf_backend b"
    and r: "fst (append_unchecked c name ts (sending_append c i ev) b) = Ok (pid, off, ts')"
  shows "\<exists>p. inmem_partition b name i = Some p \<and> pid = i \<and> off = end_offset p \<and>
    inmem_partition (snd (append_unchecked c name ts (sending_append c i ev) b)) name i =
      Some (snd (append_message c (sent_message ev name i ts' (mono c 0)) p))"
proof -
  obtain t where t: "map_of (im_topics b) name = Some t"
    using r by (auto simp: append_unchecked_def inmem_get_topic_def Let_def split: option.splits)
  obtain p where p: "topic_get_partition t i = Ok p"
    using r t by (cases ev; cases "topic_get_partition t i")
      (auto simp: append_unchecked_def inmem_get_topic_def Let_def topic_produce_def topic_produce_typed_def)
  have part: "inmem_partition b name i = Some p" using t p by (simp add: inmem_partition_Some)
  have id: "topic_name p = name" "partition_id p = i"
    using partition_reachable_config [OF inmem_partition_reachable [OF wf part]] by simp_all
  have "valid_partition t i" using p by (simp add: topic_get_partition_Ok)
  then show ?thesis
    using r t p part id
    by (auto simp: append_unchecked_def inmem_get_topic_def Let_def sending_append_Ok split_beta
        inmem_partition_set_topic topic_get_set_partition end_offset_def append_message_def)
qed


section \<open>Calls at once\<close>

text \<open>The calls \<open>qs\<close>, where each of them stands, and the broker they share.\<close>

inductive producing ::
    "'v produce_call list \<Rightarrow> ('v in_memory, 'v) broker \<times> produce_pc list
     \<Rightarrow> ('v in_memory, 'v) broker \<times> produce_pc list \<Rightarrow> bool"
  for qs :: "'v produce_call list" where
  pr_turn: "k < length ts \<Longrightarrow> broker_room br \<Longrightarrow> produce_turn (qs ! k) (ts ! k, br) = (pc, br') \<Longrightarrow>
    producing qs (br, ts) (br', ts[k := pc])"
| pr_broker: "broker_step br br' \<Longrightarrow> producing qs (br, ts) (br', ts)"

inductive_cases producingE: "producing qs (br, ts) s"

text \<open>What an acknowledgement means: a message with the content of the call has its place in the log,
  and is there unless it has been evicted.\<close>

definition acked :: "'v in_memory \<Rightarrow> 'v produce_call \<Rightarrow> record_metadata \<Rightarrow> bool" where
  "acked b q meta \<longleftrightarrow> rmd_topic meta = sending_topic (rq_sending q) \<and>
     (\<exists>p. inmem_partition b (rmd_topic meta) (rmd_partition meta) = Some p \<and>
        0 \<le> rmd_offset meta \<and> rmd_offset meta < end_offset p \<and>
        (rmd_offset meta < first_offset p \<or>
         (\<exists>m. read_one p (rmd_offset meta) = Ok (Some m) \<and> carries (rq_sending q) m \<and>
            msg_timestamp m = rmd_timestamp meta)))"

definition place :: "record_metadata \<Rightarrow> string \<times> i32 \<times> i64" where
  "place meta = (rmd_topic meta, rmd_partition meta, rmd_offset meta)"

lemma acked_evolves:
  assumes "acked b q meta" and "evolves b b'" and "wf_backend b"
  shows "acked b' q meta"
proof -
  obtain p where p: "rmd_topic meta = sending_topic (rq_sending q)"
    "inmem_partition b (rmd_topic meta) (rmd_partition meta) = Some p"
    "0 \<le> rmd_offset meta" "rmd_offset meta < end_offset p"
    "rmd_offset meta < first_offset p \<or> (\<exists>m. read_one p (rmd_offset meta) = Ok (Some m) \<and>
       carries (rq_sending q) m \<and> msg_timestamp m = rmd_timestamp meta)"
    using assms(1) by (auto simp: acked_def)
  obtain p' where p': "inmem_partition b' (rmd_topic meta) (rmd_partition meta) = Some p'" "partition_step\<^sup>*\<^sup>* p p'"
    using assms(2) p(2) unfolding evolves_def by blast
  have wf: "wf_partition p" using assms(3) p(2) by (rule inmem_partition_wf)
  have "rmd_offset meta < end_offset p'" using p(4) plog.run_high [OF p'(2) wf] by simp
  moreover have "rmd_offset meta < first_offset p' \<or> read_one p' (rmd_offset meta) = read_one p (rmd_offset meta)"
    using plog.run_fetch [OF p'(2) wf, of "rmd_offset meta"] p(4) by fastforce
  moreover have "first_offset p \<le> first_offset p'" using plog.run_low [OF p'(2) wf] .
  ultimately show ?thesis using p p'(1) by (auto simp: acked_def)
qed

text \<open>The acknowledgement of an append, and that no earlier one has its place.\<close>

lemma acked_append:
  assumes wf: "wf_backend b" and room: "inmem_room b (sending_topic (rq_sending q)) i"
    and r: "append_unchecked (rq_clock q) (sending_topic (rq_sending q)) (rq_timestamp q)
      (sending_append (rq_clock q) i (rq_sending q)) b = (Ok x, b')"
  shows "acked b' q (record_metadata_of (sending_topic (rq_sending q)) x)"
    and "acked b q' meta \<Longrightarrow> place meta \<noteq> place (record_metadata_of (sending_topic (rq_sending q)) x)"
proof -
  let ?t = "sending_topic (rq_sending q)"
  obtain pid off ts' where x: "x = (pid, off, ts')" using prod_cases3 by blast
  let ?mk = "sent_message (rq_sending q) ?t i ts' (mono (rq_clock q) 0)"
  obtain p where p: "inmem_partition b ?t i = Some p" "pid = i" "off = end_offset p"
    "inmem_partition b' ?t i = Some (snd (append_message (rq_clock q) ?mk p))"
    using append_unchecked_Ok [OF wf, of "rq_clock q" ?t "rq_timestamp q" i "rq_sending q" pid off ts'] r x by auto
  let ?p = "snd (append_message (rq_clock q) ?mk p)"
  have wfp: "wf_partition p" using wf p(1) by (rule inmem_partition_wf)
  have rm: "end_offset p + 1 < 2 ^ 63" using room p(1) by (simp add: inmem_room_def)
  have "wf_backend b'" using append_unchecked_good(1) [OF wf room, of "rq_clock q" "rq_timestamp q" "rq_sending q"] r by simp
  then have wfq: "wf_partition ?p" using p(4) by (rule inmem_partition_wf)
  have "in_i64 (end_offset p + 1)" using rm wf_partitionD(1,2) [OF wfp] by (simp add: in_i64_def)
  then have end_q: "end_offset ?p = end_offset p + 1" by (simp add: end_offset_def [of ?p])
  have "end_offset p < first_offset ?p \<or> read_one ?p (end_offset p) = Ok (Some (?mk (end_offset p)))"
  proof (cases "buf_log (buffer ?p) = []")
    case True
    then show ?thesis using wf_partitionD(4) [OF wfq] end_q by simp
  next
    case False
    then show ?thesis using append_message_read [OF wfp rm wfq] by simp
  qed
  then show "acked b' q (record_metadata_of ?t x)"
    using p end_q wf_partitionD(1,2) [OF wfp] by (auto simp: acked_def record_metadata_of_def x)
  show "place meta \<noteq> place (record_metadata_of ?t x)" if "acked b q' meta"
    using that p(1-3) by (auto simp: acked_def place_def record_metadata_of_def x)
qed

text \<open>No operation changes the number of partitions of a topic, or removes one.\<close>

lemma count_kept_ensure: "inmem_count b \<subseteq>\<^sub>m inmem_count (snd (inmem_ensure_topic name n b))"
  by (cases "im_shutdown b") (auto simp: inmem_closed inmem_count_ensure map_le_def)

lemma count_kept_shutdown: "inmem_count (snd (inmem_shutdown b)) = inmem_count b"
  by (simp add: inmem_count_def map_of_shutdown fun_eq_iff option.map_comp comp_def)

lemma count_kept_typed: "inmem_count (snd (inmem_produce_typed c name i tp tk h ts b)) = inmem_count b"
  by (auto simp: inmem_produce_typed_def inmem_produce_with_def inmem_get_topic_def inmem_count_def
      topic_produce_typed_def split_beta Let_def fun_eq_iff split: res.splits option.splits)

lemma count_kept_broker_ensure:
  assumes "mem_broker h br"
  shows "inmem_count (bk_backend br) \<subseteq>\<^sub>m inmem_count (bk_backend (snd (broker_ensure_topic t n br)))"
  using count_kept_ensure by (simp add: broker_ensure_topic_def on_backend_def split_beta mem_brokerD(1) [OF assms])

definition keeps_count :: "'v in_memory \<Rightarrow> (string list \<Rightarrow> string list) \<Rightarrow> ('v in_memory, 'v) broker \<Rightarrow> bool" where
  "keeps_count b h br \<longleftrightarrow> mem_broker h br \<and> inmem_count b \<subseteq>\<^sub>m inmem_count (bk_backend br)"

lemma keeps_count_ensure:
  assumes "keeps_count b h br"
  shows "keeps_count b h (snd (ensure_default t br))"
  using assms map_le_trans [OF _ count_kept_broker_ensure [of h br t "default_num_partitions (bk_config br)"]]
  by (simp add: keeps_count_def ensure_default_def mem_broker_ensure)

lemma keeps_count_partitioner: "keeps_count b h br \<Longrightarrow> keeps_count b h (br\<lparr>bk_partitioner := pt\<rparr>)"
  by (simp add: keeps_count_def mem_broker_partitioner)

lemma count_kept_join:
  assumes "mem_broker h br"
  shows "inmem_count (bk_backend br) \<subseteq>\<^sub>m inmem_count (bk_backend (snd (broker_join_group gid m topics br)))"
proof -
  let ?I = "keeps_count (bk_backend br) h" and ?J = "\<lambda>s. inmem_count (bk_backend br) \<subseteq>\<^sub>m inmem_count (bk_backend s)"
  have start: "?I br" using assms by (simp add: keeps_count_def)
  have "?I (snd (st_for ensure_default topics br))"
    by (rule st_for_inv [where I = ?I]) (use start keeps_count_ensure in blast)+
  then show ?thesis
    using start unfolding broker_join_group_def
    by (intro st_bind_inv [where I = ?J and J = ?J])
      (simp_all add: st_read_def create_group_def join_entry_def split_beta keeps_count_def)
qed

lemma count_kept_produce:
  assumes "mem_broker h br"
  shows "inmem_count (bk_backend br) \<subseteq>\<^sub>m inmem_count (bk_backend (snd (broker_produce c topic part k pl hs ts br)))"
    and "inmem_count (bk_backend br) \<subseteq>\<^sub>m inmem_count (bk_backend (snd (broker_produce_typed c topic part tp tk hs ts br)))"
proof -
  let ?I = "keeps_count (bk_backend br) h" and ?J = "\<lambda>s. inmem_count (bk_backend br) \<subseteq>\<^sub>m inmem_count (bk_backend s)"
  have start: "?I br" using assms by (simp add: keeps_count_def)
  have weak: "?J s" and mem: "mem_broker h s" if "?I s" for s using that by (simp_all add: keeps_count_def)
  show "?J (snd (broker_produce c topic part k pl hs ts br))"
    by (rule broker_produce_keeps(1) [where I = ?I and J = ?J, OF assms start mem keeps_count_ensure keeps_count_partitioner weak])
      (simp_all add: keeps_count_def on_backend_def split_beta)
  show "?J (snd (broker_produce_typed c topic part tp tk hs ts br))"
    by (rule broker_produce_keeps(2) [where I = ?I and J = ?J, OF assms start mem keeps_count_ensure keeps_count_partitioner weak])
      (simp_all add: keeps_count_def on_backend_def split_beta count_kept_typed)
qed

lemma count_kept_step:
  assumes "broker_step br br'" and "mem_broker h br"
  shows "inmem_count (bk_backend br) \<subseteq>\<^sub>m inmem_count (bk_backend br')"
  using assms
proof (induction rule: broker_step.induct)
  case (kstep_shutdown br)
  then show ?case
    by (simp add: broker_shutdown_def Let_def on_backend_def split_beta mem_brokerD(1) count_kept_shutdown)
qed (simp_all add: count_kept_broker_ensure count_kept_join count_kept_produce)


section \<open>What holds while calls go on\<close>

text \<open>What a turn of a call does, whatever its place.\<close>

lemma produce_turn_good:
  assumes mem: "mem_broker h br" and room: "broker_room br" and t: "produce_turn q (pc, br) = (pc', br')"
  shows "mem_broker h br'" and "evolves (bk_backend br) (bk_backend br')"
    and "inmem_count (bk_backend br) \<subseteq>\<^sub>m inmem_count (bk_backend br')"
    and "pc' = ProduceEnd (Ok meta) \<Longrightarrow> pc \<noteq> pc' \<Longrightarrow> acked (bk_backend br') q meta \<and>
      (\<forall>q' meta'. acked (bk_backend br) q' meta' \<longrightarrow> place meta' \<noteq> place meta)"
proof -
  note wf = mem_brokerD(4) [OF mem]
  have rm: "inmem_room (bk_backend br) name i" for name i using room by (simp add: broker_room_def)
  have quiet: "bk_backend br' = bk_backend br \<and> mem_broker h br' \<and> (\<forall>meta. pc' \<noteq> ProduceEnd (Ok meta) \<or> pc = pc')"
    if "pc \<noteq> EnsureInsert" "\<nexists>p. pc = ProduceAppend p"
    using t that mem mem_broker_partitioner [OF mem]
    by (cases pc) (auto simp: go_on_def broker_choose_routed split: res.splits if_splits)
  show "mem_broker h br'"
  proof (cases "pc = EnsureInsert \<or> (\<exists>p. pc = ProduceAppend p)")
    case True
    then show ?thesis
      using t ensure_insert_good [OF wf] append_unchecked_good [OF wf rm]
      by (auto simp: split_beta intro!: mem_broker_set_backend [OF mem])
  qed (use quiet in blast)
  show "evolves (bk_backend br) (bk_backend br')"
  proof (cases "pc = EnsureInsert \<or> (\<exists>p. pc = ProduceAppend p)")
    case True
    then show ?thesis
      using t ensure_insert_good [OF wf] append_unchecked_good [OF wf rm] by (auto simp: split_beta)
  qed (use quiet in simp)
  show "inmem_count (bk_backend br) \<subseteq>\<^sub>m inmem_count (bk_backend br')"
  proof (cases "pc = EnsureInsert \<or> (\<exists>p. pc = ProduceAppend p)")
    case True
    then show ?thesis
      using t count_kept_ensure [of "reopened (bk_backend br)"]
      by (auto simp: split_beta ensure_insert_reopened append_unchecked_reopened sending_produce count_kept_typed
          reopened_def split: sending.splits)
  qed (use quiet in simp)
  show "acked (bk_backend br') q meta \<and> (\<forall>q' meta'. acked (bk_backend br) q' meta' \<longrightarrow> place meta' \<noteq> place meta)"
    if "pc' = ProduceEnd (Ok meta)" "pc \<noteq> pc'"
  proof -
    note ended = that(1)
    have "\<exists>p. pc = ProduceAppend p" using quiet that t by (cases "pc = EnsureInsert") auto
    then obtain p x where p: "pc = ProduceAppend p"
      "append_unchecked (rq_clock q) (sending_topic (rq_sending q)) (rq_timestamp q)
         (sending_append (rq_clock q) p (rq_sending q)) (bk_backend br) = (Ok x, bk_backend br')"
      "meta = record_metadata_of (sending_topic (rq_sending q)) x"
      using t ended by (auto simp: go_on_def split: prod.splits res.splits)
    then show ?thesis using acked_append [OF wf rm p(2)] by blast
  qed
qed

definition calls_inv ::
    "(string list \<Rightarrow> string list) \<Rightarrow> 'v produce_call list
     \<Rightarrow> ('v in_memory, 'v) broker \<times> produce_pc list \<Rightarrow> bool" where
  "calls_inv h qs s \<longleftrightarrow>
     (case s of (br, ts) \<Rightarrow>
        mem_broker h br \<and> length ts = length qs \<and>
        (\<forall>k < length ts. \<forall>meta. ts ! k = ProduceEnd (Ok meta) \<longrightarrow> acked (bk_backend br) (qs ! k) meta) \<and>
        (\<forall>k l meta meta'. k < l \<longrightarrow> l < length ts \<longrightarrow> ts ! k = ProduceEnd (Ok meta) \<longrightarrow>
           ts ! l = ProduceEnd (Ok meta') \<longrightarrow> place meta \<noteq> place meta'))"

lemma calls_inv_step:
  assumes "producing qs s s'" and "calls_inv h qs s" and "hash_order h"
  shows "calls_inv h qs s' \<and> evolves (bk_backend (fst s)) (bk_backend (fst s')) \<and>
    inmem_count (bk_backend (fst s)) \<subseteq>\<^sub>m inmem_count (bk_backend (fst s'))"
  using assms(1,2)
proof (cases rule: producing.cases)
  case (pr_turn k ts br pc br')
  have inv: "mem_broker h br" "length ts = length qs"
    "\<And>k meta. k < length ts \<Longrightarrow> ts ! k = ProduceEnd (Ok meta) \<Longrightarrow> acked (bk_backend br) (qs ! k) meta"
    "\<And>k l meta meta'. k < l \<Longrightarrow> l < length ts \<Longrightarrow> ts ! k = ProduceEnd (Ok meta) \<Longrightarrow>
       ts ! l = ProduceEnd (Ok meta') \<Longrightarrow> place meta \<noteq> place meta'"
    using assms(2) pr_turn(1) by (auto simp: calls_inv_def)
  note good = produce_turn_good [OF inv(1) pr_turn(4,5)]
  have new: "acked (bk_backend br') (qs ! k) meta"
    "acked (bk_backend br) q' meta' \<Longrightarrow> pc \<noteq> ts ! k \<Longrightarrow> place meta' \<noteq> place meta"
    if "pc = ProduceEnd (Ok meta)" for meta q' meta'
    using good(4) [OF that] inv(3) [OF pr_turn(3)] acked_evolves [OF _ good(2) mem_brokerD(4) [OF inv(1)]] that
    by metis+
  have acks: "acked (bk_backend br') (qs ! l) meta"
    if "l < length ts" "ts[k := pc] ! l = ProduceEnd (Ok meta)" for l meta
    using new(1) inv(3) acked_evolves [OF _ good(2) mem_brokerD(4) [OF inv(1)]] that
    by (cases "l = k") auto
  have "place meta \<noteq> place meta'"
    if "i < j" "j < length ts" "ts[k := pc] ! i = ProduceEnd (Ok meta)" "ts[k := pc] ! j = ProduceEnd (Ok meta')"
    for i j meta meta'
  proof (cases "pc = ts ! k")
    case True
    then show ?thesis using that inv(4) by simp
  next
    case False
    consider "i = k" | "j = k" "i \<noteq> k" | "i \<noteq> k" "j \<noteq> k" by blast
    then show ?thesis
    proof cases
      case 1
      then have "place meta' \<noteq> place meta"
        using new(2) [OF _ inv(3) [of j meta'] False] that by auto
      then show ?thesis by simp
    next
      case 2
      then show ?thesis using new(2) [OF _ inv(3) [of i meta] False] that by auto
    next
      case 3
      then show ?thesis using inv(4) that by simp
    qed
  qed
  then show ?thesis using pr_turn(1,2) good acks inv(2) by (simp add: calls_inv_def)
next
  case (pr_broker br br' ts)
  then have mem: "mem_broker h br" using assms(2) by (simp add: calls_inv_def)
  have ev: "evolves (bk_backend br) (bk_backend br')" using broker_step_evolves [OF pr_broker(3) mem] .
  then show ?thesis
    using pr_broker assms(2) mem_broker_step [OF pr_broker(3) mem assms(3)]
      acked_evolves [OF _ ev mem_brokerD(4) [OF mem]] count_kept_step [OF pr_broker(3) mem]
    by (auto simp: calls_inv_def)
qed

lemma calls_inv_run:
  assumes "(producing qs)\<^sup>*\<^sup>* s s'" and "calls_inv h qs s" and "hash_order h"
  shows "calls_inv h qs s' \<and> evolves (bk_backend (fst s)) (bk_backend (fst s')) \<and>
    inmem_count (bk_backend (fst s)) \<subseteq>\<^sub>m inmem_count (bk_backend (fst s'))"
  using assms
proof (induction rule: rtranclp_induct)
  case (step y z)
  then show ?case
    using calls_inv_step [OF step.hyps(2) _ step.prems(2)] evolves_trans map_le_trans by blast
qed simp


section \<open>How a call without a partition ends\<close>

fun custom :: "partitioner \<Rightarrow> bool" where
  "custom (CustomPartitioner f k) = True"
| "custom _ = False"

lemma custom_after [simp]: "custom (partitioner_after topic key n part pt) = custom pt"
  by (cases pt) (simp_all add: partitioner_after_def split: option.splits prod.splits)

lemma routed_in_range:
  assumes "0 < n" and "n \<le> 2 ^ 30" and "\<not> custom pt"
  shows "0 \<le> routed topic key n None pt \<and> routed topic key n None pt < n"
proof (cases pt)
  case (RoundRobin s)
  then show ?thesis
    using rr.part_in_range [OF assms(1,2), of topic key s] by (simp add: routed_def split_beta)
next
  case (Consistent s)
  then show ?thesis
    using ch.part_in_range [OF assms(1,2), of topic key s] by (simp add: routed_def split_beta)
next
  case (RandomSelect s)
  then show ?thesis
    using rnd.part_in_range [OF assms(1,2), of topic key s] by (simp add: routed_def split_beta)
qed (use assms(3) in simp)

lemma partitioner_on_backend [simp]: "bk_partitioner (snd (on_backend f br)) = bk_partitioner br"
  by (simp add: on_backend_def split_beta)

lemma partitioner_ensure [simp]:
  "bk_partitioner (snd (broker_ensure_topic t n br)) = bk_partitioner br"
  "bk_partitioner (snd (ensure_default t br)) = bk_partitioner br"
  by (simp_all add: ensure_default_def broker_ensure_topic_def)

lemma custom_produce:
  "custom (bk_partitioner (snd (broker_produce c topic part k pl hs ts br))) = custom (bk_partitioner br)"
  "custom (bk_partitioner (snd (broker_produce_typed c topic part tp tk hs ts br))) = custom (bk_partitioner br)"
  unfolding broker_produce_def broker_produce_typed_def
  by (intro st_bind_keeps [where g = "\<lambda>s. custom (bk_partitioner s)"];
      simp add: st_read_def st_return_def broker_choose_routed)+

lemma partitioner_groups:
  "bk_partitioner (snd (broker_join_group gid m topics br)) = bk_partitioner br"
  "bk_partitioner (snd (broker_leave_group gid m br)) = bk_partitioner br"
  "bk_partitioner (snd (broker_commit_offset gid topic p off br)) = bk_partitioner br"
proof -
  have topics: "bk_partitioner (snd (st_for ensure_default topics br)) = bk_partitioner br" for br :: "('a, 'b) broker"
    by (rule st_for_inv [where I = "\<lambda>s. bk_partitioner s = bk_partitioner br"]) simp_all
  show "bk_partitioner (snd (broker_join_group gid m topics br)) = bk_partitioner br"
    unfolding broker_join_group_def
    by (intro st_bind_keeps [where g = bk_partitioner])
      (simp_all add: st_read_def create_group_def join_entry_def split_beta topics)
  show "bk_partitioner (snd (broker_leave_group gid m br)) = bk_partitioner br"
    "bk_partitioner (snd (broker_commit_offset gid topic p off br)) = bk_partitioner br"
    unfolding broker_leave_group_def broker_commit_offset_def
    by (intro st_bind_keeps [where g = bk_partitioner]; simp add: st_read_def split_beta)+
qed

lemma custom_step: "broker_step br br' \<Longrightarrow> custom (bk_partitioner br') = custom (bk_partitioner br)"
  by (induction rule: broker_step.induct)
    (simp_all add: custom_produce partitioner_groups broker_shutdown_def Let_def)

text \<open>What is known of a call for \<open>topic\<close> without a partition, \<open>cnt\<close> being the topic's partition count.\<close>

fun pc_fine :: "i32 option \<Rightarrow> bool \<Rightarrow> produce_pc \<Rightarrow> bool" where
  "pc_fine cnt closed CountCheck \<longleftrightarrow> cnt \<noteq> None"
| "pc_fine cnt closed CountRead \<longleftrightarrow> cnt \<noteq> None"
| "pc_fine cnt closed (ProduceChoose m) \<longleftrightarrow> (\<exists>n. cnt = Some n \<and> (0 < n \<longrightarrow> n \<le> 2 ^ 30 \<longrightarrow> m = n))"
| "pc_fine cnt closed (AppendCheck p) \<longleftrightarrow> (\<exists>n. cnt = Some n \<and> (0 < n \<longrightarrow> n \<le> 2 ^ 30 \<longrightarrow> 0 \<le> p \<and> p < n))"
| "pc_fine cnt closed (ProduceAppend p) \<longleftrightarrow> (\<exists>n. cnt = Some n \<and> (0 < n \<longrightarrow> n \<le> 2 ^ 30 \<longrightarrow> 0 \<le> p \<and> p < n))"
| "pc_fine cnt closed (ProduceEnd r) \<longleftrightarrow> r = Err BrokerShutdown \<and> closed \<or>
     (\<exists>n. cnt = Some n \<and> (0 < n \<longrightarrow> n \<le> 2 ^ 30 \<longrightarrow>
        (\<exists>meta. r = Ok meta \<and> 0 \<le> rmd_partition meta \<and> rmd_partition meta < n)))"
| "pc_fine cnt closed _ \<longleftrightarrow> True"

lemma pc_fine_mono:
  "pc_fine cnt closed pc \<Longrightarrow> (\<And>n. cnt = Some n \<Longrightarrow> cnt' = Some n) \<Longrightarrow> (closed \<Longrightarrow> closed') \<Longrightarrow>
   pc_fine cnt' closed' pc"
  by (cases pc) auto

lemma count_read_Some:
  assumes "wf_backend b" and "inmem_count b name = Some n" and "0 < n" and "n \<le> 2 ^ 30"
  shows "count_read name b = Ok n"
proof -
  have "n < 2 ^ 31" using assms(4) by simp
  then show ?thesis
    using assms(2,3) by (auto simp: count_read_def inmem_count_def topic_metadata_of_def Let_def wrap_i32_id in_i32_def)
qed

lemma append_unchecked_hit:
  assumes wf: "wf_backend b" and n: "inmem_count b name = Some n" "0 \<le> i" "i < n"
  shows "\<exists>off ts'. fst (append_unchecked c name ts (sending_append c i ev) b) = Ok (i, off, ts')"
proof -
  obtain p where p: "inmem_partition b name i = Some p"
    using inmem_partition_count [OF wf, of name i] n by auto
  then obtain t where t: "map_of (im_topics b) name = Some t" "topic_get_partition t i = Ok p"
    by (auto simp: inmem_partition_Some)
  have "partition_id p = i"
    using partition_reachable_config [OF inmem_partition_reachable [OF wf p]] by simp
  then show ?thesis
    using t by (auto simp: append_unchecked_def inmem_get_topic_def Let_def sending_append_Ok split_beta
        append_message_def)
qed

lemma produce_turn_fine:
  assumes mem: "mem_broker h br" and t: "produce_turn q (pc, br) = (pc', br')"
    and q: "rq_partition q = None" and pt: "\<not> custom (bk_partitioner br)"
    and fine: "pc_fine (inmem_count (bk_backend br) (sending_topic (rq_sending q))) (bk_shutdown br) pc"
  shows "pc_fine (inmem_count (bk_backend br') (sending_topic (rq_sending q))) (bk_shutdown br') pc'"
proof (cases pc)
  case ProduceBegin
  then show ?thesis
    using t mem_brokerD(2) [OF mem]
    by (auto simp: begin_check_def broker_check_shutdown_def split: if_splits sending.splits)
next
  case EnsureLook
  then show ?thesis using t by (auto simp: inmem_count_def split: if_splits)
next
  case EnsureInsert
  then show ?thesis using t ensure_insert_good(4) [OF mem_brokerD(4) [OF mem]] by auto
next
  case CountRead
  then obtain n where n: "inmem_count (bk_backend br) (sending_topic (rq_sending q)) = Some n" using fine by auto
  have ok: "0 < n \<Longrightarrow> n \<le> 2 ^ 30 \<Longrightarrow> pc' = ProduceChoose n" and br': "br' = br"
    using count_read_Some [OF mem_brokerD(4) [OF mem] n] t CountRead by auto
  have "(\<exists>m. pc' = ProduceChoose m) \<or> (\<exists>r. pc' = ProduceEnd r)"
    using t CountRead by (auto simp: go_on_def split: res.splits)
  then show ?thesis using n ok br' by (cases "0 < n \<and> n \<le> 2 ^ 30") auto
next
  case (ProduceChoose m)
  then show ?thesis
    using t fine q routed_in_range [OF _ _ pt, of _ "sending_topic (rq_sending q)" "sending_key (rq_sending q)"]
    by (auto simp: broker_choose_routed)
next
  case (ProduceAppend p)
  then obtain n where n: "inmem_count (bk_backend br) (sending_topic (rq_sending q)) = Some n"
    "0 < n \<Longrightarrow> n \<le> 2 ^ 30 \<Longrightarrow> 0 \<le> p \<and> p < n" using fine by auto
  have same: "inmem_count (bk_backend br') = inmem_count (bk_backend br)"
    using t ProduceAppend
    by (auto simp: append_unchecked_reopened sending_produce count_kept_typed reopened_def split_beta split: sending.splits)
  have "\<exists>r. pc' = ProduceEnd r" using t ProduceAppend by (auto simp: go_on_def split: prod.splits res.splits)
  moreover have "\<exists>meta. pc' = ProduceEnd (Ok meta) \<and> rmd_partition meta = p" if pos: "0 < n" "n \<le> 2 ^ 30"
  proof -
    obtain off ts' where "fst (append_unchecked (rq_clock q) (sending_topic (rq_sending q)) (rq_timestamp q)
        (sending_append (rq_clock q) p (rq_sending q)) (bk_backend br)) = Ok (p, off, ts')"
      using append_unchecked_hit [OF mem_brokerD(4) [OF mem] n(1)] n(2) [OF pos] by blast
    then show ?thesis using t ProduceAppend by (auto simp: record_metadata_of_def split: prod.splits)
  qed
  ultimately show ?thesis using n same by auto
qed (use t fine mem_brokerD(6) [OF mem] in \<open>auto simp: inmem_check_shutdown_def split: if_splits\<close>)

definition fine_call ::
    "'v produce_call list \<Rightarrow> nat \<Rightarrow> ('v in_memory, 'v) broker \<times> produce_pc list \<Rightarrow> bool" where
  "fine_call qs k s \<longleftrightarrow> (case s of (br, ts) \<Rightarrow> k < length ts \<and> \<not> custom (bk_partitioner br) \<and>
     pc_fine (inmem_count (bk_backend br) (sending_topic (rq_sending (qs ! k)))) (bk_shutdown br) (ts ! k))"

lemma produce_turn_frame:
  assumes "produce_turn q (pc, br) = (pc', br')"
  shows "custom (bk_partitioner br') = custom (bk_partitioner br)" and "bk_shutdown br' = bk_shutdown br"
  using assms by (cases pc; auto simp: broker_choose_routed split: prod.splits)+

lemma fine_call_step:
  assumes "producing qs s s'" and "calls_inv h qs s" and "rq_partition (qs ! k) = None" and "fine_call qs k s"
  shows "fine_call qs k s'"
  using assms(1)
proof (cases rule: producing.cases)
  case (pr_turn l ts br pc br')
  have mem: "mem_broker h br" using assms(2) pr_turn(1) by (simp add: calls_inv_def)
  have f: "k < length ts" "\<not> custom (bk_partitioner br)"
    "pc_fine (inmem_count (bk_backend br) (sending_topic (rq_sending (qs ! k)))) (bk_shutdown br) (ts ! k)"
    using assms(4) pr_turn(1) by (simp_all add: fine_call_def)
  note frame = produce_turn_frame [OF pr_turn(5)]
  have "pc_fine (inmem_count (bk_backend br') (sending_topic (rq_sending (qs ! k)))) (bk_shutdown br') (ts[l := pc] ! k)"
  proof (cases "l = k")
    case True
    then show ?thesis using produce_turn_fine [OF mem pr_turn(5) _ f(2)] assms(3) f by simp
  next
    case False
    then show ?thesis
      using pc_fine_mono [OF f(3)] produce_turn_good(3) [OF mem pr_turn(4,5)] frame(2)
      by (simp add: map_le_def) (metis domI)
  qed
  then show ?thesis using pr_turn(2) f frame by (simp add: fine_call_def)
next
  case (pr_broker br br' ts)
  have mem: "mem_broker h br" using assms(2) pr_broker(1) by (simp add: calls_inv_def)
  then show ?thesis
    using assms(4) pr_broker custom_step [OF pr_broker(3)] count_kept_step [OF pr_broker(3) mem]
      broker_step_shutdown [OF pr_broker(3)] pc_fine_mono
    by (simp add: fine_call_def map_le_def) (metis domI)
qed

lemma fine_call_run:
  assumes "(producing qs)\<^sup>*\<^sup>* s s'" and "calls_inv h qs s" and "hash_order h"
    and "rq_partition (qs ! k) = None" and "fine_call qs k s"
  shows "fine_call qs k s'"
  using assms
proof (induction rule: rtranclp_induct)
  case (step y z)
  then show ?case using fine_call_step calls_inv_run by blast
qed simp


section \<open>Properties\<close>

lemma calls_inv_begin:
  "mem_broker h br \<Longrightarrow> calls_inv h qs (br, replicate (length qs) ProduceBegin)"
  by (simp add: calls_inv_def)

definition demo_call :: "bytes \<Rightarrow> nat produce_call" where
  "demo_call x = \<lparr>rq_sending = SendBytes ''t'' None (Some x) None, rq_partition = None,
     rq_timestamp = Some 5, rq_clock = demo_clock\<rparr>"

text \<open>C5: Concurrent produces are all kept, each in a place of its own. Let any number of produces
  start together and their turns interleave with each other and with all other operations of the
  broker, creations of the same topics included. Whenever a call has been acknowledged with some
  topic, partition and offset, that partition exists, its log reaches beyond that offset, and the
  message there carries what the call sent, with the timestamp reported, unless it has been
  evicted; and no two calls are acknowledged with the same place.\<close>

theorem concurrent_produces_are_kept:
  assumes "mem_broker h br0" and "hash_order h"
    and "(producing qs)\<^sup>*\<^sup>* (br0, replicate (length qs) ProduceBegin) (br, ts)"
  shows "(\<forall>k < length qs. \<forall>meta. ts ! k = ProduceEnd (Ok meta) \<longrightarrow>
      rmd_topic meta = sending_topic (rq_sending (qs ! k)) \<and>
      (\<exists>p. inmem_partition (bk_backend br) (rmd_topic meta) (rmd_partition meta) = Some p \<and>
         rmd_offset meta < end_offset p \<and>
         (rmd_offset meta < first_offset p \<or>
          (\<exists>m. read_one p (rmd_offset meta) = Ok (Some m) \<and> carries (rq_sending (qs ! k)) m \<and>
             msg_timestamp m = rmd_timestamp meta)))) \<and>
    (\<forall>k l meta meta'. k < l \<longrightarrow> l < length qs \<longrightarrow> ts ! k = ProduceEnd (Ok meta) \<longrightarrow>
      ts ! l = ProduceEnd (Ok meta') \<longrightarrow>
      (rmd_topic meta, rmd_partition meta, rmd_offset meta) \<noteq>
        (rmd_topic meta', rmd_partition meta', rmd_offset meta'))"
proof -
  have "calls_inv h qs (br, ts)"
    using calls_inv_run [OF assms(3) calls_inv_begin [OF assms(1)] assms(2)] by blast
  then have inv: "length ts = length qs"
    "\<And>k meta. k < length ts \<Longrightarrow> ts ! k = ProduceEnd (Ok meta) \<Longrightarrow> acked (bk_backend br) (qs ! k) meta"
    "\<And>k l meta meta'. k < l \<Longrightarrow> l < length ts \<Longrightarrow> ts ! k = ProduceEnd (Ok meta) \<Longrightarrow>
       ts ! l = ProduceEnd (Ok meta') \<Longrightarrow> place meta \<noteq> place meta'"
    by (simp_all add: calls_inv_def)
  show ?thesis
    using inv(2) [unfolded acked_def inv(1)] inv(3) [unfolded place_def inv(1)] by blast
qed

lemma run_acked:
  assumes "(producing qs)\<^sup>*\<^sup>* (br0, replicate (length qs) ProduceBegin) (br, ts)"
    and "mem_broker h br0" and "hash_order h"
  shows "mem_broker h br" and "k < length qs \<Longrightarrow> ts ! k = ProduceEnd (Ok meta) \<Longrightarrow> acked (bk_backend br) (qs ! k) meta"
  using calls_inv_run [OF assms(1) calls_inv_begin [OF assms(2)] assms(3)] by (simp_all add: calls_inv_def)

text \<open>A run of one call, for the demonstrations: its turns need room until it has appended.\<close>

lemma broker_room_turn:
  assumes "broker_room br" and "mem_broker h br" and "\<nexists>p. pc = ProduceAppend p"
  shows "broker_room (snd (produce_turn q (pc, br)))"
proof (cases "pc = EnsureInsert")
  case True
  have "inmem_room (ensure_insert name n (bk_backend br)) t i" for name n t i
    using inmem_ensure_room [of "reopened (bk_backend br)"] assms(1)
    by (simp add: ensure_insert_reopened broker_room_def reopened_def)
  then show ?thesis using True by (simp add: broker_room_def)
next
  case False
  then show ?thesis
    using assms by (cases pc) (auto simp: broker_room_def broker_choose_routed)
qed

lemma producing_turns:
  assumes "k < length ts" and "ts ! k = pc" and "mem_broker h br" and "broker_room br \<or> (\<exists>r. pc = ProduceEnd r)"
  shows "(producing qs)\<^sup>*\<^sup>* (br, ts)
    (snd (produce_turns n (qs ! k) (pc, br)), ts[k := fst (produce_turns n (qs ! k) (pc, br))])"
  using assms
proof (induction n arbitrary: ts pc br)
  case 0
  then show ?case using list_update_id [of ts k] by simp
next
  case (Suc n)
  obtain pc' br' where t: "produce_turn (qs ! k) (pc, br) = (pc', br')" by fastforce
  show ?case
  proof (cases "\<exists>r. pc = ProduceEnd r")
    case True
    then show ?thesis using Suc.prems(2) list_update_id [of ts k] by auto
  next
    case False
    then have room: "broker_room br" using Suc.prems(4) by blast
    have "producing qs (br, ts) (br', ts[k := pc'])"
      using pr_turn [OF Suc.prems(1) room] t Suc.prems(2) by simp
    moreover have "broker_room br' \<or> (\<exists>r. pc' = ProduceEnd r)"
      using broker_room_turn [OF room Suc.prems(3), of pc "qs ! k"] t
      by (cases "\<exists>p. pc = ProduceAppend p") (auto simp: go_on_def split: prod.splits res.splits)
    ultimately show ?thesis
      using Suc.IH [of "ts[k := pc']" pc' br'] Suc.prems(1) produce_turn_good(1) [OF Suc.prems(3) room t] t
      by (auto intro: converse_rtranclp_into_rtranclp)
  qed
qed

lemma demo_calls_run:
  "\<exists>br meta. (producing [demo_call [7], demo_call [8]])\<^sup>*\<^sup>* (demo_broker, replicate 2 ProduceBegin)
     (br, [ProduceEnd (Ok meta), ProduceBegin]) \<and> \<not> bk_shutdown br \<and> inmem_count (bk_backend br) ''t'' = Some 2"
proof -
  let ?qs = "[demo_call [7], demo_call [8]]" and ?q = "routed ''t'' None 2 None (bk_partitioner demo_broker)"
  let ?r = "broker_produce demo_clock ''t'' None None (Some [7]) None (Some 5) demo_broker"
  have r: "produce_turns 9 (demo_call [7]) (ProduceBegin, demo_broker) = (ProduceEnd (fst ?r), snd ?r)"
    using produce_turns_at_once [OF demo_broker_mem, of "demo_call [7]"]
    by (simp add: produce_at_once_def demo_call_def split_beta)
  have run: "(producing ?qs)\<^sup>*\<^sup>* (demo_broker, replicate 2 ProduceBegin)
      (snd ?r, [ProduceEnd (fst ?r), ProduceBegin])"
    using producing_turns [of 0 "replicate 2 ProduceBegin" ProduceBegin remdups demo_broker ?qs 9]
      demo_broker_mem demo_room r by (simp add: numeral_2_eq_2)
  have "0 \<le> ?q \<and> ?q < 2" by (rule routed_in_range) simp_all
  then show ?thesis
    using mem.broker_produce_ok [OF mem_brokerD(1,4) [OF demo_broker_mem], where topic = "''t''" and n = 2 and q = ?q
        and k = None and part = None and hi = 0 and br' = "snd ?r" and c = demo_clock and pl = "Some [7]"
        and h = None and ts = "Some 5"] run
    by (auto simp: inmem_window_def)
qed

theorem concurrent_produces_are_kept_witness:
  "\<exists>br meta p. (producing [demo_call [7], demo_call [8]])\<^sup>*\<^sup>* (demo_broker, replicate 2 ProduceBegin)
     (br, [ProduceEnd (Ok meta), ProduceBegin]) \<and>
     inmem_partition (bk_backend br) ''t'' (rmd_partition meta) = Some p \<and> rmd_offset meta < end_offset p"
proof -
  obtain br meta where run: "(producing [demo_call [7], demo_call [8]])\<^sup>*\<^sup>* (demo_broker, replicate 2 ProduceBegin)
     (br, [ProduceEnd (Ok meta), ProduceBegin])"
    using demo_calls_run by blast
  have "(producing [demo_call [7], demo_call [8]])\<^sup>*\<^sup>* (demo_broker, replicate (length [demo_call [7], demo_call [8]]) ProduceBegin)
     (br, [ProduceEnd (Ok meta), ProduceBegin])" using run by (simp add: numeral_2_eq_2)
  from concurrent_produces_are_kept [OF demo_broker_mem hash_order_remdups this, THEN conjunct1, rule_format, of 0 meta]
  have "\<exists>p. inmem_partition (bk_backend br) ''t'' (rmd_partition meta) = Some p \<and> rmd_offset meta < end_offset p"
    by (auto simp: demo_call_def)
  then show ?thesis using run by blast
qed

text \<open>C23: A produce that leaves the partition to the broker cannot fail for any reason but a shutdown,
  however it is interleaved: with one of the crate's partitioners, when such a call is done and
  its topic has 1 to \<open>2^30\<close> partitions, it was acknowledged with one of them, or the broker
  has been shut down and the call answers \<open>BrokerShutdown\<close>. So it never finds the topic missing again
  after it has made sure that it exists, and a full buffer does not fail it either: the append
  drops the oldest message. The error \<open>BufferFull\<close>, which error.rs declares and docs/api.md
  describes as what a full partition buffer gives, is never returned.\<close>

theorem concurrent_produce_succeeds:
  assumes "mem_broker h br0" and "hash_order h" and "\<nexists>f i. bk_partitioner br0 = CustomPartitioner f i"
    and "(producing qs)\<^sup>*\<^sup>* (br0, replicate (length qs) ProduceBegin) (br, ts)"
    and "k < length qs" and "rq_partition (qs ! k) = None" and "ts ! k = ProduceEnd r"
    and "inmem_count (bk_backend br) (sending_topic (rq_sending (qs ! k))) = Some n" and "0 < n" and "n \<le> 2 ^ 30"
  shows "(\<exists>meta. r = Ok meta \<and> 0 \<le> rmd_partition meta \<and> rmd_partition meta < n) \<or>
    r = Err BrokerShutdown \<and> bk_shutdown br"
proof -
  have "\<not> custom (bk_partitioner br0)" using assms(3) by (cases "bk_partitioner br0") auto
  then have "fine_call qs k (br0, replicate (length qs) ProduceBegin)"
    using assms(5) by (simp add: fine_call_def)
  from fine_call_run [OF assms(4) calls_inv_begin [OF assms(1)] assms(2,6) this] assms(7-10)
  show ?thesis by (auto simp: fine_call_def)
qed

theorem concurrent_produce_succeeds_witness:
  "\<exists>br meta. (producing [demo_call [7], demo_call [8]])\<^sup>*\<^sup>* (demo_broker, replicate 2 ProduceBegin)
     (br, [ProduceEnd (Ok meta), ProduceBegin]) \<and> 0 \<le> rmd_partition meta \<and> rmd_partition meta < 2"
proof -
  obtain br meta where run: "(producing [demo_call [7], demo_call [8]])\<^sup>*\<^sup>* (demo_broker, replicate 2 ProduceBegin)
     (br, [ProduceEnd (Ok meta), ProduceBegin])" "inmem_count (bk_backend br) ''t'' = Some 2"
    using demo_calls_run by blast
  have "0 \<le> rmd_partition meta \<and> rmd_partition meta < 2"
    using concurrent_produce_succeeds [OF demo_broker_mem hash_order_remdups, of "[demo_call [7], demo_call [8]]"
        br "[ProduceEnd (Ok meta), ProduceBegin]" 0 "Ok meta" 2] run
    by (simp add: numeral_2_eq_2 demo_call_def)
  then show ?thesis using run by blast
qed

text \<open>The log service follows concurrent produces as it follows single operations.\<close>

theorem concurrent_produces_refine:
  assumes "mem_broker h br0" and "hash_order h" and "service_rel s (bk_backend br0)"
    and "(producing qs)\<^sup>*\<^sup>* (br0, replicate (length qs) ProduceBegin) (br, ts)"
  shows "\<exists>s'. service_step\<^sup>*\<^sup>* s s' \<and> service_rel s' (bk_backend br)"
proof -
  have "calls_inv h qs (br, ts) \<and> evolves (bk_backend br0) (bk_backend br)"
    using calls_inv_run [OF assms(4) calls_inv_begin [OF assms(1)] assms(2)] by simp
  then show ?thesis
    using service_simulates [OF assms(3) _ mem_brokerD(4) [OF assms(1)]] mem_brokerD(4) [of h br]
    by (simp add: calls_inv_def)
qed

end
