(* ===== verification/Concurrent_Groups.thy ===== *)
theory Concurrent_Groups
  imports Concurrent_Produce Group_Consumers
begin

text \<open>
  Any number of calls of \<open>Broker::join_group\<close> and \<open>Broker::leave_group\<close> (\<open>src/broker.rs\<close>) at once, on the
  in-memory backend. Both read the partition counts from the metadata before they take the lock of
  the group, so a rebalance works with counts that may be old by then. Here the calls are cut into
  turns where they take a lock and give it back. A leave holds the read lock of the broker's groups
  from its look for the group to its end, which keeps a join from its entry in the groups.
\<close>

section \<open>The turns of a join and of a leave\<close>

datatype group_call =
    JoinCall (gc_group: string) (gc_member: string) (gc_topics: "string list")
  | LeaveCall (gc_group: string) (gc_member: string)

text \<open>Where a call stands. \<open>JoinTopics\<close> has the topics that are still to be ensured; when there are none
  the next turn is the entry of the group.\<close>

datatype group_pc =
    CallBegin
  | JoinTopics "string list"
  | JoinLook string "string list"
  | JoinInsert string "string list"
  | JoinNotifies
  | JoinMetaCheck
  | JoinMetaRead
  | JoinGroup metadata
  | LeaveLock
  | LeaveMetaCheck
  | LeaveMetaRead
  | LeaveGroup metadata
  | CallEnd "topic_partition_list option res"

definition call_on :: "('a \<Rightarrow> group_pc) \<Rightarrow> 'a res \<Rightarrow> group_pc" where
  "call_on f r = (case r of Ok x \<Rightarrow> f x | Err e \<Rightarrow> CallEnd (Err e) | Panic x \<Rightarrow> CallEnd (Panic x))"

text \<open>The metadata of all topics under the read lock of the backend, after the check: it does not look
  at the flag again. And the leave through the group's entry, as \<open>join_entry\<close> is the join.\<close>

definition metadata_read :: "('v in_memory, 'v) broker \<Rightarrow> metadata res" where
  "metadata_read br =
     be_metadata (bk_ops br) (broker_id (bk_config br)) None (reopened (bk_backend br))"

definition leave_entry ::
    "string \<Rightarrow> string \<Rightarrow> metadata \<Rightarrow> ('b, 'v) broker \<Rightarrow> unit res \<times> ('b, 'v) broker" where
  "leave_entry gid member_id meta br =
     (case group_leave (bk_assignor br) member_id (all_counts meta) (group_entry gid br) of
        (r, g) \<Rightarrow> (r, br\<lparr>bk_groups := AList.update gid g (bk_groups br)\<rparr>))"

fun group_turn ::
    "group_call \<Rightarrow> group_pc \<times> ('v in_memory, 'v) broker \<Rightarrow> group_pc \<times> ('v in_memory, 'v) broker" where
  "group_turn q (CallBegin, br) =
     (call_on (\<lambda>_. case q of JoinCall gid m topics \<Rightarrow> JoinTopics topics | LeaveCall gid m \<Rightarrow> LeaveLock)
        (broker_check_shutdown br), br)"
| "group_turn q (JoinTopics (t # ts), br) =
     (call_on (\<lambda>_. JoinLook t ts) (inmem_check_shutdown (bk_backend br)), br)"
| "group_turn q (JoinTopics [], br) = (JoinNotifies, snd (create_group (gc_group q) br))"
| "group_turn q (JoinLook t ts, br) =
     (if map_of (im_topics (bk_backend br)) t \<noteq> None then JoinTopics ts else JoinInsert t ts, br)"
| "group_turn q (JoinInsert t ts, br) =
     (JoinTopics ts, br\<lparr>bk_backend := ensure_insert t (default_num_partitions (bk_config br)) (bk_backend br)\<rparr>)"
| "group_turn q (JoinNotifies, br) =
     (call_on (\<lambda>_. JoinMetaCheck) (broker_get_partition_notifies (gc_topics q) br), br)"
| "group_turn q (JoinMetaCheck, br) =
     (call_on (\<lambda>_. JoinMetaRead) (inmem_check_shutdown (bk_backend br)), br)"
| "group_turn q (JoinMetaRead, br) = (call_on JoinGroup (metadata_read br), br)"
| "group_turn q (JoinGroup meta, br) =
     (case join_entry (gc_group q) (gc_member q) (gc_topics q) meta br of
        (r, br') \<Rightarrow> (CallEnd (res_map Some r), br'))"
| "group_turn q (LeaveLock, br) = (call_on (\<lambda>_. LeaveMetaCheck) (get_group (gc_group q) br), br)"
| "group_turn q (LeaveMetaCheck, br) =
     (call_on (\<lambda>_. LeaveMetaRead) (inmem_check_shutdown (bk_backend br)), br)"
| "group_turn q (LeaveMetaRead, br) = (call_on LeaveGroup (metadata_read br), br)"
| "group_turn q (LeaveGroup meta, br) =
     (case leave_entry (gc_group q) (gc_member q) meta br of
        (r, br') \<Rightarrow> (CallEnd (res_map (\<lambda>_. None) r), br'))"
| "group_turn q (CallEnd r, br) = (CallEnd r, br)"

fun group_turns :: "nat \<Rightarrow> group_call \<Rightarrow> group_pc \<times> ('v in_memory, 'v) broker
     \<Rightarrow> group_pc \<times> ('v in_memory, 'v) broker" where
  "group_turns 0 q x = x"
| "group_turns (Suc k) q x = group_turns k q (group_turn q x)"

text \<open>The whole call, as \<open>Broker\<close> has it.\<close>

definition call_at_once ::
    "group_call \<Rightarrow> ('v in_memory, 'v) broker
     \<Rightarrow> topic_partition_list option res \<times> ('v in_memory, 'v) broker" where
  "call_at_once q br =
     (case q of
        JoinCall gid m topics \<Rightarrow> (case broker_join_group gid m topics br of (r, br') \<Rightarrow> (res_map Some r, br'))
      | LeaveCall gid m \<Rightarrow> (case broker_leave_group gid m br of (r, br') \<Rightarrow> (res_map (\<lambda>_. None) r, br')))"

text \<open>The calls that hold the read lock of the groups between turns, and the turn that needs the write
  lock.\<close>

fun holding :: "group_pc \<Rightarrow> bool" where
  "holding LeaveMetaCheck = True"
| "holding LeaveMetaRead = True"
| "holding (LeaveGroup meta) = True"
| "holding _ = False"

fun ended :: "group_pc \<Rightarrow> bool" where
  "ended (CallEnd r) = True"
| "ended _ = False"

definition may_turn :: "group_pc list \<Rightarrow> nat \<Rightarrow> bool" where
  "may_turn ts k \<longleftrightarrow> k < length ts \<and> \<not> ended (ts ! k) \<and> (ts ! k = JoinTopics [] \<longrightarrow> (\<forall>pc \<in> set ts. \<not> holding pc))"

text \<open>A run of calls with other operations of the broker in between, and how many turns the calls have
  had. Other joins and leaves are among the calls.\<close>

inductive group_run ::
    "group_call list \<Rightarrow> nat \<Rightarrow> ('v in_memory, 'v) broker \<times> group_pc list
     \<Rightarrow> ('v in_memory, 'v) broker \<times> group_pc list \<Rightarrow> bool"
  for qs :: "group_call list" where
  grun_start: "group_run qs 0 s s"
| grun_turn: "group_run qs n s (br, ts) \<Longrightarrow> may_turn ts k \<Longrightarrow> group_turn (qs ! k) (ts ! k, br) = (pc, br') \<Longrightarrow>
    group_run qs (Suc n) s (br', ts[k := pc])"
| grun_broker: "group_run qs n s (br, ts) \<Longrightarrow> broker_step br br' \<Longrightarrow> bk_groups br' = bk_groups br \<Longrightarrow>
    group_run qs n s (br', ts)"

lemma call_on_simps [simp]:
  "call_on f (Ok x) = f x" "call_on f (Err e) = CallEnd (Err e)" "call_on f (Panic y) = CallEnd (Panic y)"
  by (simp_all add: call_on_def)

lemma group_turns_End [simp]: "group_turns k q (CallEnd r, br) = (CallEnd r, br)"
  by (induction k) simp_all


section \<open>What a rebalance looks at\<close>

text \<open>The assignor looks at the counts of the members' topics only.\<close>

lemma assign_topics_cong:
  assumes "\<And>t. t \<in> set ts \<Longrightarrow> map_of pc t = map_of pc' t"
  shows "assign_topics mt pc ts a = assign_topics mt pc' ts a"
  using assms
proof (induction ts arbitrary: a)
  case (Cons t ts)
  have "assign_topics mt pc ts = assign_topics mt pc' ts" using Cons by (simp add: fun_eq_iff)
  then show ?case using Cons.prems [of t] by (simp add: assign_topic_def)
qed simp

lemma round_robin_assign_cong:
  assumes "hash_order h" and "hm_wf mt"
    and eq: "\<And>m ts t. map_of mt m = Some ts \<Longrightarrow> t \<in> set ts \<Longrightarrow> map_of pc t = map_of pc' t"
  shows "round_robin_assign h mt pc = round_robin_assign h mt pc'"
proof -
  have "map_of pc t = map_of pc' t" if "t \<in> set (h (concat (map snd mt)))" for t
  proof -
    have "t \<in> set (concat (map snd mt))" using that hash_orderD(2) [OF assms(1)] by simp
    then obtain m ts where "(m, ts) \<in> set mt" "t \<in> set ts" by auto
    moreover have "map_of mt m = Some ts" using calculation(1) assms(2) by (simp add: hm_wf_def)
    ultimately show ?thesis using eq by blast
  qed
  from assign_topics_cong [OF this] show ?thesis by (simp add: round_robin_assign_def Let_def)
qed

lemma group_leave_cong:
  assumes "hash_order h" and "wf_group g"
    and eq: "\<And>k ts t. map_of (cg_member_topics g) k = Some ts \<Longrightarrow> t \<in> set ts \<Longrightarrow> map_of pc t = map_of pc' t"
  shows "group_leave (round_robin_assign h) m pc g = group_leave (round_robin_assign h) m pc' g"
proof -
  have "hm_wf (AList.delete m (cg_member_topics g))" using wf_groupD(2) [OF assms(2)] by simp
  moreover have "map_of pc t = map_of pc' t"
    if "map_of (AList.delete m (cg_member_topics g)) k = Some ts" "t \<in> set ts" for k ts t
    using that eq by (auto split: if_splits)
  ultimately have "round_robin_assign h (AList.delete m (cg_member_topics g)) pc =
      round_robin_assign h (AList.delete m (cg_member_topics g)) pc'"
    using round_robin_assign_cong [OF assms(1)] by blast
  then show ?thesis by (simp add: group_leave_def rebalance_def Let_def)
qed

text \<open>The counts in the metadata of all topics.\<close>

definition meta_count :: "metadata \<Rightarrow> string \<Rightarrow> i32 option" where
  "meta_count meta t =
     map_option (\<lambda>tm. wrap_i32 (int (length (tmd_partitions tm)))) (find (\<lambda>tm. tmd_name tm = t) (md_topics meta))"

lemma joiner_counts_cong:
  assumes "\<And>t. t \<in> set topics \<Longrightarrow> meta_count meta t = meta_count meta' t"
  shows "joiner_counts topics meta = joiner_counts topics meta'"
proof -
  have "(case find (\<lambda>t. tmd_name t = topic) (md_topics md) of
       Some tm \<Rightarrow> AList.update topic (wrap_i32 (int (length (tmd_partitions tm)))) counts | None \<Rightarrow> counts) =
    (case meta_count md topic of Some n \<Rightarrow> AList.update topic n counts | None \<Rightarrow> counts)" for md topic counts
    by (simp add: meta_count_def split: option.splits)
  then show ?thesis unfolding joiner_counts_def using assms by (intro fold_cong refl) (simp add: fun_eq_iff)
qed

lemma all_counts_map_of:
  assumes "distinct (map tmd_name (md_topics meta))"
  shows "map_of (all_counts meta) t = meta_count meta t"
proof -
  have "map_of (fold (\<lambda>t counts. AList.update (tmd_name t) (wrap_i32 (int (length (tmd_partitions t)))) counts) tms acc) t =
    (case map_option (\<lambda>tm. wrap_i32 (int (length (tmd_partitions tm)))) (find (\<lambda>tm. tmd_name tm = t) tms) of
       None \<Rightarrow> map_of acc t | Some n \<Rightarrow> Some n)" if "distinct (map tmd_name tms)" for tms acc
    using that
  proof (induction tms arbitrary: acc)
    case (Cons tm tms)
    have "find (\<lambda>u. tmd_name u = tmd_name tm) tms = None"
      using Cons.prems by (auto simp: find_None_iff intro: rev_image_eqI)
    then show ?case using Cons by (auto split: option.splits)
  qed simp
  from this [OF assms, of "[]"] show ?thesis by (simp add: all_counts_def meta_count_def split: option.splits)
qed

lemma collect_names:
  assumes "res_collect (map f ks) = Ok xs" and "\<And>k x. k \<in> set ks \<Longrightarrow> f k = Ok x \<Longrightarrow> nm x = k"
  shows "map nm xs = ks"
  using assms by (induction ks arbitrary: xs) (auto simp: res_bind_eq_Ok)

lemma topic_metadata_name: "topic_metadata_of t = Ok tm \<Longrightarrow> tmd_name tm = tp_name t"
  by (auto simp: topic_metadata_of_def Let_def split: if_splits)

lemma metadata_names:
  assumes md: "inmem_metadata h bid None b = Ok md" and wf: "wf_backend b" and ord: "hash_order h"
  shows "distinct (map tmd_name (md_topics md))"
proof -
  let ?ks = "h (map fst (im_topics b))"
  have ks: "distinct ?ks" "set ?ks = fst ` set (im_topics b)"
    using hash_orderD [OF ord, of "map fst (im_topics b)"] by simp_all
  have "tmd_name tm = k" if "k \<in> set ?ks" "topic_metadata_of (the (map_of (im_topics b) k)) = Ok tm" for k tm
    using that ks(2) keys_map_of [of k "im_topics b"] wf_backend_topic(2) [OF wf] topic_metadata_name by fastforce
  then have "map tmd_name (md_topics md) = ?ks"
    using md collect_names [of "\<lambda>k. topic_metadata_of (the (map_of (im_topics b) k))" ?ks "md_topics md" tmd_name]
    by (auto simp: inmem_metadata_def res_bind_eq_Ok)
  then show ?thesis using ks(1) by simp
qed



section \<open>What holds while calls go on\<close>

text \<open>The topics whose counts a rebalance may need: those of the members, and those of the joins that
  have their entry and have not joined yet.\<close>

definition bounded_counts :: "('v in_memory, 'v) broker \<Rightarrow> bool" where
  "bounded_counts br \<longleftrightarrow> (\<forall>t n. inmem_count (bk_backend br) t = Some n \<longrightarrow> 0 \<le> n \<and> n < 2 ^ 31)"

definition members_topics :: "('b, 'v) broker \<Rightarrow> string set" where
  "members_topics br = {t. \<exists>gid g m ts. map_of (bk_groups br) gid = Some g \<and>
     map_of (cg_member_topics g) m = Some ts \<and> t \<in> set ts}"

fun entered :: "group_pc \<Rightarrow> bool" where
  "entered JoinNotifies = True"
| "entered JoinMetaCheck = True"
| "entered JoinMetaRead = True"
| "entered (JoinGroup meta) = True"
| "entered _ = False"

definition pc_topics :: "group_call \<Rightarrow> group_pc \<Rightarrow> string set" where
  "pc_topics q pc = (if entered pc then set (gc_topics q) else {})"

definition live_topics :: "group_call list \<Rightarrow> ('b, 'v) broker \<Rightarrow> group_pc list \<Rightarrow> string set" where
  "live_topics qs br ts = members_topics br \<union> (\<Union>k < length ts. pc_topics (qs ! k) (ts ! k))"

text \<open>What a call relies on, with the topics \<open>T\<close> that exist and the groups \<open>G\<close> that have an entry.\<close>

fun pc_good :: "string set \<Rightarrow> string set \<Rightarrow> group_call \<Rightarrow> group_pc \<Rightarrow> bool" where
  "pc_good T G q (JoinTopics ts) \<longleftrightarrow> is_JoinCall q \<and> set (gc_topics q) \<subseteq> T \<union> set ts"
| "pc_good T G q (JoinLook t ts) \<longleftrightarrow> is_JoinCall q \<and> set (gc_topics q) \<subseteq> insert t (T \<union> set ts)"
| "pc_good T G q (JoinInsert t ts) \<longleftrightarrow> is_JoinCall q \<and> set (gc_topics q) \<subseteq> insert t (T \<union> set ts)"
| "pc_good T G q LeaveLock \<longleftrightarrow> \<not> is_JoinCall q"
| "pc_good T G q CallBegin \<longleftrightarrow> True"
| "pc_good T G q (CallEnd r) \<longleftrightarrow> True"
| "pc_good T G q pc \<longleftrightarrow> (if entered pc then is_JoinCall q \<and> set (gc_topics q) \<subseteq> T else \<not> is_JoinCall q) \<and> gc_group q \<in> G"

fun meta_of :: "group_pc \<Rightarrow> metadata option" where
  "meta_of (JoinGroup meta) = Some meta"
| "meta_of (LeaveGroup meta) = Some meta"
| "meta_of pc = None"

text \<open>The counts a call has read are still those of the topics that matter to it.\<close>

definition counts_right :: "group_call list \<Rightarrow> ('v in_memory, 'v) broker \<Rightarrow> group_pc list \<Rightarrow> nat \<Rightarrow> bool" where
  "counts_right qs br ts k \<longleftrightarrow>
     (\<forall>meta. ts ! k = JoinGroup meta \<longrightarrow>
        (\<forall>t \<in> set (gc_topics (qs ! k)). meta_count meta t = inmem_count (bk_backend br) t)) \<and>
     (\<forall>meta. ts ! k = LeaveGroup meta \<longrightarrow>
        (\<forall>t \<in> live_topics qs br ts. map_of (all_counts meta) t = inmem_count (bk_backend br) t))"

definition group_inv ::
    "(string list \<Rightarrow> string list) \<Rightarrow> group_call list \<Rightarrow> ('v in_memory, 'v) broker \<times> group_pc list \<Rightarrow> bool" where
  "group_inv h qs s \<longleftrightarrow>
     (case s of (br, ts) \<Rightarrow>
        mem_broker h br \<and> length ts = length qs \<and>
        (\<forall>k < length ts. pc_good (dom (inmem_count (bk_backend br))) (dom (map_of (bk_groups br))) (qs ! k) (ts ! k)) \<and>
        live_topics qs br ts \<subseteq> dom (inmem_count (bk_backend br)) \<and>
        (bounded_counts br \<longrightarrow> (\<forall>k < length ts. counts_right qs br ts k)))"

lemma pc_good_mono: "pc_good T G q pc \<Longrightarrow> T \<subseteq> T' \<Longrightarrow> G \<subseteq> G' \<Longrightarrow> pc_good T' G' q pc"
  by (cases pc) auto

lemma bounded_counts_mono:
  "bounded_counts br' \<Longrightarrow> inmem_count (bk_backend br) \<subseteq>\<^sub>m inmem_count (bk_backend br') \<Longrightarrow> bounded_counts br"
  unfolding bounded_counts_def map_le_def by (metis domI)

text \<open>What the turns do.\<close>

lemma metadata_read_counts:
  assumes "metadata_read br = Ok md" and mem: "mem_broker h br" and ord: "hash_order h" and b: "bounded_counts br"
  shows "meta_count md t = inmem_count (bk_backend br) t"
    and "map_of (all_counts md) t = inmem_count (bk_backend br) t"
proof -
  have wf: "wf_backend (reopened (bk_backend br))" using mem_brokerD(4) [OF mem] by (simp add: reopened_def)
  have cnt: "inmem_count (reopened (bk_backend br)) = inmem_count (bk_backend br)" by (simp add: reopened_def)
  have md: "inmem_metadata h (broker_id (bk_config br)) None (reopened (bk_backend br)) = Ok md"
    using assms(1) by (simp add: metadata_read_def mem_brokerD(1) [OF mem])
  have "\<forall>k n. inmem_count (reopened (bk_backend br)) k = Some n \<longrightarrow> 0 \<le> n"
    using b by (simp add: bounded_counts_def cnt)
  from inmem_metadata_all [OF wf _ ord this, of "broker_id (bk_config br)"]
  have "map_option (\<lambda>tm. int (length (tmd_partitions tm))) (find (\<lambda>tm. tmd_name tm = t) (md_topics md)) =
      inmem_count (bk_backend br) t"
    using md by (simp add: cnt)
  moreover have "wrap_i32 n = n" if "inmem_count (bk_backend br) t = Some n" for n
  proof -
    have "in_i32 n" using b that by (auto simp: bounded_counts_def in_i32_def dest!: spec [of _ t])
    then show ?thesis by simp
  qed
  ultimately show "meta_count md t = inmem_count (bk_backend br) t"
    by (auto simp: meta_count_def map_option_case split: option.splits)
  then show "map_of (all_counts md) t = inmem_count (bk_backend br) t"
    using all_counts_map_of [OF metadata_names [OF md wf ord]] by simp
qed

lemma mem_broker_leave_entry:
  assumes mem: "mem_broker h br" and ord: "hash_order h"
  shows "mem_broker h (snd (leave_entry gid m meta br))"
proof -
  let ?g' = "snd (group_leave (round_robin_assign h) m (all_counts meta) (group_entry gid br))"
  have "wf_group ?g' \<and> cg_group_id ?g' = gid"
    using rra.group_leave_ok [OF mem_broker_group_entry(1) [OF mem] ord] mem_broker_group_entry(2) [OF mem] by simp
  then show ?thesis
    using mem_broker_set_group [OF mem] by (simp add: leave_entry_def split_beta mem_brokerD(3) [OF mem])
qed


lemma group_turn_backend:
  assumes mem: "mem_broker h br" and ord: "hash_order h" and t: "group_turn q (pc, br) = (pc', br')"
  shows "mem_broker h br'" and "inmem_count (bk_backend br) \<subseteq>\<^sub>m inmem_count (bk_backend br')"
    and "bk_shutdown br' = bk_shutdown br" and "evolves (bk_backend br) (bk_backend br')"
proof -
  note wf = mem_brokerD(4) [OF mem]
  have ins: "inmem_count b \<subseteq>\<^sub>m inmem_count (ensure_insert n c b)" for n c and b :: "'a in_memory"
    using count_kept_ensure [of "reopened b" n c] by (simp add: ensure_insert_reopened reopened_def)
  show "mem_broker h br'"
    using t mem ensure_insert_good [OF wf] mem_broker_create_group [OF mem] mem_broker_join_entry [OF mem ord]
      mem_broker_leave_entry [OF mem ord]
    by (cases "(q, (pc, br))" rule: group_turn.cases) (auto simp: split_beta intro!: mem_broker_set_backend [OF mem])
  show "inmem_count (bk_backend br) \<subseteq>\<^sub>m inmem_count (bk_backend br')"
    using t ins by (cases "(q, (pc, br))" rule: group_turn.cases)
      (auto simp: create_group_def join_entry_def leave_entry_def split: prod.splits)
  show "bk_shutdown br' = bk_shutdown br"
    using t by (cases "(q, (pc, br))" rule: group_turn.cases)
      (auto simp: create_group_def join_entry_def leave_entry_def split: prod.splits)
  show "evolves (bk_backend br) (bk_backend br')"
    using t ensure_insert_good(2) [OF wf] by (cases "(q, (pc, br))" rule: group_turn.cases)
      (auto simp: create_group_def join_entry_def leave_entry_def split: prod.splits)
qed

lemma group_turn_entries:
  assumes "group_turn q (pc, br) = (pc', br')"
  shows "dom (map_of (bk_groups br)) \<subseteq> dom (map_of (bk_groups br'))"
    and "entered pc' \<Longrightarrow> \<not> entered pc \<Longrightarrow> pc = JoinTopics []"
    and "\<forall>meta. pc \<noteq> JoinGroup meta \<and> pc \<noteq> LeaveGroup meta \<Longrightarrow> group_entry gid br' = group_entry gid br"
  using assms
  by (cases "(q, (pc, br))" rule: group_turn.cases;
      auto simp: create_group_def join_entry_def leave_entry_def call_on_def group_entry_def
        split: prod.splits res.splits group_call.splits if_splits option.splits)+

lemma members_topics_entry:
  "members_topics br = {t. \<exists>gid m ts. map_of (cg_member_topics (group_entry gid br)) m = Some ts \<and> t \<in> set ts}"
  by (fastforce simp: members_topics_def group_entry_def group_new_def split: option.splits)

lemma group_turn_topics:
  assumes mem: "mem_broker h br" and ord: "hash_order h" and t: "group_turn q (pc, br) = (pc', br')"
  shows "members_topics br' \<subseteq> members_topics br \<union> pc_topics q pc"
proof -
  consider (join) meta where "pc = JoinGroup meta" | (leave) meta where "pc = LeaveGroup meta"
    | (other) "\<forall>meta. pc \<noteq> JoinGroup meta \<and> pc \<noteq> LeaveGroup meta" by blast
  then show ?thesis
  proof cases
    case join
    let ?gid = "gc_group q" and ?g = "group_entry (gc_group q) br"
    obtain l g' where g': "join_entry ?gid (gc_member q) (gc_topics q) meta br =
        (Ok l, br\<lparr>bk_groups := AList.update ?gid g' (bk_groups br)\<rparr>)"
      "cg_member_topics g' = AList.update (gc_member q) (gc_topics q) (cg_member_topics ?g)"
      using join_entry_spec [OF mem ord] by blast
    then have "group_entry gid br' = (if gid = ?gid then g' else group_entry gid br)" for gid
      using t join by (auto simp: group_entry_def)
    then show ?thesis
      using g'(2) join by (auto simp: members_topics_entry pc_topics_def split: if_splits)
  next
    case leave
    let ?gid = "gc_group q" and ?g = "group_entry (gc_group q) br"
    let ?g' = "snd (group_leave (round_robin_assign h) (gc_member q) (all_counts meta) ?g)"
    have g': "cg_member_topics ?g' = AList.delete (gc_member q) (cg_member_topics ?g)"
      by (simp add: group_leave_def rebalance_def Let_def split: res.splits)
    have "group_entry gid br' = (if gid = ?gid then ?g' else group_entry gid br)" for gid
      using t leave by (auto simp: group_entry_def leave_entry_def split_beta mem_brokerD(3) [OF mem])
    then show ?thesis
      using g' by (auto simp: members_topics_entry split: if_splits)
  next
    case other
    then show ?thesis using group_turn_entries(3) [OF t] by (simp add: members_topics_entry)
  qed
qed

lemma group_turn_pc_good:
  assumes mem: "mem_broker h br" and ord: "hash_order h" and t: "group_turn q (pc, br) = (pc', br')"
    and good: "pc_good (dom (inmem_count (bk_backend br))) (dom (map_of (bk_groups br))) q pc"
  shows "pc_good (dom (inmem_count (bk_backend br'))) (dom (map_of (bk_groups br'))) q pc'"
proof -
  define T T' G G' where d: "T = dom (inmem_count (bk_backend br))" "T' = dom (inmem_count (bk_backend br'))"
    "G = dom (map_of (bk_groups br))" "G' = dom (map_of (bk_groups br'))"
  have sub: "T \<subseteq> T'" "G \<subseteq> G'"
    using map_le_implies_dom_le [OF group_turn_backend(2) [OF mem ord t]] group_turn_entries(1) [OF t] by (simp_all add: d)
  have look: "insert n (T \<union> X) = T \<union> X" if "map_of (im_topics (bk_backend br)) n = Some u" for n u X
    using that by (auto simp: inmem_count_def d)
  have ins: "n \<in> T'" if "pc = JoinInsert n ts" for n ts
    using t that by (auto simp: inmem_count_def ensure_insert_def d)
  have entry: "gc_group q \<in> G'" if "pc = JoinTopics []" using t that by (auto simp: create_group_def d)
  have got: "gc_group q \<in> G" if "get_group (gc_group q) br = Ok g" for g
    using that by (auto simp: get_group_def d split: option.splits)
  have good': "pc_good T G q pc" using good by (simp add: d)
  then have mono: "pc_good T' G' q pc" using pc_good_mono sub by blast
  have "pc_good T' G' q pc'"
  proof (cases "pc = CallBegin \<or> pc = LeaveLock \<or> (\<exists>n ts. pc = JoinInsert n ts) \<or> pc = JoinTopics []")
    case True
    then show ?thesis
      using t mono ins entry got sub(2) by (auto simp: call_on_def insert_absorb split: res.splits group_call.splits)
  next
    case False
    then have "pc_good T G q pc'"
      using t good' look
      by (cases "(q, (pc, br))" rule: group_turn.cases)
        (auto simp: call_on_def split: res.splits prod.splits if_splits)
    then show ?thesis using pc_good_mono sub by blast
  qed
  then show ?thesis by (simp add: d)
qed


lemma turn_to_group:
  assumes "group_turn q (pc, br) = (pc', br')" and "meta_of pc' = Some meta"
  shows "metadata_read br = Ok meta \<and> br' = br"
  using assms
  by (cases "(q, (pc, br))" rule: group_turn.cases)
    (auto simp: call_on_def split: res.splits prod.splits if_splits group_call.splits)

lemma live_topics_turn:
  assumes mem: "mem_broker h br" and ord: "hash_order h" and k: "k < length ts"
    and t: "group_turn (qs ! k) (ts ! k, br) = (pc, br')"
  shows "live_topics qs br' (ts[k := pc]) \<subseteq>
    live_topics qs br ts \<union> (if ts ! k = JoinTopics [] then set (gc_topics (qs ! k)) else {})"
proof -
  have "members_topics br' \<subseteq> live_topics qs br ts"
    using group_turn_topics [OF mem ord t] k by (auto simp: live_topics_def)
  moreover have "pc_topics (qs ! l) (ts[k := pc] ! l) \<subseteq>
      live_topics qs br ts \<union> (if ts ! k = JoinTopics [] then set (gc_topics (qs ! k)) else {})"
    if l: "l < length ts" for l
    using l k group_turn_entries(2) [OF t]
    by (cases "l = k"; cases "entered (ts ! k)") (auto simp: live_topics_def pc_topics_def)
  ultimately show ?thesis unfolding live_topics_def [of qs br'] length_list_update
    by (intro Un_least UN_least) (blast | simp)+
qed

lemma group_inv_turn:
  assumes inv: "group_inv h qs (br, ts)" and ord: "hash_order h" and m: "may_turn ts k"
    and t: "group_turn (qs ! k) (ts ! k, br) = (pc, br')"
  shows "group_inv h qs (br', ts[k := pc])"
proof -
  let ?ts = "ts[k := pc]" and ?T = "dom (inmem_count (bk_backend br))" and ?G = "dom (map_of (bk_groups br))"
  let ?T' = "dom (inmem_count (bk_backend br'))" and ?G' = "dom (map_of (bk_groups br'))"
  have i: "mem_broker h br" "length ts = length qs" "\<And>l. l < length ts \<Longrightarrow> pc_good ?T ?G (qs ! l) (ts ! l)"
    "live_topics qs br ts \<subseteq> ?T" "\<And>l. bounded_counts br \<Longrightarrow> l < length ts \<Longrightarrow> counts_right qs br ts l"
    using inv by (simp_all add: group_inv_def)
  have k: "k < length ts" using m by (simp add: may_turn_def)
  note kept = group_turn_backend(2) [OF i(1) ord t]
  have sub: "?T \<subseteq> ?T'" "?G \<subseteq> ?G'" using map_le_implies_dom_le [OF kept] group_turn_entries(1) [OF t] by simp_all
  have same: "inmem_count (bk_backend br') u = inmem_count (bk_backend br) u" if "u \<in> ?T" for u
    using kept that by (simp add: map_le_def)
  have good: "pc_good ?T' ?G' (qs ! l) (?ts ! l)" if "l < length ts" for l
    using that i(3) group_turn_pc_good [OF i(1) ord t i(3) [OF k]] pc_good_mono [OF _ sub] by (cases "l = k") auto
  note live = live_topics_turn [OF i(1) ord k t]
  have enter: "set (gc_topics (qs ! k)) \<subseteq> ?T" if "ts ! k = JoinTopics []" using i(3) [OF k] that by simp
  have dom: "live_topics qs br' ?ts \<subseteq> ?T" using live i(4) enter by (auto split: if_splits)
  have right: "counts_right qs br' ?ts l" if b: "bounded_counts br'" and l: "l < length ts" for l
  proof -
    have b0: "bounded_counts br" using bounded_counts_mono [OF b kept] .
    note read = metadata_read_counts [OF _ i(1) ord b0]
    have "meta_count meta u = inmem_count (bk_backend br') u"
      if j: "?ts ! l = JoinGroup meta" and u: "u \<in> set (gc_topics (qs ! l))" for meta u
    proof (cases "l = k")
      case True
      then show ?thesis using turn_to_group [OF t, of meta] j k read(1) by simp
    next
      case False
      then have "ts ! l = JoinGroup meta" using j by simp
      then have "u \<in> ?T" "meta_count meta u = inmem_count (bk_backend br) u"
        using i(3) [OF l] i(5) [OF b0 l] u by (auto simp: counts_right_def)
      then show ?thesis by (simp add: same)
    qed
    moreover have "map_of (all_counts meta) u = inmem_count (bk_backend br') u"
      if j: "?ts ! l = LeaveGroup meta" and u: "u \<in> live_topics qs br' ?ts" for meta u
    proof (cases "l = k")
      case True
      then show ?thesis using turn_to_group [OF t, of meta] j k read(2) by simp
    next
      case False
      then have tl: "ts ! l = LeaveGroup meta" using j by simp
      then have "LeaveGroup meta \<in> set ts" using l by (metis nth_mem)
      then have "ts ! k \<noteq> JoinTopics []" using m by (fastforce simp: may_turn_def)
      then have "u \<in> live_topics qs br ts" using live u by auto
      then have "u \<in> ?T" "map_of (all_counts meta) u = inmem_count (bk_backend br) u"
        using i(4) i(5) [OF b0 l] tl by (auto simp: counts_right_def)
      then show ?thesis by (simp add: same)
    qed
    ultimately show ?thesis by (simp add: counts_right_def)
  qed
  show ?thesis
    using group_turn_backend(1) [OF i(1) ord t] i(2) good dom sub(1) right by (auto simp: group_inv_def)
qed

lemma group_inv_broker:
  assumes inv: "group_inv h qs (br, ts)" and ord: "hash_order h" and s: "broker_step br br'"
    and g: "bk_groups br' = bk_groups br"
  shows "group_inv h qs (br', ts)"
proof -
  let ?T = "dom (inmem_count (bk_backend br))" and ?T' = "dom (inmem_count (bk_backend br'))"
  have i: "mem_broker h br" "length ts = length qs"
    "\<And>l. l < length ts \<Longrightarrow> pc_good ?T (dom (map_of (bk_groups br))) (qs ! l) (ts ! l)"
    "live_topics qs br ts \<subseteq> ?T" "\<And>l. bounded_counts br \<Longrightarrow> l < length ts \<Longrightarrow> counts_right qs br ts l"
    using inv by (simp_all add: group_inv_def)
  note kept = count_kept_step [OF s i(1)]
  have sub: "?T \<subseteq> ?T'" using map_le_implies_dom_le [OF kept] .
  have live: "live_topics qs br' ts = live_topics qs br ts" by (simp add: live_topics_def members_topics_def g)
  have same: "inmem_count (bk_backend br') u = inmem_count (bk_backend br) u" if "u \<in> ?T" for u
    using kept that by (simp add: map_le_def)
  have right: "counts_right qs br' ts l" if b: "bounded_counts br'" and l: "l < length ts" for l
  proof -
    have r: "counts_right qs br ts l" using i(5) [OF bounded_counts_mono [OF b kept] l] .
    have "u \<in> ?T" if "ts ! l = JoinGroup meta" "u \<in> set (gc_topics (qs ! l))" for meta u
      using i(3) [OF l] that by auto
    then show ?thesis using r same subsetD [OF i(4)] by (simp add: counts_right_def live)
  qed
  show ?thesis
    using mem_broker_step [OF s i(1) ord] i(2) right i(4) sub pc_good_mono [OF i(3) sub]
    by (auto simp: group_inv_def g live)
qed

lemma group_inv_run:
  assumes "group_run qs n s s'" and "group_inv h qs s" and "hash_order h"
  shows "group_inv h qs s'"
  using assms(1,2)
proof (induction rule: group_run.induct)
  case (grun_turn n s br ts k pc br')
  then show ?case using group_inv_turn [OF _ assms(3)] by blast
next
  case (grun_broker n s br ts br')
  then show ?case using group_inv_broker [OF _ assms(3)] by blast
qed



section \<open>A call on its own\<close>

definition call_budget :: "group_call \<Rightarrow> nat" where
  "call_budget q = (case q of JoinCall gid m topics \<Rightarrow> 3 * length topics + 6 | LeaveCall gid m \<Rightarrow> 5)"

lemma group_turns_add: "group_turns (m + n) q x = group_turns n q (group_turns m q x)"
  by (induction m arbitrary: x) simp_all

lemma open_metadata:
  assumes "mem_broker h br" and "\<not> bk_shutdown br"
  shows "metadata_read br = broker_all_metadata br"
proof -
  have "reopened (bk_backend br) = bk_backend br"
    using assms(2) mem_brokerD(6) [OF assms(1)] by (cases "bk_backend br") (simp add: reopened_def)
  then show ?thesis by (simp add: metadata_read_def broker_all_metadata_def)
qed

lemma notifies_Ok:
  assumes "mem_broker h br"
  shows "\<exists>ns. broker_get_partition_notifies topics br = Ok ns"
  using mem_brokerD(1) [OF assms] by (simp add: broker_get_partition_notifies_def inmem_get_partition_notifies_def)

lemma topics_turns:
  assumes "mem_broker h br" and "\<not> bk_shutdown br"
  shows "\<exists>j br'. j \<le> 3 * length ts \<and> group_turns j q (JoinTopics ts, br) = (JoinTopics [], br') \<and>
    st_for ensure_default ts br = (Ok (), br') \<and> mem_broker h br' \<and> \<not> bk_shutdown br'"
  using assms
proof (induction ts arbitrary: br)
  case Nil
  then show ?case by (intro exI [of _ 0]) simp
next
  case (Cons t ts)
  let ?br = "br\<lparr>bk_backend := ensure_insert t (default_num_partitions (bk_config br)) (bk_backend br)\<rparr>"
  have op: "mem_broker h ?br" "\<not> bk_shutdown ?br"
    using mem_broker_ensure_insert [OF Cons.prems] Cons.prems(2) by simp_all
  have "\<exists>i \<le> 3. group_turns i q (JoinTopics (t # ts), br) = (JoinTopics ts, ?br)"
  proof (cases "map_of (im_topics (bk_backend br)) t = None")
    case True
    then show ?thesis
      using open_checks(2) [OF Cons.prems] by (intro exI [of _ 3]) (simp add: eval_nat_numeral)
  next
    case False
    then show ?thesis
      using open_checks(2) [OF Cons.prems] by (intro exI [of _ 2]) (simp add: eval_nat_numeral ensure_insert_def)
  qed
  then obtain i where i: "i \<le> 3" "group_turns i q (JoinTopics (t # ts), br) = (JoinTopics ts, ?br)" by blast
  obtain j br' where j: "j \<le> 3 * length ts" "group_turns j q (JoinTopics ts, ?br) = (JoinTopics [], br')"
    "st_for ensure_default ts ?br = (Ok (), br')" "mem_broker h br'" "\<not> bk_shutdown br'"
    using Cons.IH [OF op] by blast
  have "st_for ensure_default (t # ts) br = (Ok (), br')"
    using j(3) by (simp add: st_bind_def ensure_open [OF Cons.prems])
  then show ?case
    using i j by (intro exI [of _ "i + j"] exI [of _ br']) (simp add: group_turns_add)
qed

lemma entry_turns:
  assumes mem: "mem_broker h br" and op: "\<not> bk_shutdown br"
  shows "group_turns (5 + n) (JoinCall gid m topics) (JoinTopics [], br) =
    (case st_bind (create_group gid) (\<lambda>_.
       st_bind (st_read (broker_get_partition_notifies topics)) (\<lambda>_.
       st_bind (st_read broker_all_metadata) (\<lambda>meta. join_entry gid m topics meta))) br of
       (r, br') \<Rightarrow> (CallEnd (res_map Some r), br'))"
proof -
  let ?br = "snd (create_group gid br)"
  have 1: "mem_broker h ?br" "\<not> bk_shutdown ?br" "create_group gid br = (Ok (), ?br)"
    using mem_broker_create_group [OF mem] op by (simp_all add: create_group_def)
  obtain ns where "broker_get_partition_notifies topics ?br = Ok ns" using notifies_Ok [OF 1(1)] by blast
  then show ?thesis
    using open_checks(2) [OF 1(1,2)] open_metadata [OF 1(1,2)]
    by (simp add: eval_nat_numeral st_bind_Ok [where m = "create_group gid", OF 1(3)] st_bind_read_eq
        split: res.splits prod.splits)
qed

lemma leave_turns:
  assumes mem: "mem_broker h br" and op: "\<not> bk_shutdown br"
  shows "group_turns 4 (LeaveCall gid m) (LeaveLock, br) =
    (case broker_leave_group gid m br of (r, br') \<Rightarrow> (CallEnd (res_map (\<lambda>_. None) r), br'))"
  using open_checks(2) [OF mem op] open_metadata [OF mem op] op
  by (auto simp: eval_nat_numeral broker_leave_group_def st_bind_read_eq broker_check_shutdown_def leave_entry_def
      get_group_def group_entry_def split: res.splits prod.splits option.splits)

lemma group_turns_at_once:
  assumes mem: "mem_broker h br"
  shows "group_turns (call_budget q) q (CallBegin, br) = (CallEnd (fst (call_at_once q br)), snd (call_at_once q br))"
proof (cases "bk_shutdown br")
  case True
  then show ?thesis
    by (cases q) (simp_all add: call_budget_def call_at_once_def broker_closed broker_check_shutdown_def eval_nat_numeral)
next
  case False
  then have chk: "broker_check_shutdown br = Ok ()" by (simp add: broker_check_shutdown_def)
  show ?thesis
  proof (cases q)
    case (JoinCall gid m topics)
    obtain j br' where j: "j \<le> 3 * length topics" "group_turns j q (JoinTopics topics, br) = (JoinTopics [], br')"
      "st_for ensure_default topics br = (Ok (), br')" "mem_broker h br'" "\<not> bk_shutdown br'"
      using topics_turns [OF mem False] by blast
    define n where "n = 3 * length topics - j"
    have "call_budget q = Suc (j + (5 + n))" using j(1) by (simp add: call_budget_def JoinCall n_def)
    then have "group_turns (call_budget q) q (CallBegin, br) = group_turns (5 + n) q (JoinTopics [], br')"
      using chk j(2) by (simp only: group_turns.simps group_turns_add) (simp add: JoinCall)
    also have "\<dots> = (case broker_join_group gid m topics br of (r, br') \<Rightarrow> (CallEnd (res_map Some r), br'))"
      using entry_turns [OF j(4,5), of n gid m topics] chk j(3)
      by (simp add: JoinCall broker_join_group_def st_bind_read_eq [of broker_check_shutdown]
          st_bind_Ok [where m = "st_for ensure_default topics", OF j(3)])
    finally show ?thesis by (simp add: call_at_once_def JoinCall split_beta)
  next
    case (LeaveCall gid m)
    then show ?thesis
      using leave_turns [OF mem False, of gid m] chk
      by (simp add: call_budget_def call_at_once_def split_beta numeral_eq_Suc)
  qed
qed


text \<open>So what the turns keep, the atomic joins and leaves keep: in every reachable broker the topics of
  the members of a group exist.\<close>

lemma turns_run:
  assumes "k < length ts" and "ts ! k = pc" and free: "\<forall>l < length ts. l \<noteq> k \<longrightarrow> \<not> holding (ts ! l)"
  shows "\<exists>n'. group_run qs n' (br, ts)
    (snd (group_turns n (qs ! k) (pc, br)), ts[k := fst (group_turns n (qs ! k) (pc, br))])"
proof (induction n)
  case 0
  show ?case using assms(2) by (auto intro!: exI [of _ 0] grun_start simp: list_update_id)
next
  case (Suc n)
  obtain pc1 br1 where x: "group_turns n (qs ! k) (pc, br) = (pc1, br1)" by fastforce
  then obtain n' where run: "group_run qs n' (br, ts) (br1, ts[k := pc1])" using Suc by auto
  have step: "group_turns (Suc n) (qs ! k) (pc, br) = group_turn (qs ! k) (pc1, br1)"
    using group_turns_add [of n 1 "qs ! k" "(pc, br)"] x by simp
  show ?case
  proof (cases "ended pc1")
    case True
    then have "group_turn (qs ! k) (pc1, br1) = (pc1, br1)" by (cases pc1) simp_all
    then show ?thesis using run unfolding step by auto
  next
    case False
    have "\<not> holding pc'" if "pc1 = JoinTopics []" "pc' \<in> set (ts[k := pc1])" for pc'
    proof -
      note x = that
      obtain l where "l < length ts" "pc' = (if l = k then JoinTopics [] else ts ! l)"
        using x assms(1) by (auto simp: in_set_conv_nth nth_list_update)
      then show ?thesis using free by simp
    qed
    then have m: "may_turn (ts[k := pc1]) k" using False assms(1) by (auto simp: may_turn_def)
    have "group_turn (qs ! k) (ts[k := pc1] ! k, br1) =
        (fst (group_turn (qs ! k) (pc1, br1)), snd (group_turn (qs ! k) (pc1, br1)))" using assms(1) by simp
    from grun_turn [OF run m this] show ?thesis unfolding step by auto
  qed
qed

lemma group_inv_begin:
  assumes "mem_broker h br" and "members_topics br \<subseteq> dom (inmem_count (bk_backend br))"
  shows "group_inv h qs (br, replicate (length qs) CallBegin)"
  using assms by (auto simp: group_inv_def counts_right_def live_topics_def pc_topics_def)

lemma at_once_topics:
  assumes mem: "mem_broker h br" and ord: "hash_order h"
    and "members_topics br \<subseteq> dom (inmem_count (bk_backend br))" and x: "call_at_once q br = (r, br')"
  shows "members_topics br' \<subseteq> dom (inmem_count (bk_backend br'))"
proof -
  obtain n where "group_run [q] n (br, [CallBegin]) (br', [CallEnd r])"
    using turns_run [of 0 "[CallBegin]" CallBegin "[q]" br "call_budget q"] group_turns_at_once [OF mem, of q] x by auto
  from group_inv_run [OF this _ ord] show ?thesis
    using group_inv_begin [OF mem assms(3), of "[q]"] by (simp add: group_inv_def live_topics_def)
qed

lemma groups_kept:
  "bk_groups (snd (on_backend f br)) = bk_groups br"
  "bk_groups (snd (broker_produce c topic part k pl hs ts br)) = bk_groups br"
  "bk_groups (snd (broker_produce_typed c topic part tp tk hs ts br)) = bk_groups br"
  "bk_groups (snd (broker_commit_offset gid topic p off br)) = bk_groups br"
  "bk_groups (snd (broker_shutdown br)) = bk_groups br"
  "bk_groups (snd (broker_ensure_topic topic n br)) = bk_groups br"
proof -
  show b: "bk_groups (snd (on_backend f br)) = bk_groups br" for f and br :: "('a, 'b) broker"
    by (simp add: on_backend_def split_beta)
  show "bk_groups (snd (broker_produce c topic part k pl hs ts br)) = bk_groups br"
    "bk_groups (snd (broker_produce_typed c topic part tp tk hs ts br)) = bk_groups br"
    unfolding broker_produce_def broker_produce_typed_def
    by (intro st_bind_keeps [where g = bk_groups];
        simp add: st_read_def st_return_def broker_choose_routed ensure_default_def broker_ensure_topic_def b)+
qed (simp_all add: broker_commit_offset_def st_bind_read_eq broker_shutdown_def broker_ensure_topic_def on_backend_def
    split_beta Let_def split: res.splits)

lemma step_topics:
  assumes "broker_step br br'" and "mem_broker h br" and "hash_order h"
    and "members_topics br \<subseteq> dom (inmem_count (bk_backend br))"
  shows "members_topics br' \<subseteq> dom (inmem_count (bk_backend br'))"
proof -
  have dom: "dom (inmem_count (bk_backend br)) \<subseteq> dom (inmem_count (bk_backend br'))"
    using map_le_implies_dom_le [OF count_kept_step [OF assms(1,2)]] .
  have rest: "members_topics br' \<subseteq> dom (inmem_count (bk_backend br'))" if "bk_groups br' = bk_groups br"
    using that dom assms(4) by (simp add: members_topics_def)
  from assms(1) show ?thesis
  proof cases
    case (kstep_join gid m topics)
    then show ?thesis
      using at_once_topics [OF assms(2-4), of "JoinCall gid m topics"] by (simp add: call_at_once_def split_beta)
  next
    case (kstep_leave gid m)
    then show ?thesis
      using at_once_topics [OF assms(2-4), of "LeaveCall gid m"] by (simp add: call_at_once_def split_beta)
  qed (rule rest, simp add: groups_kept)+
qed

lemma reachable_topics:
  assumes "broker_reachable h br" and "hash_order h"
  shows "members_topics br \<subseteq> dom (inmem_count (bk_backend br))"
  using assms(1)
proof (induction rule: broker_reachable.induct)
  case (kreach_step br br')
  then show ?case using step_topics broker_reachable_mem [OF _ assms(2)] assms(2) by blast
qed (auto simp: broker_new_def broker_with_partitioner_def members_topics_def)



section \<open>The turn that counts\<close>

text \<open>When a call comes to its turn in the group, running it at that moment from the start would do the
  same.\<close>

lemma open_all_metadata:
  assumes j: "joinable h br" and ord: "hash_order h"
  shows "\<exists>md. broker_all_metadata br = Ok md \<and> metadata_read br = Ok md"
proof -
  have mem: "mem_broker h br" "\<not> bk_shutdown br" using j by (simp_all add: joinable_def)
  have "\<forall>t n. inmem_count (bk_backend br) t = Some n \<longrightarrow> 0 \<le> n" using j by (simp add: joinable_def)
  then obtain md where "inmem_metadata h (broker_id (bk_config br)) None (bk_backend br) = Ok md"
    using inmem_metadata_all [OF mem_brokerD(4) [OF mem(1)] _ ord] mem(2) mem_brokerD(6) [OF mem(1)] by metis
  then show ?thesis using open_metadata [OF mem] by (simp add: broker_all_metadata_def mem_brokerD(1) [OF mem(1)])
qed

lemma known_topics_for:
  assumes "mem_broker h br" and "\<not> bk_shutdown br" and "set ts \<subseteq> dom (inmem_count (bk_backend br))"
  shows "st_for ensure_default ts br = (Ok (), br)"
  using assms(3)
proof (induction ts)
  case (Cons t ts)
  then have "map_of (im_topics (bk_backend br)) t \<noteq> None" by (auto simp: inmem_count_def)
  then have "ensure_default t br = (Ok (), br)" using ensure_open [OF assms(1,2), of t] by (simp add: ensure_insert_def)
  then show ?case using Cons by (simp add: st_bind_def)
qed simp

lemma join_now:
  assumes j: "joinable h br" and ord: "hash_order h" and known: "set topics \<subseteq> dom (inmem_count (bk_backend br))"
    and gid: "gid \<in> dom (map_of (bk_groups br))"
    and right: "\<forall>t \<in> set topics. meta_count meta t = inmem_count (bk_backend br) t"
  shows "broker_join_group gid m topics br = join_entry gid m topics meta br"
proof -
  have op: "mem_broker h br" "\<not> bk_shutdown br" and b: "bounded_counts br"
    using j by (simp_all add: joinable_def bounded_counts_def)
  obtain md where md: "broker_all_metadata br = Ok md" "metadata_read br = Ok md"
    using open_all_metadata [OF j ord] by blast
  obtain ns where ns: "broker_get_partition_notifies topics br = Ok ns" using notifies_Ok [OF op(1)] by blast
  have cr: "create_group gid br = (Ok (), br)"
    using gid by (auto simp: create_group_def group_entry_def update_triv)
  have "joiner_counts topics md = joiner_counts topics meta"
    using right metadata_read_counts(1) [OF md(2) op(1) ord b] by (intro joiner_counts_cong) simp
  then have "join_entry gid m topics md br = join_entry gid m topics meta br" by (simp add: join_entry_def)
  then show ?thesis
    using op(2) known_topics_for [OF op known] cr md(1) ns
    by (simp add: broker_join_group_def broker_check_shutdown_def st_bind_Ok [where m = "create_group gid", OF cr]
        st_bind_Ok [where m = "st_for ensure_default topics", OF known_topics_for [OF op known]] st_bind_read_eq)
qed

lemma leave_now:
  assumes j: "joinable h br" and ord: "hash_order h" and gid: "gid \<in> dom (map_of (bk_groups br))"
    and right: "\<forall>t \<in> members_topics br. map_of (all_counts meta) t = inmem_count (bk_backend br) t"
  shows "broker_leave_group gid m br = leave_entry gid m meta br"
proof -
  have op: "mem_broker h br" "\<not> bk_shutdown br" and b: "bounded_counts br"
    using j by (simp_all add: joinable_def bounded_counts_def)
  obtain md where md: "broker_all_metadata br = Ok md" "metadata_read br = Ok md"
    using open_all_metadata [OF j ord] by blast
  have "map_of (all_counts md) t = map_of (all_counts meta) t"
    if "map_of (cg_member_topics (group_entry gid br)) k = Some ts" "t \<in> set ts" for k ts t
  proof -
    have "t \<in> members_topics br" using that by (auto simp: members_topics_entry)
    then show ?thesis using right metadata_read_counts(2) [OF md(2) op(1) ord b] by simp
  qed
  from group_leave_cong [OF ord mem_broker_group_entry(1) [OF op(1)] this]
  have "leave_entry gid m md br = leave_entry gid m meta br" by (simp add: leave_entry_def mem_brokerD(3) [OF op(1)])
  moreover have "get_group gid br = Ok (group_entry gid br)" using gid by (auto simp: get_group_def group_entry_def)
  ultimately show ?thesis
    using op(2) md(1) by (simp add: broker_leave_group_def broker_check_shutdown_def st_bind_read_eq leave_entry_def)
qed

lemma group_turn_effect:
  assumes inv: "group_inv h qs (br, ts)" and j: "joinable h br" and ord: "hash_order h" and k: "k < length ts"
    and meta: "meta_of (ts ! k) = Some meta"
  shows "group_turn (qs ! k) (ts ! k, br) = (CallEnd (fst (call_at_once (qs ! k) br)), snd (call_at_once (qs ! k) br))"
proof -
  have "bounded_counts br" using j by (simp add: joinable_def bounded_counts_def)
  then have i: "pc_good (dom (inmem_count (bk_backend br))) (dom (map_of (bk_groups br))) (qs ! k) (ts ! k)"
    "counts_right qs br ts k" using inv k by (simp_all add: group_inv_def)
  have members: "members_topics br \<subseteq> live_topics qs br ts" by (simp add: live_topics_def)
  consider (join) "ts ! k = JoinGroup meta" | (leave) "ts ! k = LeaveGroup meta"
    using meta by (cases "ts ! k") auto
  then show ?thesis
  proof cases
    case join
    then obtain gid m topics where q: "qs ! k = JoinCall gid m topics" using i(1) by (cases "qs ! k") auto
    show ?thesis
      using join_now [OF j ord, of topics gid meta m] i join by (simp add: q call_at_once_def counts_right_def split_beta)
  next
    case leave
    then obtain gid m where q: "qs ! k = LeaveCall gid m" using i(1) by (cases "qs ! k") auto
    have "\<forall>t \<in> members_topics br. map_of (all_counts meta) t = inmem_count (bk_backend br) t"
      using i(2) leave members by (auto simp: counts_right_def)
    from leave_now [OF j ord _ this, of gid m] i(1) leave show ?thesis by (simp add: q call_at_once_def split_beta)
  qed
qed



section \<open>Every call ends\<close>

fun turns_left :: "group_call \<Rightarrow> group_pc \<Rightarrow> nat" where
  "turns_left q CallBegin = call_budget q"
| "turns_left q (JoinTopics ts) = 3 * length ts + 5"
| "turns_left q (JoinLook t ts) = 3 * length ts + 7"
| "turns_left q (JoinInsert t ts) = 3 * length ts + 6"
| "turns_left q JoinNotifies = 4"
| "turns_left q JoinMetaCheck = 3"
| "turns_left q JoinMetaRead = 2"
| "turns_left q (JoinGroup meta) = 1"
| "turns_left q LeaveLock = 4"
| "turns_left q LeaveMetaCheck = 3"
| "turns_left q LeaveMetaRead = 2"
| "turns_left q (LeaveGroup meta) = 1"
| "turns_left q (CallEnd r) = 0"

definition all_left :: "group_call list \<Rightarrow> group_pc list \<Rightarrow> nat" where
  "all_left qs ts = (\<Sum>k < length ts. turns_left (qs ! k) (ts ! k))"

lemma turn_decreases:
  assumes "group_turn q (pc, br) = (pc', br')" and "\<not> ended pc"
  shows "turns_left q pc' < turns_left q pc"
  using assms
  by (cases "(q, (pc, br))" rule: group_turn.cases)
    (auto simp: call_on_def call_budget_def split: res.splits prod.splits group_call.splits if_splits)

lemma all_left_turn:
  assumes "may_turn ts k" and "group_turn (qs ! k) (ts ! k, br) = (pc, br')"
  shows "all_left qs (ts[k := pc]) < all_left qs ts"
proof -
  have k: "k < length ts" "\<not> ended (ts ! k)" using assms(1) by (simp_all add: may_turn_def)
  have "turns_left (qs ! l) (ts[k := pc] ! l) \<le> turns_left (qs ! l) (ts ! l)" for l
    using turn_decreases [OF assms(2) k(2)] k(1) by (cases "l = k") simp_all
  moreover have "turns_left (qs ! k) (ts[k := pc] ! k) < turns_left (qs ! k) (ts ! k)"
    using turn_decreases [OF assms(2) k(2)] k(1) by simp
  ultimately show ?thesis
    unfolding all_left_def length_list_update using k(1) by (intro sum_strict_mono_ex1 bexI [of _ k]) auto
qed

lemma run_budget:
  assumes "group_run qs n s s'"
  shows "n + all_left qs (snd s') \<le> all_left qs (snd s)"
  using assms
proof (induction rule: group_run.induct)
  case (grun_turn n s br ts k pc br')
  then show ?case using all_left_turn [OF grun_turn.hyps(2,3)] by simp
qed simp_all

text \<open>The call that holds the lock can go on, so nothing is stuck.\<close>

lemma someone_may_turn:
  assumes "\<not> list_all ended ts"
  shows "\<exists>k. may_turn ts k"
proof (cases "\<exists>pc \<in> set ts. holding pc")
  case True
  then obtain k where k: "k < length ts" "holding (ts ! k)" by (auto simp: in_set_conv_nth)
  then have "\<not> ended (ts ! k)" "ts ! k \<noteq> JoinTopics []" by (cases "ts ! k"; simp)+
  then show ?thesis using k(1) by (auto simp: may_turn_def)
next
  case False
  then show ?thesis using assms by (auto simp: may_turn_def list_all_iff in_set_conv_nth)
qed

lemma run_to_end:
  assumes "group_run qs m s (br, ts)"
  shows "\<exists>m' br' ts'. group_run qs m' s (br', ts') \<and> list_all ended ts'"
  using assms
proof (induction "all_left qs ts" arbitrary: m br ts rule: less_induct)
  case less
  show ?case
  proof (cases "list_all ended ts")
    case True
    then show ?thesis using less.prems by blast
  next
    case False
    then obtain k where k: "may_turn ts k" using someone_may_turn by blast
    obtain pc br' where t: "group_turn (qs ! k) (ts ! k, br) = (pc, br')" by fastforce
    show ?thesis using less.hyps [OF all_left_turn [OF k t] grun_turn [OF less.prems k t]] .
  qed
qed



section \<open>Properties\<close>

lemma group_turn_ends:
  assumes j: "joinable h br" and ord: "hash_order h" and t: "group_turn q (pc, br) = (CallEnd r, br')"
    and "\<not> ended pc" and "pc_good T G q pc" and "meta_of pc = None"
  shows "call_at_once q br = (r, br')"
proof -
  have op: "mem_broker h br" "\<not> bk_shutdown br" using j by (simp_all add: joinable_def)
  note chk = open_checks(2) [OF op]
  obtain ns where ns: "broker_get_partition_notifies (gc_topics q) br = Ok ns" using notifies_Ok [OF op(1)] by blast
  have "pc = LeaveLock \<and> get_group (gc_group q) br = Err (GroupNotFound (gc_group q))"
    using t assms(4,6) chk op(2) ns open_all_metadata [OF j ord]
    by (cases "(q, (pc, br))" rule: group_turn.cases)
      (auto simp: call_on_def broker_check_shutdown_def get_group_def split: res.splits group_call.splits option.splits
        if_splits)
  then show ?thesis
    using t assms(5) op(2)
    by (cases q) (auto simp: call_at_once_def broker_leave_group_def broker_check_shutdown_def st_bind_read_eq)
qed

text \<open>C8: Joins and leaves take effect at one moment, though each works with partition counts it has
  read before. Let any number of calls run on a reachable broker, their turns interleaved with
  each other, with the creation of topics by whatever operation, with produces, commits and a
  shutdown. On a broker that is open and has topics of 0 to \<open>2^31 - 1\<close> partitions, the turn that
  ends a call answers, and changes the broker, exactly as the whole \<open>join_group\<close> or \<open>leave_group\<close>
  would if it ran at that moment alone; and no other turn changes the members or the assignments
  of any group. For the leave this rests on the read lock it holds, which keeps joins of topics
  it has not counted out of the group.\<close>

theorem group_calls_atomic:
  assumes "broker_reachable h br0" and "hash_order h"
    and "group_run qs n (br0, replicate (length qs) CallBegin) (br, ts)" and "joinable h br"
    and "may_turn ts k" and "group_turn (qs ! k) (ts ! k, br) = (pc, br')"
  shows "(if ended pc
    then (pc, br') = (CallEnd (fst (call_at_once (qs ! k) br)), snd (call_at_once (qs ! k) br))
    else \<forall>gid. group_entry gid br' = group_entry gid br)"
proof -
  have inv: "group_inv h qs (br, ts)"
    using group_inv_run [OF assms(3) group_inv_begin [OF broker_reachable_mem [OF assms(1,2)]
        reachable_topics [OF assms(1,2)]] assms(2)] .
  have k: "k < length ts" "\<not> ended (ts ! k)" using assms(5) by (simp_all add: may_turn_def)
  show ?thesis
  proof (cases "meta_of (ts ! k)")
    case (Some meta)
    then show ?thesis using group_turn_effect [OF inv assms(4,2) k(1)] assms(6) by simp
  next
    case None
    then have "\<forall>meta. ts ! k \<noteq> JoinGroup meta \<and> ts ! k \<noteq> LeaveGroup meta" by auto
    note same = group_turn_entries(3) [OF assms(6) this]
    have "pc_good (dom (inmem_count (bk_backend br))) (dom (map_of (bk_groups br))) (qs ! k) (ts ! k)"
      using inv k(1) by (simp add: group_inv_def)
    from group_turn_ends [OF assms(4,2) _ k(2) this None]
    have "call_at_once (qs ! k) br = (r, br')" if "pc = CallEnd r" for r using assms(6) that by blast
    then show ?thesis using same by (cases pc) simp_all
  qed
qed

text \<open>A run that stands before the turn of a join, for the demonstration.\<close>

lemma join_reaches:
  assumes j: "joinable h br" and ord: "hash_order h"
  shows "\<exists>i md br'. group_turns i (JoinCall gid m topics) (CallBegin, br) = (JoinGroup md, br') \<and> joinable h br'"
proof -
  let ?q = "JoinCall gid m topics"
  have op: "mem_broker h br" "\<not> bk_shutdown br" using j by (simp_all add: joinable_def)
  obtain i br1 where i: "group_turns i ?q (JoinTopics topics, br) = (JoinTopics [], br1)"
    "st_for ensure_default topics br = (Ok (), br1)" "mem_broker h br1" "\<not> bk_shutdown br1"
    using topics_turns [OF op] by blast
  obtain b where b: "br1 = br\<lparr>bk_backend := b\<rparr>" "\<forall>t. inmem_count b t = (if t \<in> set topics
      then Some (seen_count (inmem_count (bk_backend br) t) br) else inmem_count (bk_backend br) t)"
    using ensure_topics_ok [OF op, of topics] i(2) by auto
  have "0 \<le> n \<and> n < 2 ^ 31" if "inmem_count b t = Some n" for t n
    using that b(2) [rule_format, of t] j by (auto simp: joinable_def seen_count_def split: option.splits if_splits)
  then have "joinable h br1" using b(1) i(3,4) j by (simp add: joinable_def)
  moreover have "mem_broker h (snd (create_group gid br1))" using mem_broker_create_group [OF i(3)] .
  ultimately have j2: "joinable h (snd (create_group gid br1))" by (simp add: joinable_def create_group_def)
  let ?br = "snd (create_group gid br1)"
  have op2: "mem_broker h ?br" "\<not> bk_shutdown ?br" using j2 by (simp_all add: joinable_def)
  obtain md where md: "metadata_read ?br = Ok md" using open_all_metadata [OF j2 ord] by blast
  obtain ns where "broker_get_partition_notifies topics ?br = Ok ns" using notifies_Ok [OF op2(1)] by blast
  then have "group_turns 4 ?q (JoinTopics [], br1) = (JoinGroup md, ?br)"
    using md open_checks(2) [OF op2] by (simp add: eval_nat_numeral)
  then have "group_turns (Suc (i + 4)) ?q (CallBegin, br) = (JoinGroup md, ?br)"
    using i(1) op(2) by (simp only: group_turns.simps group_turns_add) (simp add: broker_check_shutdown_def)
  then show ?thesis using j2 by blast
qed

lemma join_pending:
  "\<exists>n br md. group_run [JoinCall ''g'' ''a'' [''t''], LeaveCall ''g'' ''b''] n (demo_broker, replicate 2 CallBegin)
     (br, [JoinGroup md, CallBegin]) \<and> joinable remdups br"
proof -
  let ?qs = "[JoinCall ''g'' ''a'' [''t''], LeaveCall ''g'' ''b'']"
  obtain i md br where i: "group_turns i (JoinCall ''g'' ''a'' [''t'']) (CallBegin, demo_broker) = (JoinGroup md, br)"
    "joinable remdups br"
    using join_reaches [OF demo_joinable hash_order_remdups] by blast
  then show ?thesis
    using turns_run [of 0 "replicate 2 CallBegin" CallBegin ?qs demo_broker i] by (auto simp: numeral_2_eq_2)
qed

theorem group_calls_atomic_witness:
  "\<exists>n br md. group_run [JoinCall ''g'' ''a'' [''t''], LeaveCall ''g'' ''b''] n (demo_broker, replicate 2 CallBegin)
     (br, [JoinGroup md, CallBegin]) \<and>
     group_turn (JoinCall ''g'' ''a'' [''t'']) (JoinGroup md, br) =
       (CallEnd (res_map Some (fst (broker_join_group ''g'' ''a'' [''t''] br))),
        snd (broker_join_group ''g'' ''a'' [''t''] br))"
proof -
  let ?qs = "[JoinCall ''g'' ''a'' [''t''], LeaveCall ''g'' ''b'']"
  obtain n br md where run: "group_run ?qs n (demo_broker, replicate 2 CallBegin) (br, [JoinGroup md, CallBegin])"
    "joinable remdups br"
    using join_pending by blast
  have run': "group_run ?qs n (demo_broker, replicate (length ?qs) CallBegin) (br, [JoinGroup md, CallBegin])"
    using run(1) by (simp add: numeral_2_eq_2)
  obtain pc br' where t: "group_turn (?qs ! 0) ([JoinGroup md, CallBegin] ! 0, br) = (pc, br')" by fastforce
  have "ended pc" using t by (auto split: prod.splits)
  moreover have "may_turn [JoinGroup md, CallBegin] 0" by (simp add: may_turn_def)
  ultimately show ?thesis
    using group_calls_atomic [OF demo_broker_reachable hash_order_remdups run' run(2) _ t] t run(1)
    by (auto simp: call_at_once_def split_beta)
qed

text \<open>C36: Joins and leaves cannot block each other for ever. Of any number of calls, a join waits only
  while a leave holds the lock, and the turns of the calls are bounded: a join of \<open>n\<close> topics has
  at most \<open>3 n + 6\<close>, a leave five. So from every state the calls can be brought to their ends,
  whatever else the broker has been doing.\<close>

theorem group_calls_end:
  assumes "group_run qs n (br0, replicate (length qs) CallBegin) (br, ts)"
  shows "n \<le> (\<Sum>q\<leftarrow>qs. case q of JoinCall gid m topics \<Rightarrow> 3 * length topics + 6 | LeaveCall gid m \<Rightarrow> 5) \<and>
    (\<exists>m br' ts'. group_run qs m (br, ts) (br', ts') \<and> list_all ended ts')"
proof -
  have "all_left qs (replicate (length qs) CallBegin) = (\<Sum>k < length qs. call_budget (qs ! k))"
    by (simp add: all_left_def)
  also have "\<dots> = (\<Sum>q\<leftarrow>qs. call_budget q)"
    by (simp add: sum_list_sum_nth atLeast0LessThan)
  finally have "n \<le> (\<Sum>q\<leftarrow>qs. call_budget q)" using run_budget [OF assms] by simp
  moreover have "(\<lambda>q. case q of JoinCall gid m topics \<Rightarrow> 3 * length topics + 6 | LeaveCall gid m \<Rightarrow> 5) = call_budget"
    by (simp add: call_budget_def fun_eq_iff)
  ultimately show ?thesis using run_to_end [OF grun_start] by simp
qed

theorem group_calls_end_witness:
  "\<exists>n br md m br' ts'. n \<le> 14 \<and>
     group_run [JoinCall ''g'' ''a'' [''t''], LeaveCall ''g'' ''b''] n (demo_broker, replicate 2 CallBegin)
       (br, [JoinGroup md, CallBegin]) \<and>
     group_run [JoinCall ''g'' ''a'' [''t''], LeaveCall ''g'' ''b''] m (br, [JoinGroup md, CallBegin]) (br', ts') \<and>
     list_all ended ts'"
proof -
  let ?qs = "[JoinCall ''g'' ''a'' [''t''], LeaveCall ''g'' ''b'']"
  obtain n br md where run: "group_run ?qs n (demo_broker, replicate 2 CallBegin) (br, [JoinGroup md, CallBegin])"
    using join_pending by blast
  have run': "group_run ?qs n (demo_broker, replicate (length ?qs) CallBegin) (br, [JoinGroup md, CallBegin])"
    using run by (simp add: numeral_2_eq_2)
  have "n \<le> 14" using group_calls_end [OF run', THEN conjunct1] by simp
  then show ?thesis using group_calls_end [OF run', THEN conjunct2] run by blast
qed

end
