(* ===== verification/Cut_Fetch.thy ===== *)
theory Cut_Fetch
  imports Base_Consumer
begin

text \<open>
  The fetches of a poll cut at their locks. \<open>Broker::fetch_one_from_position\<close> (\<open>src/broker.rs\<close>) and
  the methods of the in-memory backend it calls (\<open>src/broker_backend.rs\<close>) take a lock for every look
  they take: at the shutdown flags, the groups, the committed offset, the table of topics, the
  partition. \<open>Base_Consumer\<close> has each fetch at one moment; here every look is at a moment of its own,
  and the broker goes on in between: what is read of a partition is old by the time it is used, and
  the low watermark of an out-of-range answer is read after the fetch that failed.
\<close>

section \<open>A fetch in twelve looks\<close>

text \<open>The watermarks and the read of one message: the flag, the table of topics, the partition of the
  topic found, which is shared by reference.\<close>

definition oldest_cut ::
    "string \<Rightarrow> i32 \<Rightarrow> ('v in_memory, 'v) broker \<Rightarrow> ('v in_memory, 'v) broker \<Rightarrow> ('v in_memory, 'v) broker \<Rightarrow> i64 res" where
  "oldest_cut topic p br1 br2 br3 =
     res_bind (inmem_check_shutdown (bk_backend br1)) (\<lambda>_.
     res_bind (inmem_get_topic topic (bk_backend br2)) (\<lambda>_.
     res_bind (inmem_get_topic topic (bk_backend br3)) (\<lambda>t. res_map fst (topic_watermarks t p))))"

definition read_cut ::
    "string \<Rightarrow> i32 \<Rightarrow> i64 \<Rightarrow> ('v in_memory, 'v) broker \<Rightarrow> ('v in_memory, 'v) broker \<Rightarrow> ('v in_memory, 'v) broker
     \<Rightarrow> 'v stored_message option res" where
  "read_cut topic p off br1 br2 br3 =
     res_bind (inmem_check_shutdown (bk_backend br1)) (\<lambda>_.
     res_bind (inmem_get_topic topic (bk_backend br2)) (\<lambda>_.
     res_bind (inmem_get_topic topic (bk_backend br3)) (\<lambda>t. topic_fetch_one t p off)))"

text \<open>Where to start: the group, its committed offset, or the oldest message; \<open>brs j\<close> is the broker at
  look \<open>j\<close>.\<close>

definition start_cut ::
    "(nat \<Rightarrow> ('v in_memory, 'v) broker) \<Rightarrow> string \<Rightarrow> i32 \<Rightarrow> i64 option \<Rightarrow> string option \<Rightarrow> i64 res" where
  "start_cut brs topic p position group_id =
     (case position of
        Some o' \<Rightarrow> Ok o'
      | None \<Rightarrow>
          (case group_id of
             Some gid \<Rightarrow>
               (case map_of (bk_groups (brs 1)) gid of
                  Some g \<Rightarrow>
                    (case group_committed_offset topic p g (bk_offset_store (brs 2)) of
                       Ok (Some done_to) \<Rightarrow> Ok (wrap_i64 (done_to + 1))
                     | _ \<Rightarrow> oldest_cut topic p (brs 3) (brs 4) (brs 5))
                | None \<Rightarrow> oldest_cut topic p (brs 3) (brs 4) (brs 5))
           | None \<Rightarrow> oldest_cut topic p (brs 3) (brs 4) (brs 5)))"

definition fetch_cut ::
    "(nat \<Rightarrow> ('v in_memory, 'v) broker) \<Rightarrow> string \<Rightarrow> i32 \<Rightarrow> i64 option \<Rightarrow> string option
     \<Rightarrow> 'v stored_message option res" where
  "fetch_cut brs topic p position group_id =
     res_bind (broker_check_shutdown (brs 0)) (\<lambda>_.
     res_bind (start_cut brs topic p position group_id) (\<lambda>off.
       case read_cut topic p off (brs 6) (brs 7) (brs 8) of
         Ok (Some m) \<Rightarrow> Ok (Some m)
       | Ok None \<Rightarrow> Ok None
       | Err (OffsetOutOfRange _ _ _) \<Rightarrow>
           res_bind (oldest_cut topic p (brs 9) (brs 10) (brs 11))
             (\<lambda>oldest. Err (OffsetOutOfRange topic p oldest))
       | Err e \<Rightarrow> Err e
       | Panic x \<Rightarrow> Panic x))"

text \<open>A round of polling: iteration \<open>i\<close> has the looks \<open>12 i\<close> to \<open>12 i + 11\<close>.\<close>

definition fetch_looks :: "(nat \<Rightarrow> ('v in_memory, 'v) broker) \<Rightarrow> 'v fetch_fn" where
  "fetch_looks brs i key pos gid = fetch_cut (\<lambda>j. brs (12 * i + j)) (fst key) (snd key) pos gid"

definition poll_once_cut ::
    "(nat \<Rightarrow> ('v in_memory, 'v) broker) \<Rightarrow> rmq_consumer \<Rightarrow> 'v borrowed_message res option \<times> rmq_consumer" where
  "poll_once_cut brs c =
     (let len = length (tpl_elements (cn_assigned c));
          start = (if 0 < len then cn_poll_start c mod len else 0)
      in if len = 0 then (None, c) else scan_with (fetch_looks brs) start len 0 len c)"


section \<open>When the broker stands still\<close>

lemma standing_cuts:
  assumes mem: "mem_broker h br"
  shows "oldest_cut t i br br br = oldest_offset t i br"
    and "read_cut t i off br br br = be_fetch_one (bk_ops br) t i off (bk_backend br)"
proof -
  have again: "res_bind r (\<lambda>_. res_bind r f) = res_bind r f" for r :: "'x res" and f :: "'x \<Rightarrow> 'y res"
    by (cases r) simp_all
  show "oldest_cut t i br br br = oldest_offset t i br"
    by (simp add: oldest_cut_def oldest_offset_def broker_watermarks_def mem_brokerD(1) [OF mem]
        inmem_watermarks_def again res_map_bind)
  show "read_cut t i off br br br = be_fetch_one (bk_ops br) t i off (bk_backend br)"
    by (simp add: read_cut_def mem_brokerD(1) [OF mem] inmem_fetch_one_def again)
qed

lemma fetch_cut_standing:
  assumes "mem_broker h br"
  shows "fetch_cut (\<lambda>_. br) t i pos gid = fetch_one_from_position t i pos gid br"
  unfolding fetch_cut_def start_cut_def standing_cuts [OF assms] fetch_one_from_position_def start_offset_def ..

lemma fetch_cut_cong:
  assumes "\<And>j. j < 12 \<Longrightarrow> brs j = brs' j"
  shows "fetch_cut brs t i pos gid = fetch_cut brs' t i pos gid"
proof -
  have "brs 0 = brs' 0" "brs 1 = brs' 1" "brs 2 = brs' 2" "brs 3 = brs' 3" "brs 4 = brs' 4" "brs 5 = brs' 5"
    "brs 6 = brs' 6" "brs 7 = brs' 7" "brs 8 = brs' 8" "brs 9 = brs' 9" "brs 10 = brs' 10" "brs 11 = brs' 11"
    using assms by simp_all
  then show ?thesis by (simp only: fetch_cut_def start_cut_def)
qed

text \<open>A poll whose fetches are each done at one moment is one of the interleavings.\<close>

lemma poll_once_cut_whole:
  assumes "\<And>i. mem_broker h (brs i)"
  shows "poll_once_cut (\<lambda>j. brs (j div 12)) c = poll_once brs c"
proof -
  have "fetch_looks (\<lambda>j. brs (j div 12)) i key pos gid = fetch_whole brs i key pos gid" for i key pos gid
  proof -
    have "fetch_cut (\<lambda>j. brs ((12 * i + j) div 12)) t p pos gid = fetch_cut (\<lambda>_. brs i) t p pos gid" for t p
      by (rule fetch_cut_cong) (simp add: div_add1_eq)
    then show ?thesis using fetch_cut_standing [OF assms] by (simp add: fetch_looks_def fetch_whole_def)
  qed
  then have "fetch_looks (\<lambda>j. brs (j div 12)) = fetch_whole brs" by (simp add: fun_eq_iff)
  then show ?thesis by (simp add: poll_once_cut_def poll_once_def poll_scan_with Let_def)
qed


section \<open>What a fetch in looks can answer\<close>

lemma read_cut_partition:
  assumes "read_cut t i off br1 br2 br3 = r" and "r = Ok x \<or> r = Err (OffsetOutOfRange t' i' off')"
  shows "\<exists>p. inmem_partition (bk_backend br3) t i = Some p \<and> read_one p off = r"
  using assms
  by (auto simp: read_cut_def inmem_check_shutdown_def inmem_get_topic_def topic_fetch_one_def inmem_partition_Some
      topic_get_partition_def res_bind_eq_Ok split: if_splits option.splits)

lemma oldest_cut_partition:
  assumes "oldest_cut t i br1 br2 br3 = Ok off" and "wf_backend (bk_backend br3)"
  shows "\<exists>p. inmem_partition (bk_backend br3) t i = Some p \<and>
    off = (if first_offset p = end_offset p then 0 else first_offset p)"
proof -
  obtain p b where p: "inmem_partition (bk_backend br3) t i = Some p" "(off, b) = partition_watermarks p"
    using assms(1)
    by (auto simp: oldest_cut_def inmem_get_topic_def topic_watermarks_def inmem_partition_Some res_bind_eq_Ok
        split: option.splits)
  then show ?thesis using partition_watermarks_wf [OF inmem_partition_wf [OF assms(2) p(1)]] by (auto split: if_splits)
qed

lemma oldest_cut_err: "oldest_cut t i br1 br2 br3 \<noteq> Err (OffsetOutOfRange t' i' off)"
  by (auto simp: oldest_cut_def inmem_check_shutdown_def inmem_get_topic_def topic_watermarks_def
      topic_get_partition_def split: option.splits)

lemma start_cut_facts:
  "start_cut brs t i pos gid \<noteq> Err (OffsetOutOfRange t' i' off)"
  "start_cut brs t i (Some x) gid = Ok x"
  by (auto simp: start_cut_def oldest_cut_err split: option.splits res.splits)

lemma fetch_cut_cases:
  assumes "fetch_cut brs t i pos gid = r"
  obtains (read) off where "read_cut t i off (brs 6) (brs 7) (brs 8) = r" "\<forall>x. pos = Some x \<longrightarrow> off = x"
      "\<forall>t' i' off'. r \<noteq> Err (OffsetOutOfRange t' i' off')"
  | (moved) off t' i' off' oldest where "read_cut t i off (brs 6) (brs 7) (brs 8) = Err (OffsetOutOfRange t' i' off')"
      "\<forall>x. pos = Some x \<longrightarrow> off = x" "oldest_cut t i (brs 9) (brs 10) (brs 11) = Ok oldest"
      "r = Err (OffsetOutOfRange t i oldest)"
  | (failed) "\<forall>x. r \<noteq> Ok x" "\<forall>t' i' off'. r \<noteq> Err (OffsetOutOfRange t' i' off')"
proof (cases "broker_check_shutdown (brs 0)")
  case (Ok u)
  note chk = Ok
  show ?thesis
  proof (cases "start_cut brs t i pos gid")
    case (Ok off)
    have pos: "\<forall>x. pos = Some x \<longrightarrow> off = x" using Ok by (auto simp: start_cut_facts(2))
    let ?r = "read_cut t i off (brs 6) (brs 7) (brs 8)"
    show ?thesis
    proof (cases "\<exists>t' i' off'. ?r = Err (OffsetOutOfRange t' i' off')")
      case True
      then obtain t' i' off' where oor: "?r = Err (OffsetOutOfRange t' i' off')" by blast
      then have r: "r = res_bind (oldest_cut t i (brs 9) (brs 10) (brs 11)) (\<lambda>oldest. Err (OffsetOutOfRange t i oldest))"
        using assms chk Ok by (simp add: fetch_cut_def)
      show ?thesis
      proof (cases "oldest_cut t i (brs 9) (brs 10) (brs 11)")
        case (Ok oldest)
        then show ?thesis using moved [OF oor pos] r by simp
      next
        case (Err e)
        then show ?thesis using r oldest_cut_err [of t i "brs 9" "brs 10" "brs 11"] by (intro failed) auto
      next
        case (Panic x)
        then show ?thesis using r by (intro failed) simp_all
      qed
    next
      case False
      then have "?r = r"
        using assms chk Ok by (auto simp: fetch_cut_def split: res.splits option.splits rmq_error.splits)
      then show ?thesis using read pos False by blast
    qed
  next
    case (Err e)
    then show ?thesis
      using assms chk start_cut_facts(1) [of brs t i pos gid] by (intro failed) (auto simp: fetch_cut_def)
  next
    case (Panic x)
    then show ?thesis using assms chk by (intro failed) (auto simp: fetch_cut_def)
  qed
next
  case (Err e)
  then show ?thesis
    using assms by (intro failed) (auto simp: fetch_cut_def broker_check_shutdown_def split: if_splits)
next
  case (Panic x)
  then show ?thesis using assms by (intro failed) (auto simp: fetch_cut_def)
qed



section \<open>A consumer polling in looks\<close>

text \<open>As \<open>session\<close>, with the broker going on between any two looks of a poll.\<close>

inductive cut_session ::
    "('v in_memory, 'v) broker \<Rightarrow> rmq_consumer \<Rightarrow> 'v stored_message list
     \<Rightarrow> ('v in_memory, 'v) broker \<Rightarrow> rmq_consumer \<Rightarrow> bool"
  for br0 :: "('v in_memory, 'v) broker" and c0 :: rmq_consumer where
  cut_begin: "cut_session br0 c0 [] br0 c0"
| cut_broker: "cut_session br0 c0 ms br c \<Longrightarrow> broker_step br br' \<Longrightarrow> cut_session br0 c0 ms br' c"
| cut_consumer: "cut_session br0 c0 ms br c \<Longrightarrow> cn_position c' = cn_position c \<Longrightarrow>
    cut_session br0 c0 ms br c'"
| cut_poll: "cut_session br0 c0 ms (brs 0) c \<Longrightarrow> (\<And>j. broker_step\<^sup>*\<^sup>* (brs j) (brs (Suc j))) \<Longrightarrow>
    poll_once_cut brs c = (r, c') \<Longrightarrow>
    cut_session br0 c0 (ms @ received r) (brs (12 * length (tpl_elements (cn_assigned c)))) c'"

lemma steps_between:
  assumes "\<And>j. broker_step\<^sup>*\<^sup>* (brs j) (brs (Suc j))" and "a \<le> b"
  shows "broker_step\<^sup>*\<^sup>* (brs a) (brs b)"
  using assms(2)
proof (induction rule: dec_induct)
  case (step n)
  then show ?case using assms(1) by (meson rtranclp_trans)
qed simp

text \<open>What a fetch finds is true of the moment of its last look at the partition.\<close>

lemma tracked_cut_message:
  assumes tr: "tracked t i begun (brs 0) c ms" and steps: "\<And>j. broker_step\<^sup>*\<^sup>* (brs j) (brs (Suc j))"
    and mem: "\<And>j. mem_broker h (brs j)" and ord: "hash_order h"
    and f: "fetch_cut brs t' i' (map_of (cn_position c) (t', i')) gid = Ok (Some m)"
  shows "tracked t i begun (brs 12) (set_position (t', i') (wrap_i64 (msg_offset m + 1)) c) (ms @ [m])"
proof -
  note wfb = mem_brokerD(4) [OF mem]
  obtain off where off: "read_cut t' i' off (brs 6) (brs 7) (brs 8) = Ok (Some m)"
    "\<forall>x. map_of (cn_position c) (t', i') = Some x \<longrightarrow> off = x"
    using f by (cases rule: fetch_cut_cases) auto
  obtain p where p: "inmem_partition (bk_backend (brs 8)) t' i' = Some p" "read_one p off = Ok (Some m)"
    using read_cut_partition [OF off(1)] by blast
  have reach: "partition_reachable t' i' (make_partition_config (bk_backend (brs 8))) p"
    using wfb p(1) by (rule inmem_partition_reachable)
  have wf: "wf_partition p" using reach by (rule partition_reachable_wf)
  have r: "first_offset p \<le> off" "off < end_offset p"
    using p(2) by (auto simp: read_one_wf [OF wf] split: if_splits)
  then have m: "m \<in> set (buf_log (buffer p))" "msg_offset m = off" using read_one_hit [OF wf r] p(2) by auto
  have at: "tracked t i begun (brs 8) c ms"
    using tracked_broker [OF tr steps_between [of brs, OF steps] mem ord] by blast
  have "tracked t i begun (brs 8) (set_position (t', i') (wrap_i64 (msg_offset m + 1)) c) (ms @ [m])"
    using tracked_message [OF at wf p(1)] p(2) r m(2) off(2) wf_partition_message [OF wf m(1)]
      partition_reachable_config [OF reach] by auto
  then show ?thesis using tracked_broker [OF _ steps_between [of brs, OF steps] mem ord] by fastforce
qed

lemma tracked_cut_moved:
  assumes tr: "tracked t i begun (brs 0) c ms" and steps: "\<And>j. broker_step\<^sup>*\<^sup>* (brs j) (brs (Suc j))"
    and mem: "\<And>j. mem_broker h (brs j)" and ord: "hash_order h"
    and f: "fetch_cut brs t' i' (map_of (cn_position c) (t', i')) gid = Err (OffsetOutOfRange t'' i'' off)"
  shows "tracked t i begun (brs 12) (set_position (t', i') off c) ms"
proof -
  note wfb = mem_brokerD(4) [OF mem]
  obtain x y z at where x: "read_cut t' i' at (brs 6) (brs 7) (brs 8) = Err (OffsetOutOfRange x y z)"
    "\<forall>x. map_of (cn_position c) (t', i') = Some x \<longrightarrow> at = x"
    "oldest_cut t' i' (brs 9) (brs 10) (brs 11) = Ok off"
    using f by (cases rule: fetch_cut_cases) auto
  obtain p where p: "inmem_partition (bk_backend (brs 8)) t' i' = Some p"
    "read_one p at = Err (OffsetOutOfRange x y z)"
    using read_cut_partition [OF x(1)] by blast
  obtain q where q: "inmem_partition (bk_backend (brs 11)) t' i' = Some q"
    "off = (if first_offset q = end_offset q then 0 else first_offset q)"
    using oldest_cut_partition [OF x(3) wfb] by blast
  have wf: "wf_partition p" "wf_partition q" using inmem_partition_wf [OF wfb] p(1) q(1) by blast+
  have out: "at < first_offset p \<or> end_offset p < at"
    using p(2) by (auto simp: read_one_wf [OF wf(1)] split: if_splits)
  have tr_at: "tracked t i begun (brs j) c ms" for j
    using tracked_broker [OF tr steps_between [of brs, OF steps] mem ord] by blast
  have "first_offset p \<le> first_offset q"
  proof -
    have "evolves (bk_backend (brs 8)) (bk_backend (brs 11))"
      using broker_steps_evolve [OF steps_between [of brs, OF steps] mem ord, of 8 11] by simp
    then have "partition_step\<^sup>*\<^sup>* p q" using p(1) q(1) unfolding evolves_def by fastforce
    then show ?thesis using plog.run_low wf(1) by blast
  qed
  show ?thesis
  proof (cases "(t, i) = (t', i')")
    case False
    then have "map_of (cn_position (set_position (t', i') off c)) (t, i) = map_of (cn_position c) (t, i)" by auto
    with tr_at [of 12] show ?thesis by (blast intro: tracked_cong)
  next
    case True
    have "\<forall>x. map_of (cn_position c) (t', i') = Some x \<longrightarrow> x < first_offset q"
      using tr_at [of 8] p(1) out x(2) True \<open>first_offset p \<le> first_offset q\<close>
      by (fastforce simp: tracked_def caught_up_def)
    then have "tracked t i begun (brs 11) (set_position (t', i') off c) ms"
      using tracked_moved [OF tr_at [of 11] wf(2) q] by blast
    then show ?thesis using tracked_broker [OF _ steps_between [of brs, OF steps] mem ord, of t i begun 11 _ ms 12] by simp
  qed
qed

lemma tracked_poll_cut:
  assumes "poll_once_cut brs c = (r, c')" and "tracked t i begun (brs 0) c ms"
    and steps: "\<And>j. broker_step\<^sup>*\<^sup>* (brs j) (brs (Suc j))" and mem: "\<And>j. mem_broker h (brs j)"
    and ord: "hash_order h"
  shows "tracked t i begun (brs (12 * length (tpl_elements (cn_assigned c)))) c' (ms @ received r)"
proof (cases "length (tpl_elements (cn_assigned c)) = 0")
  case True
  then show ?thesis using assms(1,2) by (auto simp: poll_once_cut_def)
next
  case False
  let ?len = "length (tpl_elements (cn_assigned c))" and ?P = "\<lambda>k. tracked t i begun (brs (12 * k))"
  have scan: "scan_with (fetch_looks brs) (cn_poll_start c mod ?len) ?len 0 ?len c = (r, c')"
    using assms(1) False by (simp add: poll_once_cut_def Let_def)
  have going: "broker_step\<^sup>*\<^sup>* (brs (12 * k + j)) (brs (12 * k + Suc j))" for k j using steps by simp
  have "?P (0 + ?len) c' (ms @ received r)"
  proof (rule scan_with_inv [where P = ?P, OF scan refl])
    show "?P (Suc k) c ms" if "?P k c ms" for k c ms
      using tracked_broker [OF that steps_between [of brs, OF steps] mem ord, of "12 * Suc k"] by simp
    show "?P (Suc k) (set_position key off c) ms"
      if "?P k c ms" "fetch_looks brs k key (map_of (cn_position c) key) (cn_group_id c) = Err (OffsetOutOfRange t' i' off)"
      for k c ms key t' i' off
      using tracked_cut_moved [where brs = "\<lambda>j. brs (12 * k + j)" and t' = "fst key" and i' = "snd key", OF _ going mem ord]
        that by (simp add: fetch_looks_def add.commute)
    show "?P (Suc k) (set_position key (wrap_i64 (msg_offset m + 1)) c) (ms @ [m])"
      if "?P k c ms" "fetch_looks brs k key (map_of (cn_position c) key) (cn_group_id c) = Ok (Some m)" for k c ms key m
      using tracked_cut_message [where brs = "\<lambda>j. brs (12 * k + j)" and t' = "fst key" and i' = "snd key", OF _ going mem ord]
        that by (simp add: fetch_looks_def add.commute)
    show "?P k (c\<lparr>cn_poll_start := j\<rparr>) ms" if "?P k c ms" for k c ms j
      using that by (rule tracked_cong) simp_all
  qed (use assms(2) False in auto)
  then show ?thesis by simp
qed

lemma cut_session_tracked:
  assumes "cut_session br0 c0 ms br c" and "mem_broker h br0" and "hash_order h"
    and "tracked t i begun br0 c0 []"
  shows "mem_broker h br \<and> tracked t i begun br c ms"
  using assms
proof (induction rule: cut_session.induct)
  case (cut_broker ms br c br')
  then have mt: "mem_broker h br" "tracked t i begun br c ms" by blast+
  have "broker_step\<^sup>*\<^sup>* br br'" using cut_broker.hyps(2) by blast
  then show ?case using mem_broker_steps tracked_broker mt cut_broker.prems(2) by blast
next
  case (cut_consumer ms br c c')
  then show ?case using tracked_cong [of t i begun br c ms c' ms] by simp
next
  case (cut_poll ms brs c r c')
  then have mt: "mem_broker h (brs 0)" "tracked t i begun (brs 0) c ms" by blast+
  have mem: "mem_broker h (brs j)" for j
    using mem_broker_steps [OF steps_between [of brs, OF cut_poll.hyps(2), of 0 j] mt(1) cut_poll.prems(2)] by simp
  then show ?case
    using tracked_poll_cut [OF cut_poll.hyps(3) mt(2) cut_poll.hyps(2) mem cut_poll.prems(2)] by blast
qed simp


section \<open>Properties\<close>

text \<open>C3: In-order delivery holds look by look. Even when produces, evictions, new topics, joins, leaves,
  commits and a shutdown happen between any two looks a poll takes at the broker, the messages a
  consumer receives of a partition have strictly increasing offsets, so none comes twice; each is
  the message the partition holds at its offset or has been evicted since; and every offset from
  where the consumer was positioned, or from any message it received, up to its position now was
  received or has been evicted. A low watermark read after the fetch that failed, when more has
  been evicted, skips nothing that is still there.\<close>

theorem delivery_between_looks:
  assumes "mem_broker h br0" and "hash_order h" and "cut_session br0 c0 ms br c"
    and "\<And>x. map_of (cn_position c0) (t, i) = Some x \<Longrightarrow>
      \<exists>p. inmem_partition (bk_backend br0) t i = Some p \<and> x \<le> end_offset p"
    and "got = of_partition t i ms"
  shows "(case map_of (cn_position c) (t, i) of None \<Rightarrow> got = []
    | Some pos \<Rightarrow> \<exists>p. inmem_partition (bk_backend br) t i = Some p \<and> pos \<le> end_offset p \<and>
        sorted_wrt (<) (map msg_offset got) \<and>
        (\<forall>m \<in> set got. msg_offset m < first_offset p \<or>
           msg_offset m < pos \<and> read_one p (msg_offset m) = Ok (Some m)) \<and>
        (\<forall>from off. map_of (cn_position c0) (t, i) = Some from \<or> from \<in> msg_offset ` set got \<longrightarrow>
           from \<le> off \<longrightarrow> off < pos \<longrightarrow> off \<in> msg_offset ` set got \<or> off < first_offset p))"
proof -
  have "tracked t i (map_of (cn_position c0) (t, i)) br0 c0 []"
    using assms(4) by (auto simp: tracked_def of_partition_def caught_up_def split: option.split)
  then have "tracked t i (map_of (cn_position c0) (t, i)) br c ms"
    using cut_session_tracked [OF assms(3,1,2)] by blast
  then show ?thesis by (rule tracked_delivery [OF _ assms(5)])
qed

theorem delivery_between_looks_witness:
  "\<exists>ms c. cut_session demo_produced demo_consumer ms demo_produced c \<and>
     ms = received (fst (poll_once_cut (\<lambda>_. demo_produced) demo_consumer)) \<and>
     sorted_wrt (<) (map msg_offset (of_partition ''t'' 1 ms))"
proof -
  obtain r c where p: "poll_once_cut (\<lambda>_. demo_produced) demo_consumer = (r, c)" by fastforce
  have s: "cut_session demo_produced demo_consumer (received r) demo_produced c"
    using cut_poll [OF cut_begin [of "(\<lambda>_. demo_produced) 0" demo_consumer] _ p] by simp
  have "sorted_wrt (<) (map msg_offset (of_partition ''t'' 1 (received r)))"
    using delivery_between_looks [OF demo_produced_mem hash_order_remdups s, of "''t''" 1, OF _ refl]
    by (auto simp: demo_consumer_def fresh_consumer_def split: option.splits)
  then show ?thesis using s p by auto
qed

end
