(* ===== verification/Typed.thy ===== *)
theory Typed
  imports Provenance
begin

text \<open>
  \<open>src/typed.rs\<close>: producers and consumers of Rust objects, which the broker keeps as they are. The
  type parameters \<open>P\<close> and \<open>K\<close> of payloads and keys are named by strings, as in \<open>'v dyn_any\<close>; the
  consumer is given them when it reads a message. The broker of a producer is an argument.
\<close>

section \<open>Messages\<close>

record 'v typed_message =
  tm_inner :: "'v stored_message"

definition typed_message_payload :: "string \<Rightarrow> 'v typed_message \<Rightarrow> 'v res" where
  "typed_message_payload ty m =
     (case typed_payload_ref ty (tm_inner m) of
        Some v \<Rightarrow> Ok v
      | None \<Rightarrow> Panic (ExpectNone ''typed payload type mismatch''))"

definition typed_message_key :: "string \<Rightarrow> 'v typed_message \<Rightarrow> 'v option" where
  "typed_message_key ty m = typed_key_ref ty (tm_inner m)"

definition typed_message_topic :: "'v typed_message \<Rightarrow> string" where
  "typed_message_topic m = msg_topic (tm_inner m)"

definition typed_message_partition :: "'v typed_message \<Rightarrow> i32" where
  "typed_message_partition m = msg_partition (tm_inner m)"

definition typed_message_offset :: "'v typed_message \<Rightarrow> i64" where
  "typed_message_offset m = msg_offset (tm_inner m)"

definition typed_message_timestamp :: "'v typed_message \<Rightarrow> i64" where
  "typed_message_timestamp m = msg_timestamp (tm_inner m)"

definition typed_message_headers :: "'v typed_message \<Rightarrow> owned_headers option" where
  "typed_message_headers m = msg_headers (tm_inner m)"


section \<open>The producer\<close>

definition typed_send ::
    "string \<Rightarrow> string \<Rightarrow> clock \<Rightarrow> string \<Rightarrow> 'v \<Rightarrow> 'v option \<Rightarrow> ('b, 'v) broker
     \<Rightarrow> record_metadata res \<times> ('b, 'v) broker" where
  "typed_send pty kty c topic payload key br =
     broker_produce_typed c topic None (DynAny pty payload) (map_option (DynAny kty) key) None None br"

definition typed_send_with_partition ::
    "string \<Rightarrow> string \<Rightarrow> clock \<Rightarrow> string \<Rightarrow> i32 \<Rightarrow> 'v \<Rightarrow> 'v option \<Rightarrow> ('b, 'v) broker
     \<Rightarrow> record_metadata res \<times> ('b, 'v) broker" where
  "typed_send_with_partition pty kty c topic part payload key br =
     broker_produce_typed c topic (Some part) (DynAny pty payload) (map_option (DynAny kty) key) None None br"

definition typed_send_with_headers ::
    "string \<Rightarrow> string \<Rightarrow> clock \<Rightarrow> string \<Rightarrow> 'v \<Rightarrow> 'v option \<Rightarrow> owned_headers \<Rightarrow> ('b, 'v) broker
     \<Rightarrow> record_metadata res \<times> ('b, 'v) broker" where
  "typed_send_with_headers pty kty c topic payload key headers br =
     broker_produce_typed c topic None (DynAny pty payload) (map_option (DynAny kty) key)
       (Some headers) None br"


section \<open>The consumer\<close>

record typed_consumer =
  tc_inner :: rmq_consumer

definition typed_consumer_clone :: "nat option \<Rightarrow> 64 word \<Rightarrow> typed_consumer \<Rightarrow> typed_consumer" where
  "typed_consumer_clone nanos counter tc =
     \<lparr>tc_inner = consumer_clone nanos counter (tc_inner tc)\<rparr>"

text \<open>What \<open>poll\<close> makes of the inner consumer's answer.\<close>

definition typed_result :: "'v borrowed_message res option \<Rightarrow> 'v typed_message res option" where
  "typed_result r =
     (case r of
        Some (Ok b) \<Rightarrow>
          (let stored = bm_inner b
           in if has_typed_payload stored then Some (Ok \<lparr>tm_inner = stored\<rparr>)
              else Some (Err (Custom ''message has raw bytes payload, not typed'')))
      | Some (Err e) \<Rightarrow> Some (Err e)
      | Some (Panic x) \<Rightarrow> Some (Panic x)
      | None \<Rightarrow> None)"

definition typed_poll ::
    "nat \<Rightarrow> (nat \<Rightarrow> nat \<Rightarrow> ('b, 'v) broker) \<Rightarrow> nat \<Rightarrow> (nat \<Rightarrow> nat) \<Rightarrow> nat \<Rightarrow> typed_consumer
     \<Rightarrow> ('v typed_message res option \<times> typed_consumer) option" where
  "typed_poll fuel brs begun now timeout tc =
     map_option (\<lambda>(r, c). (typed_result r, tc\<lparr>tc_inner := c\<rparr>))
       (poll fuel brs begun now timeout (tc_inner tc))"

text \<open>The other operations are the inner consumer's.\<close>

definition typed_subscribe ::
    "string list \<Rightarrow> typed_consumer \<Rightarrow> ('b, 'v) broker \<Rightarrow> unit res \<times> typed_consumer \<times> ('b, 'v) broker" where
  "typed_subscribe topics tc br =
     (case subscribe topics (tc_inner tc) br of (r, c, br') \<Rightarrow> (r, tc\<lparr>tc_inner := c\<rparr>, br'))"

definition typed_unsubscribe ::
    "typed_consumer \<Rightarrow> ('b, 'v) broker \<Rightarrow> unit res \<times> typed_consumer \<times> ('b, 'v) broker" where
  "typed_unsubscribe tc br =
     (case unsubscribe (tc_inner tc) br of (r, c, br') \<Rightarrow> (r, tc\<lparr>tc_inner := c\<rparr>, br'))"

definition typed_assign :: "topic_partition_list \<Rightarrow> typed_consumer \<Rightarrow> typed_consumer" where
  "typed_assign tpl tc = tc\<lparr>tc_inner := consumer_assign tpl (tc_inner tc)\<rparr>"

definition typed_assignment :: "typed_consumer \<Rightarrow> topic_partition_list" where
  "typed_assignment tc = consumer_assignment (tc_inner tc)"

definition typed_seek ::
    "string \<Rightarrow> i32 \<Rightarrow> offset \<Rightarrow> ('b, 'v) broker \<Rightarrow> typed_consumer \<Rightarrow> unit res \<times> typed_consumer" where
  "typed_seek topic p off br tc =
     (case seek topic p off br (tc_inner tc) of (r, c) \<Rightarrow> (r, tc\<lparr>tc_inner := c\<rparr>))"

definition typed_commit ::
    "topic_partition_list \<Rightarrow> commit_mode \<Rightarrow> typed_consumer \<Rightarrow> ('b, 'v) broker
     \<Rightarrow> unit res \<times> typed_consumer \<times> ('b, 'v) broker" where
  "typed_commit tpl mode tc br =
     (case commit tpl mode (tc_inner tc) br of (r, c, br') \<Rightarrow> (r, tc\<lparr>tc_inner := c\<rparr>, br'))"



section \<open>Properties\<close>

text \<open>The type of the payload that a send stores, if it stores an object.\<close>

definition sending_type :: "'v sending \<Rightarrow> string option" where
  "sending_type ev = (case ev of SendBytes _ _ _ _ \<Rightarrow> None | SendTyped _ tp _ _ \<Rightarrow> Some (any_type tp))"

text \<open>The three sends are recorded as what they are.\<close>

lemma typed_send_run:
  assumes "broker_run br0 evs br" and "broker_room br"
  shows "broker_run br0 (evs @ [SendTyped topic (DynAny pty v) (map_option (DynAny kty) k) None])
      (snd (typed_send pty kty c topic v k br))"
    and "broker_run br0 (evs @ [SendTyped topic (DynAny pty v) (map_option (DynAny kty) k) None])
      (snd (typed_send_with_partition pty kty c topic i v k br))"
    and "broker_run br0 (evs @ [SendTyped topic (DynAny pty v) (map_option (DynAny kty) k) (Some hs)])
      (snd (typed_send_with_headers pty kty c topic v k hs br))"
  using run_send_typed [OF assms]
  by (simp_all add: typed_send_def typed_send_with_partition_def typed_send_with_headers_def)

lemma typed_payload_carried:
  assumes "carries ev m" and "sending_type ev = Some ty"
  shows "has_typed_payload m \<and> (\<exists>v. typed_payload_ref ty m = Some v \<and>
    (\<exists>tk hs. ev = SendTyped (msg_topic m) (DynAny ty v) tk hs))"
proof (cases ev)
  case (SendTyped t tp tk hs)
  then show ?thesis
    using assms by (cases tp) (auto simp: sending_type_def has_typed_payload_def typed_payload_ref_def downcast_ref_def)
qed (use assms in \<open>simp add: sending_type_def\<close>)

text \<open>C13: Well-typed topics do not go wrong. If every send so far on each of a consumer's topics was
  typed, with one payload type \<open>\<Gamma> t\<close> per topic, then whatever else happens on the broker, a typed
  poll answers with nothing, with \<open>BrokerShutdown\<close>, or with a message whose \<open>payload()\<close> at its
  topic's type does not panic and is an object sent on that topic with that type.\<close>

theorem typed_payload_safe:
  assumes "broker_new h config = Ok br0 \<or> broker_with_partitioner h config pt = Ok br0"
    and "hash_order h" and "\<And>k i. broker_run br0 (evs k i) (brs k i)"
    and "\<And>k i ev. ev \<in> set (evs k i) \<Longrightarrow>
      sending_topic ev \<in> fst ` set (tpl_keys (typed_assignment tc)) \<Longrightarrow>
      sending_type ev = Some (\<Gamma> (sending_topic ev))"
    and "typed_poll fuel brs begun now timeout tc = Some (Some r, tc')"
  shows "r = Err BrokerShutdown \<or>
    (\<exists>m v. r = Ok m \<and> typed_message_payload (\<Gamma> (typed_message_topic m)) m = Ok v \<and>
       (\<exists>k i tk hs. SendTyped (typed_message_topic m) (DynAny (\<Gamma> (typed_message_topic m)) v) tk hs
          \<in> set (evs k i)))"
proof -
  have mem0: "mem_broker h br0" using assms(1,2) by (rule new_broker_mem)
  have empty: "im_topics (bk_backend br0) = []" using assms(1) by (rule new_broker_empty)
  have mem: "mem_broker h (brs k i)" for k i
    using broker_run_stored [OF assms(3) mem0 assms(2) empty] by blast
  obtain r0 c' where r0: "poll fuel brs begun now timeout (tc_inner tc) = Some (Some r0, c')"
    "typed_result (Some r0) = Some r"
    using assms(5) by (auto simp: typed_poll_def typed_result_def split: option.splits)
  from poll_error_shutdown [OF r0(1) mem] show ?thesis
  proof
    assume "\<exists>b. r0 = Ok b"
    then obtain b where b: "r0 = Ok b" by blast
    then obtain k i ev where ev: "ev \<in> set (evs k i)" "carries ev (bm_inner b)"
      and t: "msg_topic (bm_inner b) \<in> fst ` set (tpl_keys (typed_assignment tc))"
      using poll_fetched [OF _ assms(3) mem0 assms(2) empty] r0(1)
      by (force simp: typed_assignment_def consumer_assignment_def)
    have "sending_topic ev = msg_topic (bm_inner b)" using ev(2) by (cases ev) simp_all
    then have "sending_type ev = Some (\<Gamma> (msg_topic (bm_inner b)))" using assms(4) [OF ev(1)] t by simp
    from typed_payload_carried [OF ev(2) this] ev(1) r0(2) b show ?thesis
      by (auto simp: typed_result_def typed_message_payload_def typed_message_topic_def)
  qed (use r0(2) in \<open>simp add: typed_result_def\<close>)
qed

lemma typed_poll_at_once:
  assumes "fst (poll_once (brs 0) (tc_inner tc)) = Some (Ok (borrowed_new m))" and "has_typed_payload m"
  shows "\<exists>tc'. typed_poll 1 brs begun now timeout tc = Some (Some (Ok \<lparr>tm_inner = m\<rparr>), tc')"
proof -
  obtain c' where "poll 1 brs begun now timeout (tc_inner tc) = Some (Some (Ok (borrowed_new m)), c')"
    using poll_at_once [where n = 0 and brs = brs and begun = begun and now = now and timeout = timeout,
        OF assms(1)] by auto
  then show ?thesis
    using assms(2) by (simp add: typed_poll_def typed_result_def borrowed_new_def)
qed

abbreviation demo_typed :: "(nat in_memory, nat) broker" where
  "demo_typed \<equiv> snd (typed_send_with_partition ''u32'' ''str'' demo_clock ''t'' 1 42 (Some 3) demo_broker)"

abbreviation demo_typed_event :: "nat sending" where
  "demo_typed_event \<equiv> SendTyped ''t'' (DynAny ''u32'' 42) (Some (DynAny ''str'' 3)) None"

lemma demo_typed_run: "broker_run demo_broker [demo_typed_event] demo_typed"
  using typed_send_run(2) [OF run_begin demo_room, where v = 42 and k = "Some 3"] by simp

lemma demo_typed_polled:
  "fst (poll_once (\<lambda>_. demo_typed) waiting_consumer) =
     Some (Ok (borrowed_new (stored_new_typed (DynAny ''u32'' 42) (Some (DynAny ''str'' 3)) ''t'' 1 0
       (unix_millis demo_clock) None (mono demo_clock 0))))"
  using typed_produced_then_polled(2) [OF demo_broker_mem, where n = 2 and topic = "''t''"
      and part = "Some 1" and q = 1 and off = 0 and cap = 10 and clk = demo_clock
      and tp = "DynAny ''u32'' 42" and tk = "Some (DynAny ''str'' 3)" and hs = None and ts = None
      and c = waiting_consumer, OF _ _ _ _ _ _ _ _ _ _ prod.collapse [symmetric] refl]
  by (simp add: routed_def make_partition_config_def demo_broker_config_def typed_send_with_partition_def)

abbreviation demo_typed_consumer :: typed_consumer where
  "demo_typed_consumer \<equiv> \<lparr>tc_inner = waiting_consumer\<rparr>"

lemma demo_typed_poll:
  "\<exists>m tc'. typed_poll 1 (\<lambda>_ _. demo_typed) 0 (\<lambda>_. 0) 0 demo_typed_consumer = Some (Some (Ok m), tc') \<and>
     m = \<lparr>tm_inner = stored_new_typed (DynAny ''u32'' 42) (Some (DynAny ''str'' 3)) ''t'' 1 0
       (unix_millis demo_clock) None (mono demo_clock 0)\<rparr>"
  using typed_poll_at_once [where brs = "\<lambda>_ _. demo_typed" and tc = demo_typed_consumer] demo_typed_polled
  by simp

theorem typed_payload_safe_witness:
  "\<exists>m tc'. typed_poll 1 (\<lambda>_ _. demo_typed) 0 (\<lambda>_. 0) 0 demo_typed_consumer = Some (Some (Ok m), tc') \<and>
     (\<exists>v. typed_message_payload ''u32'' m = Ok v)"
proof -
  obtain m tc' where p:
    "typed_poll 1 (\<lambda>_ _. demo_typed) 0 (\<lambda>_. 0) 0 demo_typed_consumer = Some (Some (Ok m), tc')"
    using demo_typed_poll by blast
  from typed_payload_safe [where evs = "\<lambda>_ _. [demo_typed_event]" and \<Gamma> = "\<lambda>_. ''u32''",
      OF disjI1 [OF demo_broker_new] hash_order_remdups demo_typed_run _ p]
  show ?thesis using p by (auto simp: sending_type_def)
qed

text \<open>C27: An object sent is the object received. On an open in-memory broker without retention
  limits and with a buffer capacity other than one, after a typed send to a topic or to one of
  its partitions, with or without headers, a typed consumer that stands at the end of the
  partition gets a message with the same payload and key objects at the types they were sent
  with, and the same headers. Reading the payload at any other type panics, and the key at any
  other type is absent.\<close>

theorem typed_send_then_poll:
  assumes "mem_broker h br" and "\<not> bk_shutdown br"
    and "n = seen_count (inmem_count (bk_backend br) topic) br" and "n < 2 ^ 31"
    and "q = routed topic None n part (bk_partitioner br)" and "0 \<le> q" and "q < n"
    and "off = (case inmem_partition (bk_backend br) topic q of Some p \<Rightarrow> end_offset p | None \<Rightarrow> 0)"
    and "off + 1 < 2 ^ 63"
    and "make_partition_config (bk_backend br) =
      \<lparr>pc_max_capacity = cap, pc_retention_ms = None, pc_retention_capacity = None\<rparr>" and "cap \<noteq> 1"
    and "(r, br') = (case (part, headers) of
        (None, None) \<Rightarrow> typed_send pty kty clk topic v k br
      | (None, Some hs) \<Rightarrow> typed_send_with_headers pty kty clk topic v k hs br
      | (Some i, _) \<Rightarrow> typed_send_with_partition pty kty clk topic i v k br)"
    and "tpl_keys (cn_assigned (tc_inner tc)) = [(topic, q)]" and "(topic, q) \<notin> set (cn_paused (tc_inner tc))"
    and "map_of (cn_position (tc_inner tc)) (topic, q) = Some off"
  shows "is_ok r \<and>
    (\<exists>m tc'. typed_poll 1 (\<lambda>_ _. br') begun now timeout tc = Some (Some (Ok m), tc') \<and>
       typed_message_payload pty m = Ok v \<and> typed_message_key kty m = k \<and>
       typed_message_headers m = (if part = None then headers else None) \<and>
       typed_message_topic m = topic \<and> typed_message_partition m = q \<and>
       typed_message_offset m = off \<and> typed_message_timestamp m = unix_millis clk \<and>
       (\<forall>ty. ty \<noteq> pty \<longrightarrow> typed_message_payload ty m = Panic (ExpectNone ''typed payload type mismatch'')) \<and>
       (\<forall>ty. ty \<noteq> kty \<longrightarrow> typed_message_key ty m = None))"
proof -
  let ?hs = "if part = None then headers else None"
  let ?m = "stored_new_typed (DynAny pty v) (map_option (DynAny kty) k) topic q off (unix_millis clk) ?hs (mono clk 0)"
  have "broker_produce_typed clk topic part (DynAny pty v) (map_option (DynAny kty) k) ?hs None br = (r, br')"
    using assms(12) by (cases part; cases headers)
      (simp_all add: typed_send_def typed_send_with_headers_def typed_send_with_partition_def)
  note run = typed_produced_then_polled [OF assms(1-11) this refl assms(13-15)]
  obtain tc' where p: "typed_poll 1 (\<lambda>_ _. br') begun now timeout tc = Some (Some (Ok \<lparr>tm_inner = ?m\<rparr>), tc')"
    using typed_poll_at_once [where brs = "\<lambda>_ _. br'" and tc = tc and m = ?m and begun = begun
        and now = now and timeout = timeout] run(2) by auto
  have "typed_message_key ty \<lparr>tm_inner = ?m\<rparr> = (if ty = kty then k else None)" for ty
    by (cases k) (simp_all add: typed_message_key_def typed_key_ref_def downcast_ref_def stored_new_typed_def)
  moreover have "typed_message_payload ty \<lparr>tm_inner = ?m\<rparr> =
      (if ty = pty then Ok v else Panic (ExpectNone ''typed payload type mismatch''))" for ty
    by (simp add: typed_message_payload_def typed_payload_ref_def downcast_ref_def)
  moreover have "typed_message_headers \<lparr>tm_inner = ?m\<rparr> = ?hs" "typed_message_topic \<lparr>tm_inner = ?m\<rparr> = topic"
    "typed_message_partition \<lparr>tm_inner = ?m\<rparr> = q" "typed_message_offset \<lparr>tm_inner = ?m\<rparr> = off"
    "typed_message_timestamp \<lparr>tm_inner = ?m\<rparr> = unix_millis clk"
    by (simp_all add: typed_message_headers_def typed_message_topic_def typed_message_partition_def
        typed_message_offset_def typed_message_timestamp_def stored_new_typed_def)
  ultimately show ?thesis using p run(1) by auto
qed

theorem typed_send_then_poll_witness:
  "\<exists>m tc'. typed_poll 1 (\<lambda>_ _. demo_typed) 0 (\<lambda>_. 0) 0 demo_typed_consumer = Some (Some (Ok m), tc') \<and>
     typed_message_payload ''u32'' m = Ok 42 \<and> typed_message_key ''str'' m = Some 3 \<and>
     typed_message_payload ''String'' m = Panic (ExpectNone ''typed payload type mismatch'')"
  using typed_send_then_poll [OF demo_broker_mem, where n = 2 and topic = "''t''" and part = "Some 1"
      and q = 1 and off = 0 and cap = 10 and clk = demo_clock and pty = "''u32''" and kty = "''str''"
      and v = 42 and k = "Some 3" and headers = None and tc = demo_typed_consumer
      and begun = 0 and now = "\<lambda>_. 0" and timeout = 0, OF _ _ _ _ _ _ _ _ _ _
      prod.collapse [THEN trans]]
  by (auto simp: routed_def make_partition_config_def demo_broker_config_def)

end
