(* ===== verification/Stream_Consumer.thy ===== *)
theory Stream_Consumer
  imports Provenance Producers
begin

text \<open>
  \<open>src/stream_consumer.rs\<close>, with the delegation macro and the provided methods of the trait in
  \<open>src/consumer.rs\<close>: the asynchronous consumer on top of the polling one. A future is modelled by
  what its code does between two suspension points; at a suspension point other tasks run, so
  the broker of the next iteration is another one. What an iteration waits for is recorded.

  \<open>tokio::sync::Notify\<close> is code of another crate. When a \<open>notified()\<close> future that is created at
  time \<open>t\<close> completes is the parameter \<open>notified\<close> of the two waits below, in milliseconds.
\<close>

record stream_consumer =
  sc_inner :: rmq_consumer

definition stream_consumer_of :: "rmq_consumer \<Rightarrow> stream_consumer" where
  "stream_consumer_of c = \<lparr>sc_inner = c\<rparr>"

definition on_inner :: "('a \<times> rmq_consumer) \<Rightarrow> stream_consumer \<Rightarrow> 'a \<times> stream_consumer" where
  "on_inner x sc = (case x of (r, c) \<Rightarrow> (r, sc\<lparr>sc_inner := c\<rparr>))"


section \<open>The trait methods\<close>

definition consumer_metadata :: "string option \<Rightarrow> ('b, 'v) broker \<Rightarrow> metadata res" where
  "consumer_metadata topic br = broker_metadata topic br"

definition consumer_watermarks :: "string \<Rightarrow> i32 \<Rightarrow> ('b, 'v) broker \<Rightarrow> (i64 \<times> i64) res" where
  "consumer_watermarks topic p br = broker_watermarks topic p br"

definition stream_subscribe ::
    "string list \<Rightarrow> stream_consumer \<Rightarrow> ('b, 'v) broker \<Rightarrow> unit res \<times> stream_consumer \<times> ('b, 'v) broker" where
  "stream_subscribe topics sc br =
     (case subscribe topics (sc_inner sc) br of (r, c, br') \<Rightarrow> (r, sc\<lparr>sc_inner := c\<rparr>, br'))"

definition stream_unsubscribe ::
    "stream_consumer \<Rightarrow> ('b, 'v) broker \<Rightarrow> unit res \<times> stream_consumer \<times> ('b, 'v) broker" where
  "stream_unsubscribe sc br =
     (case unsubscribe (sc_inner sc) br of (r, c, br') \<Rightarrow> (r, sc\<lparr>sc_inner := c\<rparr>, br'))"

definition stream_subscription :: "stream_consumer \<Rightarrow> topic_partition_list" where
  "stream_subscription sc = subscription (sc_inner sc)"

definition stream_assign :: "topic_partition_list \<Rightarrow> stream_consumer \<Rightarrow> stream_consumer" where
  "stream_assign tpl sc = sc\<lparr>sc_inner := consumer_assign tpl (sc_inner sc)\<rparr>"

definition stream_assignment :: "stream_consumer \<Rightarrow> topic_partition_list" where
  "stream_assignment sc = consumer_assignment (sc_inner sc)"

definition stream_seek ::
    "string \<Rightarrow> i32 \<Rightarrow> offset \<Rightarrow> ('b, 'v) broker \<Rightarrow> stream_consumer \<Rightarrow> unit res \<times> stream_consumer" where
  "stream_seek topic p off br sc = on_inner (seek topic p off br (sc_inner sc)) sc"

definition stream_commit ::
    "topic_partition_list \<Rightarrow> commit_mode \<Rightarrow> stream_consumer \<Rightarrow> ('b, 'v) broker
     \<Rightarrow> unit res \<times> stream_consumer \<times> ('b, 'v) broker" where
  "stream_commit tpl mode sc br =
     (case commit tpl mode (sc_inner sc) br of (r, c, br') \<Rightarrow> (r, sc\<lparr>sc_inner := c\<rparr>, br'))"

definition stream_store_offset :: "string \<Rightarrow> i32 \<Rightarrow> i64 \<Rightarrow> stream_consumer \<Rightarrow> stream_consumer" where
  "stream_store_offset topic p off sc = sc\<lparr>sc_inner := store_offset topic p off (sc_inner sc)\<rparr>"

definition stream_committed :: "stream_consumer \<Rightarrow> ('b, 'v) broker \<Rightarrow> topic_partition_list res" where
  "stream_committed sc br = committed (sc_inner sc) br"

definition stream_position :: "stream_consumer \<Rightarrow> topic_partition_list" where
  "stream_position sc = consumer_position (sc_inner sc)"

definition stream_pause :: "topic_partition_list \<Rightarrow> stream_consumer \<Rightarrow> stream_consumer" where
  "stream_pause tpl sc = sc\<lparr>sc_inner := pause tpl (sc_inner sc)\<rparr>"

definition stream_resume :: "topic_partition_list \<Rightarrow> stream_consumer \<Rightarrow> stream_consumer" where
  "stream_resume tpl sc = sc\<lparr>sc_inner := resume tpl (sc_inner sc)\<rparr>"


section \<open>Receiving\<close>

text \<open>The suspension points of \<open>recv\<close>: giving way to other tasks, or waiting for all the handles one
  after the other, for 30 seconds at most.\<close>

datatype recv_pause = Yielded | Waited "notify_handle list"

text \<open>
  The loop of \<open>recv\<close> at its iteration \<open>j\<close>. \<open>brs j k i\<close> is the broker at fetch \<open>i\<close> of attempt \<open>k\<close> of the
  poll in that iteration, \<open>br j\<close> the broker asked for the handles, \<open>begun j\<close> and \<open>now j\<close> the clock of
  the poll, whose timeout is zero. The first two arguments bound the attempts of a poll and the
  iterations: \<open>None\<close> when they do not suffice.
\<close>

fun recv_loop ::
    "nat \<Rightarrow> nat \<Rightarrow> (nat \<Rightarrow> nat \<Rightarrow> nat \<Rightarrow> ('b, 'v) broker) \<Rightarrow> (nat \<Rightarrow> ('b, 'v) broker)
     \<Rightarrow> (nat \<Rightarrow> nat) \<Rightarrow> (nat \<Rightarrow> nat \<Rightarrow> nat) \<Rightarrow> nat \<Rightarrow> rmq_consumer
     \<Rightarrow> (owned_message res \<times> recv_pause list \<times> rmq_consumer) option" where
  "recv_loop attempts 0 brs br begun now j c = None"
| "recv_loop attempts (Suc fuel) brs br begun now j c =
     (case poll attempts (brs j) (begun j) (now j) 0 c of
        None \<Rightarrow> None
      | Some (Some r, c') \<Rightarrow> Some (res_map borrowed_detach r, [], c')
      | Some (None, c') \<Rightarrow>
          (let topics = cn_subscribed c';
               again = (\<lambda>pause. map_option (\<lambda>(r, pauses, c). (r, pause # pauses, c))
                          (recv_loop attempts fuel brs br begun now (Suc j) c'))
           in if topics = [] then again Yielded
              else (case broker_get_partition_notifies topics (br j) of
                      Ok notifies \<Rightarrow> (if notifies = [] then again Yielded else again (Waited notifies))
                    | Err e \<Rightarrow> Some (Err e, [], c')
                    | Panic x \<Rightarrow> Some (Panic x, [], c'))))"

definition stream_recv ::
    "nat \<Rightarrow> nat \<Rightarrow> (nat \<Rightarrow> nat \<Rightarrow> nat \<Rightarrow> ('b, 'v) broker) \<Rightarrow> (nat \<Rightarrow> ('b, 'v) broker)
     \<Rightarrow> (nat \<Rightarrow> nat) \<Rightarrow> (nat \<Rightarrow> nat \<Rightarrow> nat) \<Rightarrow> stream_consumer
     \<Rightarrow> (owned_message res \<times> recv_pause list \<times> stream_consumer) option" where
  "stream_recv attempts fuel brs br begun now sc =
     map_option (\<lambda>(r, pauses, c). (r, pauses, sc\<lparr>sc_inner := c\<rparr>))
       (recv_loop attempts fuel brs br begun now 0 (sc_inner sc))"

text \<open>How long a wait takes: \<open>for notify in &notifies { notify.notified().await }\<close> against a timeout.\<close>

fun await_all :: "(notify_handle \<Rightarrow> nat \<Rightarrow> nat option) \<Rightarrow> notify_handle list \<Rightarrow> nat \<Rightarrow> nat option" where
  "await_all notified [] t = Some t"
| "await_all notified (n # ns) t =
     (case notified n t of Some t' \<Rightarrow> await_all notified ns t' | None \<Rightarrow> None)"

definition select_timeout :: "nat option \<Rightarrow> nat \<Rightarrow> nat" where
  "select_timeout done deadline = (case done of Some t \<Rightarrow> min t deadline | None \<Rightarrow> deadline)"

definition recv_wakes :: "(notify_handle \<Rightarrow> nat \<Rightarrow> nat option) \<Rightarrow> notify_handle list \<Rightarrow> nat \<Rightarrow> nat" where
  "recv_wakes notified notifies t = select_timeout (await_all notified notifies t) (t + 30000)"


section \<open>The stream adapter\<close>

datatype stream_effect =
    WakeByRef
  | NotifyOne notify_handle
  | SpawnWaker "notify_handle list"

text \<open>\<open>poll_next\<close> with its effects in order. \<open>brs 0\<close> and \<open>brs 1\<close> are the brokers during its two polls.\<close>

definition poll_next ::
    "nat \<Rightarrow> (nat \<Rightarrow> nat \<Rightarrow> nat \<Rightarrow> ('b, 'v) broker) \<Rightarrow> ('b, 'v) broker \<Rightarrow> (nat \<Rightarrow> nat) \<Rightarrow> (nat \<Rightarrow> nat \<Rightarrow> nat)
     \<Rightarrow> rmq_consumer \<Rightarrow> (owned_message res option task_poll \<times> stream_effect list \<times> rmq_consumer) option" where
  "poll_next attempts brs br begun now c =
     (case poll attempts (brs 0) (begun 0) (now 0) 0 c of
        None \<Rightarrow> None
      | Some (Some r, c) \<Rightarrow> Some (Ready (Some (res_map borrowed_detach r)), [], c)
      | Some (None, c) \<Rightarrow>
          (let topics = cn_subscribed c
           in if topics = [] then Some (Pending, [WakeByRef], c)
              else (case broker_get_partition_notifies topics br of
                      Panic x \<Rightarrow> Some (Ready (Some (Panic x)), [], c)
                    | Err e \<Rightarrow> Some (Pending, [WakeByRef], c)
                    | Ok notifies \<Rightarrow>
                        if notifies = [] then Some (Pending, [WakeByRef], c)
                        else
                          (let effects = map NotifyOne notifies
                           in case poll attempts (brs 1) (begun 1) (now 1) 0 c of
                                None \<Rightarrow> None
                              | Some (Some r, c) \<Rightarrow> Some (Ready (Some (res_map borrowed_detach r)), effects, c)
                              | Some (None, c) \<Rightarrow> Some (Pending, effects @ [SpawnWaker notifies], c)))))"

text \<open>When the spawned task wakes the stream's task.\<close>

definition waker_wakes :: "(notify_handle \<Rightarrow> nat \<Rightarrow> nat option) \<Rightarrow> notify_handle list \<Rightarrow> nat \<Rightarrow> nat" where
  "waker_wakes notified notifies t = select_timeout (await_all notified notifies t) (t + 100)"


section \<open>Sessions\<close>

lemma session_steps:
  assumes "broker_step\<^sup>*\<^sup>* br br'" and "session br0 c0 ms br c"
  shows "session br0 c0 ms br' c"
  using assms by (induction rule: rtranclp_induct) (auto intro: sess_broker)

text \<open>A poll is a part of a session, and so is a whole receive.\<close>

lemma session_poll_loop:
  assumes "poll_loop fuel brs now deadline k c = Some (r, c')" and "session br0 c0 ms (brs k 0) c"
    and "\<And>k i. broker_step\<^sup>*\<^sup>* (brs k i) (brs k (Suc i))"
    and "\<And>k i. broker_step\<^sup>*\<^sup>* (brs k i) (brs (Suc k) 0)"
  shows "\<exists>k' i. session br0 c0 (ms @ received r) (brs k' i) c'"
  using assms(1,2)
proof (induction fuel arbitrary: k c)
  case (Suc fuel)
  let ?n = "length (tpl_elements (cn_assigned c))"
  obtain r1 c1 where p: "poll_once (brs k) c = (r1, c1)" by fastforce
  have s1: "session br0 c0 (ms @ received r1) (brs k ?n) c1"
    by (rule sess_poll [OF Suc.prems(2) assms(3) p])
  show ?case
  proof (cases r1)
    case (Some x)
    then have "r = r1" "c' = c1" using Suc.prems(1) p by simp_all
    then show ?thesis using s1 by blast
  next
    case None
    show ?thesis
    proof (cases "deadline \<le> now k")
      case True
      then have "r = r1" "c' = c1" using Suc.prems(1) p None by simp_all
      then show ?thesis using s1 by blast
    next
      case False
      have "session br0 c0 ms (brs (Suc k) 0) c1"
        using session_steps [OF assms(4) s1] None by simp
      then show ?thesis using Suc.IH [of "Suc k" c1] Suc.prems(1) p None False by simp
    qed
  qed
qed simp

lemma session_poll:
  assumes "poll fuel brs begun now timeout c = Some (r, c')" and "session br0 c0 ms (brs 0 0) c"
    and "\<And>k i. broker_step\<^sup>*\<^sup>* (brs k i) (brs k (Suc i))"
    and "\<And>k i. broker_step\<^sup>*\<^sup>* (brs k i) (brs (Suc k) 0)"
  shows "\<exists>k' i. session br0 c0 (ms @ received r) (brs k' i) c'"
  using session_poll_loop [OF assms(1) [unfolded poll_def] assms(2-4)] .

lemma session_recv_loop:
  assumes "recv_loop attempts fuel brs br begun now j c = Some (r, pauses, c')"
    and "session br0 c0 ms (brs j 0 0) c"
    and "\<And>j k i. broker_step\<^sup>*\<^sup>* (brs j k i) (brs j k (Suc i))"
    and "\<And>j k i. broker_step\<^sup>*\<^sup>* (brs j k i) (brs j (Suc k) 0)"
    and "\<And>j k i. broker_step\<^sup>*\<^sup>* (brs j k i) (brs (Suc j) 0 0)"
  shows "\<exists>j' k i. case r of
      Ok m \<Rightarrow> \<exists>b. m = borrowed_detach b \<and> session br0 c0 (ms @ [bm_inner b]) (brs j' k i) c'
    | _ \<Rightarrow> session br0 c0 ms (brs j' k i) c'"
  using assms(1,2)
proof (induction fuel arbitrary: j c pauses)
  case (Suc fuel)
  obtain x c1 where p: "poll attempts (brs j) (begun j) (now j) 0 c = Some (x, c1)"
    using Suc.prems(1) by (cases "poll attempts (brs j) (begun j) (now j) 0 c") auto
  obtain k i where s1: "session br0 c0 (ms @ received x) (brs j k i) c1"
    using session_poll [OF p Suc.prems(2) assms(3,4)] by blast
  show ?case
  proof (cases x)
    case (Some y)
    then have "r = res_map borrowed_detach y" "c' = c1" using Suc.prems(1) p by simp_all
    then show ?thesis using s1 Some by (cases y) auto
  next
    case None
    have nxt: "session br0 c0 ms (brs (Suc j) 0 0) c1"
      using session_steps [OF assms(5) s1] None by simp
    have again: ?thesis if "recv_loop attempts fuel brs br begun now (Suc j) c1 = Some (r, ps, c')" for ps
      using Suc.IH [OF that nxt] .
    have stop: ?thesis if "c' = c1" "\<not> is_ok r"
      using that s1 None by (cases r) auto
    show ?thesis
    proof (cases "cn_subscribed c1 = []")
      case True
      then show ?thesis using Suc.prems(1) p None again by auto
    next
      case False
      then show ?thesis
        using Suc.prems(1) p None again stop
        by (cases "broker_get_partition_notifies (cn_subscribed c1) (br j)") (auto split: if_splits)
    qed
  qed
qed simp


section \<open>Properties\<close>

text \<open>C20: Receiving asynchronously is polling. Whatever the broker does between and during its
  iterations, a \<open>recv\<close> that returns a message returns an owned copy of one message that a session
  of the polling consumer has received next, and one that returns an error has received none and
  lost none: the consumer goes on from a state of such a session. What is shown of sessions (order,
  no duplicates, no gaps but evicted messages) so holds of the messages that successive calls of
  \<open>recv\<close> return.\<close>

theorem recv_is_a_session:
  assumes "stream_recv attempts fuel brs br begun now sc = Some (r, pauses, sc')"
    and "session br0 c0 ms (brs 0 0 0) (sc_inner sc)"
    and "\<And>j k i. broker_step\<^sup>*\<^sup>* (brs j k i) (brs j k (Suc i))"
    and "\<And>j k i. broker_step\<^sup>*\<^sup>* (brs j k i) (brs j (Suc k) 0)"
    and "\<And>j k i. broker_step\<^sup>*\<^sup>* (brs j k i) (brs (Suc j) 0 0)"
  shows "\<exists>j k i. case r of
      Ok m \<Rightarrow> \<exists>b. m = borrowed_detach b \<and> session br0 c0 (ms @ [bm_inner b]) (brs j k i) (sc_inner sc')
    | _ \<Rightarrow> session br0 c0 ms (brs j k i) (sc_inner sc')"
proof -
  have "recv_loop attempts fuel brs br begun now 0 (sc_inner sc) = Some (r, pauses, sc_inner sc')"
    using assms(1) by (auto simp: stream_recv_def)
  then show ?thesis using assms(2-5) by (rule session_recv_loop)
qed

abbreviation demo_sent :: "(nat in_memory, nat) broker" where
  "demo_sent \<equiv> snd (broker_produce demo_clock ''t'' (Some 1) (Some [2]) (Some [7]) None (Some 5) demo_broker)"

lemma recv_at_once:
  assumes "fst (poll_once (brs 0 0) (sc_inner sc)) = Some x"
  shows "\<exists>sc'. stream_recv (Suc a) (Suc f) brs br begun now sc = Some (res_map borrowed_detach x, [], sc')"
  using poll_at_once [where brs = "brs 0" and n = a and begun = "begun 0" and now = "now 0" and timeout = 0,
      OF assms]
  by (auto simp: stream_recv_def)

theorem recv_is_a_session_witness:
  "\<exists>b sc' m. stream_recv 1 1 (\<lambda>_ _ _. demo_sent) (\<lambda>_. demo_sent) (\<lambda>_. 0) (\<lambda>_ _. 0)
      (stream_consumer_of waiting_consumer) = Some (Ok m, [], sc') \<and> om_payload m = Some [7] \<and>
     m = borrowed_detach b \<and> session demo_sent waiting_consumer [bm_inner b] demo_sent (sc_inner sc')"
proof -
  let ?m = "borrowed_detach (borrowed_new (stored_new (Some [2]) (Some [7]) ''t'' 1 0 5 None (mono demo_clock 0))
      :: nat borrowed_message)"
  obtain sc' where r: "stream_recv 1 1 (\<lambda>_ _ _. demo_sent) (\<lambda>_. demo_sent) (\<lambda>_. 0) (\<lambda>_ _. 0)
      (stream_consumer_of waiting_consumer) = Some (Ok ?m, [], sc')"
    using recv_at_once [where a = 0 and f = 0 and brs = "\<lambda>_ _ _. demo_sent" and br = "\<lambda>_. demo_sent"
        and begun = "\<lambda>_. 0" and now = "\<lambda>_ _. 0" and sc = "stream_consumer_of waiting_consumer"] demo_polled
    by (auto simp: stream_consumer_of_def)
  have "om_payload ?m = Some [7]" by (simp add: borrowed_detach_def to_owned_message_def borrowed_new_def)
  moreover obtain b where "?m = borrowed_detach b"
    "session demo_sent waiting_consumer [bm_inner b] demo_sent (sc_inner sc')"
    using recv_is_a_session [where ms = "[]", OF r] sess_begin [of demo_sent waiting_consumer]
    by (auto simp: stream_consumer_of_def)
  ultimately show ?thesis using r by blast
qed

text \<open>C31: What is there is received at once, through either interface. When the broker is open and
  some assigned partition that is not paused has a message where the consumer would fetch, \<open>recv\<close>
  and \<open>poll_next\<close> both come back in their first poll, without waiting and without touching a
  notification, with the same message and the same consumer.\<close>

theorem recv_and_stream_agree:
  assumes "mem_broker h br" and "\<not> bk_shutdown br"
    and "(t, i) \<in> set (tpl_keys (cn_assigned (sc_inner sc)))" and "(t, i) \<notin> set (cn_paused (sc_inner sc))"
    and "fetch_one_from_position t i (map_of (cn_position (sc_inner sc)) (t, i)) (cn_group_id (sc_inner sc)) br =
      Ok (Some m)"
  shows "\<exists>x sc'. stream_recv (Suc a) (Suc f) (\<lambda>_ _ _. br) (\<lambda>_. br) begun now sc = Some (Ok x, [], sc') \<and>
    poll_next (Suc a) (\<lambda>_ _ _. br) br begun now (sc_inner sc) =
      Some (Ready (Some (Ok x)), [], sc_inner sc') \<and>
    (om_topic x, om_partition x) \<notin> set (cn_paused (sc_inner sc))"
proof -
  obtain b where b: "fst (poll_once (\<lambda>_. br) (sc_inner sc)) = Some (Ok b)"
    "(msg_topic (bm_inner b), msg_partition (bm_inner b)) \<notin> set (cn_paused (sc_inner sc))"
    using poll_once_finds [OF assms] by blast
  obtain c' where p: "poll (Suc a) (\<lambda>_ _. br) (begun 0) (now 0) 0 (sc_inner sc) = Some (Some (Ok b), c')"
    using poll_at_once [where brs = "\<lambda>_ _. br" and n = a and begun = "begun 0" and now = "now 0"
        and timeout = 0, OF b(1)] by blast
  then have "stream_recv (Suc a) (Suc f) (\<lambda>_ _ _. br) (\<lambda>_. br) begun now sc =
      Some (Ok (borrowed_detach b), [], sc\<lparr>sc_inner := c'\<rparr>)"
    by (simp add: stream_recv_def)
  moreover have "poll_next (Suc a) (\<lambda>_ _ _. br) br begun now (sc_inner sc) =
      Some (Ready (Some (Ok (borrowed_detach b))), [], c')"
    using p by (simp add: poll_next_def)
  ultimately show ?thesis using b(2)
    by (intro exI [of _ "borrowed_detach b"] exI [of _ "sc\<lparr>sc_inner := c'\<rparr>"])
      (simp add: borrowed_detach_def to_owned_message_def)
qed

theorem recv_and_stream_agree_witness:
  "\<exists>x c'. poll_next 1 (\<lambda>_ _ _. demo_produced) demo_produced (\<lambda>_. 0) (\<lambda>_ _. 0) demo_consumer =
     Some (Ready (Some (Ok x)), [], c')"
proof -
  obtain m where m: "fetch_one_from_position ''t'' 1 None None demo_produced = Ok (Some m)"
    using demo_fetch by blast
  show ?thesis
    using recv_and_stream_agree [OF demo_produced_mem demo_produced_open, of "''t''" 1
        "stream_consumer_of demo_consumer" m 0 0 "\<lambda>_. 0" "\<lambda>_ _. 0"] m
    by (auto simp: demo_consumer_def fresh_consumer_def tpl_keys_def stream_consumer_of_def)
qed

text \<open>One silent partition delays a receive. \<open>recv\<close> awaits the notifications of all partitions
  of its topics one after the other, so a message in one partition does not wake it: if futures
  complete no earlier than they are created, and some partition among those awaited is not
  notified for 30 seconds, the wait takes the whole 30 seconds whenever the others are notified.\<close>

lemma await_all_late:
  assumes "\<And>n t t'. notified n t = Some t' \<Longrightarrow> t \<le> t'" and "n \<in> set ns"
    and "\<And>t'. t \<le> t' \<Longrightarrow> (case notified n t' of None \<Rightarrow> True | Some x \<Rightarrow> d \<le> x)"
  shows "case await_all notified ns t of None \<Rightarrow> True | Some x \<Rightarrow> d \<le> x"
proof -
  have mono: "t \<le> x" if "await_all notified ms t = Some x" for ms t x
    using that by (induction ms arbitrary: t) (auto dest!: assms(1) split: option.splits intro: order_trans)
  show ?thesis
    using assms(2,3)
  proof (induction ns arbitrary: t)
    case (Cons k ns)
    show ?case
    proof (cases "notified k t")
      case (Some t1)
      then have "t \<le> t1" by (rule assms(1))
      show ?thesis
      proof (cases "k = n")
        case True
        then have "d \<le> t1" using Cons.prems(2) [of t] Some by simp
        then show ?thesis using Some mono [of ns t1] by (auto split: option.splits)
      next
        case False
        then show ?thesis
          using Cons.IH [of t1] Cons.prems \<open>t \<le> t1\<close> Some by (auto dest: order_trans)
      qed
    qed simp
  qed simp
qed

theorem recv_waits_for_every_partition:
  assumes "\<And>n t t'. notified n t = Some t' \<Longrightarrow> t \<le> t'" and "n \<in> set notifies"
    and "\<And>t'. t \<le> t' \<Longrightarrow> (case notified n t' of None \<Rightarrow> True | Some x \<Rightarrow> t + 30000 \<le> x)"
  shows "recv_wakes notified notifies t = t + 30000"
  using await_all_late [where notified = notified and n = n and t = t, OF assms]
  by (auto simp: recv_wakes_def select_timeout_def split: option.splits)

text \<open>A topic of two partitions of which only partition 0 is notified, again and again.\<close>

theorem recv_waits_for_every_partition_witness:
  "recv_wakes (\<lambda>n t. if n = (''t'', 0) then Some (t + 1) else None) [(''t'', 0), (''t'', 1)] 500 = 30500"
  by (subst recv_waits_for_every_partition [where n = "(''t'', 1)"]) (auto split: if_splits)

text \<open>A partition notifies those who wait at that moment and leaves nothing behind for others
  (\<open>notify_waiters\<close>): a handle awaited from \<open>s\<close> on completes with the first append at or after \<open>s\<close>.
  The wait begins after the poll, so that an append in between wakes nobody: with no other append
  to the first partition it waits for, \<open>recv\<close> sleeps its 30 seconds with the message there.\<close>

theorem recv_misses_append_before_wait:
  assumes "\<And>s. notified n s = (if s \<le> appended then Some appended else None)" and "appended < t"
  shows "recv_wakes notified (n # notifies) t = t + 30000"
  using assms by (simp add: recv_wakes_def select_timeout_def)

theorem recv_misses_append_before_wait_witness:
  "recv_wakes (\<lambda>n s. if s \<le> 499 then Some 499 else None) [(''t'', 0)] 500 = 30500"
  by (subst recv_misses_append_before_wait [where appended = 499]) simp_all

text \<open>A stream that has nothing to give is polled again without delay. Before it spawns the task
  that is to wake it, \<open>poll_next\<close> leaves a permit with every notification that the task awaits; so
  if a permit completes the next \<open>notified()\<close> at once, as tokio documents it, the task wakes the
  stream immediately, although no message has arrived.\<close>

theorem pending_stream_wakes_itself:
  assumes "poll_next attempts brs br begun now c = Some (Pending, effects, c')"
    and "\<And>n t'. NotifyOne n \<in> set effects \<Longrightarrow> t \<le> t' \<Longrightarrow> notified n t' = Some t'"
  shows "effects = [WakeByRef] \<or>
    (\<exists>notifies. effects = map NotifyOne notifies @ [SpawnWaker notifies] \<and> notifies \<noteq> [] \<and>
       waker_wakes notified notifies t = t)"
proof -
  have now: "await_all notified ns t = Some t" if "\<forall>n \<in> set ns. NotifyOne n \<in> set effects" for ns
    using that by (induction ns) (simp_all add: assms(2))
  obtain c1 where p: "poll attempts (brs 0) (begun 0) (now 0) 0 c = Some (None, c1)"
    using assms(1) by (auto simp: poll_next_def split: option.splits prod.splits)
  show ?thesis
  proof (cases "effects = [WakeByRef]")
    case False
    then obtain ns where ns: "effects = map NotifyOne ns @ [SpawnWaker ns]" "ns \<noteq> []"
      using assms(1) p
      by (auto simp: poll_next_def Let_def split: option.splits res.splits if_splits)
    then have "await_all notified ns t = Some t" by (intro now) auto
    then show ?thesis using ns by (auto simp: waker_wakes_def select_timeout_def)
  qed simp
qed

abbreviation idle_consumer :: rmq_consumer where
  "idle_consumer \<equiv> (fresh_consumer None ''c'')\<lparr>cn_subscribed := [''t'']\<rparr>"

abbreviation demo_topic :: "(nat in_memory, nat) broker" where
  "demo_topic \<equiv> demo_broker\<lparr>bk_backend := demo_backend\<rparr>"

lemma idle_poll: "poll 1 (\<lambda>_ _. demo_topic) 0 (\<lambda>_. 0) 0 idle_consumer = Some (None, idle_consumer)"
  by (simp add: poll_def poll_once_def fresh_consumer_def tpl_new_def)

theorem pending_stream_wakes_itself_witness:
  "\<exists>ns. poll_next 1 (\<lambda>_ _ _. demo_topic) demo_topic (\<lambda>_. 0) (\<lambda>_ _. 0) idle_consumer =
      Some (Pending, map NotifyOne ns @ [SpawnWaker ns], idle_consumer) \<and>
    waker_wakes (\<lambda>n t. Some t) ns 5 = 5"
proof -
  have ns: "broker_get_partition_notifies [''t''] demo_topic = Ok [(''t'', 0), (''t'', 1)]"
    by (simp add: broker_get_partition_notifies_def mem_brokerD(1) [OF demo_broker_mem]
        inmem_get_partition_notifies_def demo_backend_def inmem_ensure_topic_open
        inmem_set_topic_def topic_get_partition_notify_def topic_get_partition_new
        numeral_2_eq_2 partition_new_def)
  let ?ns = "[(''t'', 0), (''t'', 1)]"
  have p: "poll_next 1 (\<lambda>_ _ _. demo_topic) demo_topic (\<lambda>_. 0) (\<lambda>_ _. 0) idle_consumer =
      Some (Pending, map NotifyOne ?ns @ [SpawnWaker ?ns], idle_consumer)"
    using idle_poll ns by (simp add: poll_next_def fresh_consumer_def)
  from pending_stream_wakes_itself [OF p, of 5 "\<lambda>n t. Some t"] show ?thesis
    using p by (intro exI [of _ ?ns]) auto
qed

end
