(* ===== verification/Registry.thy ===== *)
theory Registry
  imports Broker
begin

text \<open>
  \<open>src/registry.rs\<close>: the process-wide table that lets clients with the same \<open>broker.id\<close> share a
  broker. It holds weak references: a broker lives as long as a client has it. A reference is a
  number; \<open>rg_heap\<close> gives the live brokers with their number of strong references, and an
  address is not used again while a weak reference to it may exist.

  \<open>get_or_create\<close> takes the lock twice, to look up and to insert, and creates the broker in
  between without it. It is modelled as a whole, for one caller at a time, and as the three turns
  that other callers' turns can come between.
\<close>

type_synonym broker_ref = nat

record 'v registry =
  rg_map :: "(string, broker_ref) hashmap"
  rg_heap :: "(broker_ref, ('v in_memory, 'v) broker \<times> nat) hashmap"
  rg_next :: broker_ref

definition registry_new :: "'v registry" where
  "registry_new = \<lparr>rg_map = [], rg_heap = [], rg_next = 0\<rparr>"


section \<open>References\<close>

text \<open>\<open>Arc::new\<close>, \<open>Arc::clone\<close> or a successful \<open>Weak::upgrade\<close>, and dropping an \<open>Arc\<close>.\<close>

definition arc_new :: "('v in_memory, 'v) broker \<Rightarrow> 'v registry \<Rightarrow> broker_ref \<times> 'v registry" where
  "arc_new b s =
     (rg_next s, s\<lparr>rg_heap := AList.update (rg_next s) (b, 1) (rg_heap s), rg_next := rg_next s + 1\<rparr>)"

definition arc_retain :: "broker_ref \<Rightarrow> 'v registry \<Rightarrow> 'v registry" where
  "arc_retain r s =
     (case map_of (rg_heap s) r of
        Some (b, n) \<Rightarrow> s\<lparr>rg_heap := AList.update r (b, n + 1) (rg_heap s)\<rparr>
      | None \<Rightarrow> s)"

definition arc_drop :: "broker_ref \<Rightarrow> 'v registry \<Rightarrow> 'v registry" where
  "arc_drop r s =
     (case map_of (rg_heap s) r of
        Some (b, n) \<Rightarrow>
          (if n \<le> 1 then s\<lparr>rg_heap := AList.delete r (rg_heap s)\<rparr>
           else s\<lparr>rg_heap := AList.update r (b, n - 1) (rg_heap s)\<rparr>)
      | None \<Rightarrow> s)"

definition weak_upgrade :: "broker_ref \<Rightarrow> 'v registry \<Rightarrow> broker_ref option \<times> 'v registry" where
  "weak_upgrade r s =
     (case map_of (rg_heap s) r of Some _ \<Rightarrow> (Some r, arc_retain r s) | None \<Rightarrow> (None, s))"


section \<open>Getting or creating a broker\<close>

definition registry_lookup :: "string \<Rightarrow> 'v registry \<Rightarrow> broker_ref option \<times> 'v registry" where
  "registry_lookup bid s =
     (case map_of (rg_map s) bid of Some weak \<Rightarrow> weak_upgrade weak s | None \<Rightarrow> (None, s))"

definition registry_insert :: "string \<Rightarrow> broker_ref \<Rightarrow> 'v registry \<Rightarrow> 'v registry" where
  "registry_insert bid r s = s\<lparr>rg_map := AList.update bid r (rg_map s)\<rparr>"

definition required_broker_id :: "client_config \<Rightarrow> string res" where
  "required_broker_id config =
     (case config_get config BROKER_ID of
        Some bid \<Rightarrow> Ok bid
      | None \<Rightarrow> Panic (ExpectNone ''broker.id is required (validated by BrokerConfig)''))"

definition registry_get_or_create ::
    "(string list \<Rightarrow> string list) \<Rightarrow> client_config \<Rightarrow> 'v registry \<Rightarrow> broker_ref res \<times> 'v registry" where
  "registry_get_or_create h config s =
     (case required_broker_id config of
        Ok bid \<Rightarrow>
          (case registry_lookup bid s of
             (Some strong, s) \<Rightarrow> (Ok strong, s)
           | (None, s) \<Rightarrow>
               (case broker_new h config of
                  Ok b \<Rightarrow> (let (r, s) = arc_new b s in (Ok r, registry_insert bid r s))
                | Err e \<Rightarrow> (Err e, s)
                | Panic x \<Rightarrow> (Panic x, s)))
      | Err e \<Rightarrow> (Err e, s)
      | Panic x \<Rightarrow> (Panic x, s))"


section \<open>Concurrent callers\<close>

text \<open>A caller: about to look up, about to create, about to insert, and done, with a broker, which it
  may drop later, or without.\<close>

datatype caller =
    Calling client_config
  | Creating string client_config
  | Inserting string broker_ref
  | Holding string broker_ref
  | Failing "broker_ref res"
  | Dropped

fun caller_turn :: "(string list \<Rightarrow> string list) \<Rightarrow> caller \<Rightarrow> 'v registry \<Rightarrow> caller \<times> 'v registry" where
  "caller_turn h (Calling config) s =
     (case required_broker_id config of
        Ok bid \<Rightarrow>
          (case registry_lookup bid s of
             (Some strong, s) \<Rightarrow> (Holding bid strong, s)
           | (None, s) \<Rightarrow> (Creating bid config, s))
      | Err e \<Rightarrow> (Failing (Err e), s)
      | Panic x \<Rightarrow> (Failing (Panic x), s))"
| "caller_turn h (Creating bid config) s =
     (case broker_new h config of
        Ok b \<Rightarrow> (case arc_new b s of (r, s) \<Rightarrow> (Inserting bid r, s))
      | Err e \<Rightarrow> (Failing (Err e), s)
      | Panic x \<Rightarrow> (Failing (Panic x), s))"
| "caller_turn h (Inserting bid r) s = (Holding bid r, registry_insert bid r s)"
| "caller_turn h x s = (x, s)"

text \<open>Any number of callers, each at its own pace; holders clone and drop their brokers.\<close>

inductive registry_step ::
    "(string list \<Rightarrow> string list) \<Rightarrow> caller list \<times> 'v registry \<Rightarrow> caller list \<times> 'v registry \<Rightarrow> bool"
  for h :: "string list \<Rightarrow> string list" where
  reg_call: "registry_step h (cs, s) (cs @ [Calling config], s)"
| reg_turn: "j < length cs \<Longrightarrow> caller_turn h (cs ! j) s = (x, s') \<Longrightarrow>
    registry_step h (cs, s) (cs[j := x], s')"
| reg_clone: "j < length cs \<Longrightarrow> cs ! j = Holding bid r \<Longrightarrow>
    registry_step h (cs, s) (cs @ [Holding bid r], arc_retain r s)"
| reg_drop: "j < length cs \<Longrightarrow> cs ! j = Holding bid r \<Longrightarrow>
    registry_step h (cs, s) (cs[j := Dropped], arc_drop r s)"

abbreviation registry_reachable ::
    "(string list \<Rightarrow> string list) \<Rightarrow> caller list \<times> 'v registry \<Rightarrow> bool" where
  "registry_reachable h x \<equiv> (registry_step h)\<^sup>*\<^sup>* ([], registry_new) x"

text \<open>One caller alone makes the whole call in its three turns.\<close>

fun caller_of :: "string \<Rightarrow> broker_ref res \<Rightarrow> caller" where
  "caller_of bid (Ok r) = Holding bid r"
| "caller_of bid x = Failing x"

lemma caller_turns_alone:
  "(case caller_turn h (Calling config) s of (x, s) \<Rightarrow>
     (case caller_turn h x s of (x, s) \<Rightarrow> caller_turn h x s)) =
   (case registry_get_or_create h config s of (r, s') \<Rightarrow>
     (caller_of (case required_broker_id config of Ok bid \<Rightarrow> bid | _ \<Rightarrow> []) r, s'))"
  by (simp add: registry_get_or_create_def arc_new_def split: res.splits prod.splits option.splits)


section \<open>Reference counts\<close>

fun holds :: "broker_ref \<Rightarrow> caller \<Rightarrow> bool" where
  "holds r (Inserting bid r') = (r' = r)"
| "holds r (Holding bid r') = (r' = r)"
| "holds r x = False"

fun caller_id :: "caller \<Rightarrow> string option" where
  "caller_id (Inserting bid r) = Some bid"
| "caller_id (Holding bid r) = Some bid"
| "caller_id x = None"

definition holders :: "broker_ref \<Rightarrow> caller list \<Rightarrow> nat" where
  "holders r cs = length (filter (holds r) cs)"

definition strong_count :: "broker_ref \<Rightarrow> 'v registry \<Rightarrow> nat" where
  "strong_count r s = (case map_of (rg_heap s) r of Some (b, n) \<Rightarrow> n | None \<Rightarrow> 0)"

definition live :: "broker_ref \<Rightarrow> 'v registry \<Rightarrow> bool" where
  "live r s \<longleftrightarrow> map_of (rg_heap s) r \<noteq> None"

definition ref_id :: "broker_ref \<Rightarrow> 'v registry \<Rightarrow> string option" where
  "ref_id r s = map_option (\<lambda>(b, n). broker_id (bk_config b)) (map_of (rg_heap s) r)"

lemma holders_append [simp]: "holders r (cs @ [x]) = holders r cs + (if holds r x then 1 else 0)"
  by (simp add: holders_def)

lemma holders_middle:
  "holders r (xs @ y # ys) = holders r xs + (if holds r y then 1 else 0) + holders r ys"
  by (simp add: holders_def)

lemma holders_update:
  assumes "j < length cs"
  shows "holders r (cs[j := x]) + (if holds r (cs ! j) then 1 else 0) =
    holders r cs + (if holds r x then 1 else 0)"
proof -
  have "holders r cs = holders r (take j cs @ cs ! j # drop (Suc j) cs)"
    using id_take_nth_drop [OF assms] by (rule arg_cong)
  moreover have "holders r (cs[j := x]) = holders r (take j cs @ x # drop (Suc j) cs)"
    using upd_conv_take_nth_drop [OF assms] by (rule arg_cong)
  ultimately show ?thesis by (simp add: holders_middle)
qed

lemma arc_retain_sel [simp]:
  "strong_count r' (arc_retain r s) = strong_count r' s + (if r' = r \<and> live r s then 1 else 0)"
  "live r' (arc_retain r s) = live r' s" "ref_id r' (arc_retain r s) = ref_id r' s"
  "rg_next (arc_retain r s) = rg_next s" "rg_map (arc_retain r s) = rg_map s"
  by (auto simp: arc_retain_def strong_count_def live_def ref_id_def split: option.splits)

lemma arc_drop_sel:
  "strong_count r' (arc_drop r s) = strong_count r' s - (if r' = r then 1 else 0)"
  "live r' (arc_drop r s) = (live r' s \<and> (r' = r \<longrightarrow> 1 < strong_count r s))"
  "ref_id r' (arc_drop r s) = (if live r' (arc_drop r s) then ref_id r' s else None)"
  "rg_next (arc_drop r s) = rg_next s" "rg_map (arc_drop r s) = rg_map s"
  by (cases "map_of (rg_heap s) r'"; cases "map_of (rg_heap s) r";
      force simp: arc_drop_def strong_count_def live_def ref_id_def)+

lemma arc_new_sel:
  assumes "arc_new b s = (r, s')"
  shows "r = rg_next s" and "rg_next s' = rg_next s + 1" and "rg_map s' = rg_map s"
    and "strong_count r' s' = (if r' = r then 1 else strong_count r' s)"
    and "live r' s' = (r' = r \<or> live r' s)"
    and "ref_id r' s' = (if r' = r then Some (broker_id (bk_config b)) else ref_id r' s)"
  using assms by (auto simp: arc_new_def strong_count_def live_def ref_id_def)

lemma registry_insert_sel [simp]:
  "strong_count r' (registry_insert bid r s) = strong_count r' s"
  "live r' (registry_insert bid r s) = live r' s" "ref_id r' (registry_insert bid r s) = ref_id r' s"
  "rg_next (registry_insert bid r s) = rg_next s"
  "map_of (rg_map (registry_insert bid r s)) = (map_of (rg_map s))(bid \<mapsto> r)"
  by (simp_all add: registry_insert_def strong_count_def live_def ref_id_def)

lemma live_ref_id: "live r s \<longleftrightarrow> ref_id r s \<noteq> None"
  by (simp add: live_def ref_id_def)

text \<open>Every strong reference is counted and held by a caller; a broker dies with the last one; what
  the table or a caller has under an id is a broker with that id.\<close>

fun caller_ok :: "'v registry \<Rightarrow> caller \<Rightarrow> bool" where
  "caller_ok s (Creating bid config) \<longleftrightarrow> config_get config BROKER_ID = Some bid"
| "caller_ok s (Inserting bid r) \<longleftrightarrow> ref_id r s = Some bid"
| "caller_ok s (Holding bid r) \<longleftrightarrow> ref_id r s = Some bid"
| "caller_ok s x \<longleftrightarrow> True"

definition registry_inv :: "caller list \<times> 'v registry \<Rightarrow> bool" where
  "registry_inv x \<longleftrightarrow> (case x of (cs, s) \<Rightarrow>
     (\<forall>r. strong_count r s = holders r cs) \<and>
     (\<forall>r. live r s \<longrightarrow> 0 < strong_count r s \<and> r < rg_next s) \<and>
     (\<forall>bid r. map_of (rg_map s) bid = Some r \<longrightarrow> r < rg_next s \<and> (live r s \<longrightarrow> ref_id r s = Some bid)) \<and>
     (\<forall>c \<in> set cs. caller_ok s c))"

lemma registry_invD:
  assumes "registry_inv (cs, s)"
  shows "strong_count r s = holders r cs" and "live r s \<Longrightarrow> 0 < strong_count r s"
    and "live r s \<Longrightarrow> r < rg_next s" and "map_of (rg_map s) bid = Some r \<Longrightarrow> r < rg_next s"
    and "map_of (rg_map s) bid = Some r \<Longrightarrow> live r s \<Longrightarrow> ref_id r s = Some bid"
    and "c \<in> set cs \<Longrightarrow> caller_ok s c"
  using assms by (auto simp: registry_inv_def)

lemma caller_ok_cong:
  "caller_ok s c \<Longrightarrow> (\<And>r. holds r c \<Longrightarrow> ref_id r s' = ref_id r s) \<Longrightarrow> caller_ok s' c"
  by (cases c) simp_all

lemma holders_pos: "c \<in> set cs \<Longrightarrow> holds r c \<Longrightarrow> 0 < holders r cs"
  by (auto simp: holders_def filter_empty_conv)

lemma strong_live: "0 < strong_count r s \<Longrightarrow> live r s"
  by (auto simp: strong_count_def live_def split: option.splits)

lemma holder_live:
  assumes "registry_inv (cs, s)" and "c \<in> set cs" and "holds r c"
  shows "live r s"
  using strong_live [of r s] holders_pos [OF assms(2,3)] registry_invD(1) [OF assms(1), of r] by simp

lemma broker_config_id:
  "broker_config_from config = Ok bc \<Longrightarrow> config_get config BROKER_ID = Some bid \<Longrightarrow> broker_id bc = bid"
  by (auto simp: broker_config_from_def Let_def res_bind_eq_Ok)

lemma broker_new_id:
  assumes "broker_new h config = Ok b" and "config_get config BROKER_ID = Some bid"
  shows "broker_id (bk_config b) = bid"
  using broker_config_id [OF _ assms(2), of "bk_config b"] assms(1) by (auto simp: broker_new_def)

lemma required_broker_id_Ok [simp]:
  "required_broker_id config = Ok bid \<longleftrightarrow> config_get config BROKER_ID = Some bid"
  by (simp add: required_broker_id_def split: option.splits)


text \<open>The turns, one by one.\<close>

lemma registry_lookup_cases:
  assumes "registry_lookup bid s = (x, s')"
  obtains (found) r where "x = Some r" "s' = arc_retain r s" "live r s" "map_of (rg_map s) bid = Some r"
  | (missing) "x = None" "s' = s" "\<And>r. map_of (rg_map s) bid = Some r \<Longrightarrow> \<not> live r s"
proof (cases "map_of (rg_map s) bid")
  case None
  then show thesis using assms missing by (auto simp: registry_lookup_def)
next
  case (Some r)
  show thesis
  proof (cases "map_of (rg_heap s) r")
    case None
    then show thesis using assms missing Some by (simp add: registry_lookup_def weak_upgrade_def live_def)
  next
    case (Some e)
    then show thesis
      using assms found [of r] \<open>map_of (rg_map s) bid = Some r\<close>
      by (simp add: registry_lookup_def weak_upgrade_def live_def)
  qed
qed

lemma registry_inv_change:
  assumes inv: "registry_inv (cs, s)"
    and others: "\<And>c. c \<in> set cs' \<Longrightarrow> c = y \<or> c \<in> set cs"
    and count: "\<And>r. strong_count r s' = holders r cs'"
    and same: "\<And>r. live r s' \<Longrightarrow> live r s \<Longrightarrow> ref_id r s' = ref_id r s"
    and lv: "\<And>r. live r s' \<Longrightarrow> 0 < strong_count r s' \<and> r < rg_next s'"
    and tab: "\<And>bid r. map_of (rg_map s') bid = Some r \<Longrightarrow> r < rg_next s' \<and> (live r s' \<longrightarrow> ref_id r s' = Some bid)"
    and y: "caller_ok s' y"
  shows "registry_inv (cs', s')"
proof -
  have "caller_ok s' c" if c: "c \<in> set cs'" for c
  proof (cases "c = y")
    case False
    then have old: "c \<in> set cs" using others c by blast
    have "ref_id r s' = ref_id r s" if "holds r c" for r
    proof (rule same)
      show "live r s'" using holders_pos [OF c that] count [of r] strong_live [of r s'] by simp
      show "live r s" using inv old that by (rule holder_live)
    qed
    then show ?thesis using caller_ok_cong registry_invD(6) [OF inv old] by blast
  qed (use y in simp)
  then show ?thesis using count lv tab by (simp add: registry_inv_def)
qed

lemma update_member: "c \<in> set (cs[j := y]) \<Longrightarrow> c = y \<or> c \<in> set cs"
  using set_update_subset_insert by fastforce

lemma caller_turn_inv:
  assumes inv: "registry_inv (cs, s)" and j: "j < length cs" and turn: "caller_turn h (cs ! j) s = (x, s')"
  shows "registry_inv (cs[j := x], s')"
proof -
  note D = registry_invD [OF inv]
  have cj: "caller_ok s (cs ! j)" using D(6) j by simp
  note upd = holders_update [OF j, where x = x]
  note change = registry_inv_change [OF inv update_member]
  have idle: "registry_inv (cs[j := x], s')"
    if "\<And>r. holds r x = holds r (cs ! j)" "caller_ok s x" "s' = s"
  proof (rule change)
    show "strong_count r s' = holders r (cs[j := x])" for r using upd [of r] that D(1) by simp
  qed (use that D in auto)
  show ?thesis
  proof (cases "cs ! j")
    case (Calling config)
    show ?thesis
    proof (cases "required_broker_id config")
      case (Ok bid)
      obtain y s1 where l: "registry_lookup bid s = (y, s1)" by fastforce
      from l show ?thesis
      proof (cases rule: registry_lookup_cases)
        case (found r)
        then have x: "x = Holding bid r" "s' = arc_retain r s" using turn Calling Ok l by simp_all
        show ?thesis
        proof (rule change)
          show "strong_count r' s' = holders r' (cs[j := x])" for r'
            using upd [of r'] x Calling D(1) found(3) by simp
        qed (use x D found in auto)
      next
        case missing
        then have "x = Creating bid config" "s' = s" using turn Calling Ok l by simp_all
        then show ?thesis using Calling Ok by (intro idle) simp_all
      qed
    qed (rule idle; use turn Calling in \<open>force\<close>)+
  next
    case (Creating bid config)
    show ?thesis
    proof (cases "broker_new h config :: ('a in_memory, 'a) broker res")
      case (Ok b)
      then obtain r where r: "arc_new b s = (r, s')" "x = Inserting bid r"
        using turn Creating by (auto split: prod.splits)
      note new = arc_new_sel [OF r(1)]
      have fresh: "\<not> live r s" using D(3) [of r] new(1) by auto
      have "strong_count r s = 0" using fresh strong_live [of r s] by auto
      then have none: "holders r cs = 0" using D(1) by simp
      have "broker_id (bk_config b) = bid" using broker_new_id [OF Ok] cj Creating by simp
      show ?thesis
      proof (rule change)
        show "strong_count r' s' = holders r' (cs[j := x])" for r'
          using upd [of r'] r(2) Creating D(1) new(4) none by auto
        show "ref_id r' s' = ref_id r' s" if "live r' s'" "live r' s" for r'
          using that fresh new(6) by auto
        show "0 < strong_count r' s' \<and> r' < rg_next s'" if "live r' s'" for r'
          using that D(2,3) new by (auto simp: less_SucI)
        show "r' < rg_next s' \<and> (live r' s' \<longrightarrow> ref_id r' s' = Some bid')"
          if "map_of (rg_map s') bid' = Some r'" for bid' r'
          using that D(4,5) new by fastforce
        show "caller_ok s' x" using r(2) new(6) \<open>broker_id (bk_config b) = bid\<close> by simp
      qed
    qed (rule idle; use turn Creating in \<open>force\<close>)+
  next
    case (Inserting bid r)
    then have x: "x = Holding bid r" "s' = registry_insert bid r s" using turn by simp_all
    have id: "ref_id r s = Some bid" using cj Inserting by simp
    then have lv: "live r s" by (simp add: live_ref_id)
    show ?thesis
    proof (rule change)
      show "strong_count r' s' = holders r' (cs[j := x])" for r' using upd [of r'] x Inserting D(1) by simp
      show "r' < rg_next s' \<and> (live r' s' \<longrightarrow> ref_id r' s' = Some bid')"
        if "map_of (rg_map s') bid' = Some r'" for bid' r'
        using that x D(3-5) id lv by (auto split: if_splits)
    qed (use x D id in auto)
  qed (rule idle; use turn cj in \<open>force\<close>)+
qed

lemma registry_step_inv:
  assumes "registry_step h x y" and "registry_inv x"
  shows "registry_inv y"
  using assms
proof (cases rule: registry_step.cases)
  case (reg_call cs s config)
  note D = registry_invD [OF assms(2) [unfolded reg_call(1)]]
  show ?thesis unfolding reg_call(2)
    by (rule registry_inv_change [OF assms(2) [unfolded reg_call(1)], where y = "Calling config"])
      (use D in auto)
next
  case (reg_turn j cs s z s')
  then show ?thesis using caller_turn_inv assms(2) by blast
next
  case (reg_clone j cs bid r s)
  note inv = assms(2) [unfolded reg_clone(1)]
  note D = registry_invD [OF inv]
  have cj: "Holding bid r \<in> set cs" using reg_clone(3,4) nth_mem by fastforce
  then have lv: "live r s" using holder_live [OF inv cj] by simp
  show ?thesis unfolding reg_clone(2)
    by (rule registry_inv_change [OF inv, where y = "Holding bid r"]) (use D lv D(6) [OF cj] in auto)
next
  case (reg_drop j cs bid r s)
  note inv = assms(2) [unfolded reg_drop(1)]
  note D = registry_invD [OF inv]
  show ?thesis unfolding reg_drop(2)
  proof (rule registry_inv_change [OF inv update_member])
    show "strong_count r' (arc_drop r s) = holders r' (cs[j := Dropped])" for r'
      using holders_update [OF reg_drop(3), of r' Dropped] reg_drop(4) D(1) [of r']
      by (auto simp: arc_drop_sel(1) split: if_splits)
    show "0 < strong_count r' (arc_drop r s) \<and> r' < rg_next (arc_drop r s)" if "live r' (arc_drop r s)" for r'
      using that D(2,3) by (auto simp: arc_drop_sel)
    show "r' < rg_next (arc_drop r s) \<and> (live r' (arc_drop r s) \<longrightarrow> ref_id r' (arc_drop r s) = Some bid')"
      if "map_of (rg_map (arc_drop r s)) bid' = Some r'" for bid' r'
      using that D(4,5) by (simp add: arc_drop_sel)
    show "ref_id r' (arc_drop r s) = ref_id r' s" if "live r' (arc_drop r s)" for r'
      using that arc_drop_sel(3) [of r' r s] by simp
    show "caller_ok (arc_drop r s) Dropped" by simp
  qed
qed

lemma registry_reachable_inv: "registry_reachable h x \<Longrightarrow> registry_inv x"
proof (induction rule: rtranclp_induct)
  case base
  then show ?case
    by (simp add: registry_inv_def registry_new_def strong_count_def holders_def live_def)
next
  case (step x y)
  then show ?case using registry_step_inv by blast
qed


section \<open>Calls that do not overlap\<close>

fun at_work :: "string \<Rightarrow> caller \<Rightarrow> bool" where
  "at_work bid (Creating b config) = (b = bid)"
| "at_work bid (Inserting b r) = (b = bid)"
| "at_work bid x = False"

text \<open>A call made alone is a run of the concurrent callers.\<close>

lemma call_alone_steps:
  assumes "registry_get_or_create h config s = (Ok r, s')" and "config_get config BROKER_ID = Some bid"
  shows "(registry_step h)\<^sup>*\<^sup>* (cs, s) (cs @ [Holding bid r], s')"
proof -
  let ?j = "length cs"
  obtain x1 s1 where t1: "caller_turn h (Calling config) s = (x1, s1)" by fastforce
  obtain x2 s2 where t2: "caller_turn h x1 s1 = (x2, s2)" by fastforce
  have t3: "caller_turn h x2 s2 = (Holding bid r, s')"
    using caller_turns_alone [of h config s] t1 t2 assms(1,2) by (simp add: required_broker_id_def)
  have turn: "registry_step h (cs @ [x], t) (cs @ [y], t')" if "caller_turn h x t = (y, t')" for x y t t'
    using reg_turn [of ?j "cs @ [x]" h t y t'] that by simp
  have "registry_step h (cs, s) (cs @ [Calling config], s)" by (rule reg_call)
  then show ?thesis
    using turn [OF t1] turn [OF t2] turn [OF t3]
    by (meson r_into_rtranclp rtranclp.rtrancl_into_rtrancl)
qed

lemma get_or_create_registers:
  assumes "registry_get_or_create h config s = (Ok r, s')" and "config_get config BROKER_ID = Some bid"
  shows "map_of (rg_map s') bid = Some r \<and> live r s'"
proof -
  obtain x s1 where l: "registry_lookup bid s = (x, s1)" by fastforce
  note call = assms(1) [unfolded registry_get_or_create_def]
  from l show ?thesis
  proof (cases rule: registry_lookup_cases)
    case (found r')
    then show ?thesis using call l assms(2) by (auto simp: required_broker_id_def)
  next
    case missing
    obtain b :: "('a in_memory, 'a) broker" where b: "broker_new h config = Ok b"
      using call l missing assms(2)
      by (cases "broker_new h config :: ('a in_memory, 'a) broker res") (auto simp: required_broker_id_def)
    obtain r1 s2 where n: "arc_new b s = (r1, s2)" by fastforce
    then have "r = r1" "s' = registry_insert bid r1 s2"
      using call l missing assms(2) b by (auto simp: required_broker_id_def)
    then show ?thesis using arc_new_sel(5) [OF n, of r1] by simp
  qed
qed

text \<open>While the broker lives and nobody is creating another, the table keeps it.\<close>

definition settled :: "string \<Rightarrow> broker_ref \<Rightarrow> caller list \<times> 'v registry \<Rightarrow> bool" where
  "settled bid r x \<longleftrightarrow> (case x of (cs, s) \<Rightarrow>
     map_of (rg_map s) bid = Some r \<and> live r s \<and> (\<forall>c \<in> set cs. \<not> at_work bid c))"

lemma lookup_settled:
  assumes "settled bid r (cs, s)" and "registry_lookup bid s = (x, s')"
  shows "x = Some r"
  using assms(2) by (cases rule: registry_lookup_cases) (use assms(1) in \<open>auto simp: settled_def\<close>)

lemma turn_settled:
  assumes st: "settled bid r (cs, s)" and c: "c \<in> set cs" and turn: "caller_turn h c s = (x, s')"
  shows "map_of (rg_map s') bid = Some r \<and> \<not> at_work bid x \<and> (\<forall>r'. x = Holding bid r' \<longrightarrow> r' = r \<or> x \<in> set cs)"
proof (cases c)
  case (Calling config)
  show ?thesis
  proof (cases "required_broker_id config")
    case (Ok b)
    obtain y s1 where l: "registry_lookup b s = (y, s1)" by fastforce
    from l have m: "rg_map s1 = rg_map s" by (cases rule: registry_lookup_cases) simp_all
    show ?thesis
    proof (cases "b = bid")
      case True
      then have "y = Some r" using lookup_settled [OF st] l by simp
      then show ?thesis using turn Calling Ok l m st True by (auto simp: settled_def)
    next
      case False
      then show ?thesis
        using turn Calling Ok l m st by (cases y) (auto simp: settled_def)
    qed
  qed (use turn Calling st in \<open>force simp: settled_def\<close>)+
next
  case (Creating b config)
  then have "b \<noteq> bid" using st c by (auto simp: settled_def)
  then show ?thesis
    using turn Creating st arc_new_sel(3)
    by (cases "broker_new h config :: ('a in_memory, 'a) broker res") (force simp: settled_def split: prod.splits)+
next
  case (Inserting b r')
  then have "b \<noteq> bid" using st c by (auto simp: settled_def)
  then show ?thesis using turn Inserting st by (auto simp: settled_def)
qed (use turn st c in \<open>auto simp: settled_def\<close>)

lemma step_settled:
  assumes "registry_step h x y" and "settled bid r x" and "live r (snd y)"
  shows "settled bid r y \<and> (\<forall>r'. Holding bid r' \<in> set (fst y) \<longrightarrow> r' = r \<or> Holding bid r' \<in> set (fst x))"
  using assms(1)
proof (cases rule: registry_step.cases)
  case (reg_call cs s config)
  then show ?thesis using assms(2) by (auto simp: settled_def)
next
  case (reg_turn j cs s z s')
  then have c: "cs ! j \<in> set cs" by simp
  note t = turn_settled [OF assms(2) [unfolded reg_turn(1)] c reg_turn(4)]
  show ?thesis using reg_turn(1,2) t assms(2,3)
    by (auto simp: settled_def dest!: set_update_subset_insert [THEN subsetD])
next
  case (reg_clone j cs b r' s)
  then show ?thesis using assms(2) nth_mem [of j cs] by (auto simp: settled_def)
next
  case (reg_drop j cs b r' s)
  then show ?thesis
    using assms(2,3)
    by (auto simp: settled_def arc_drop_sel dest!: set_update_subset_insert [THEN subsetD])
qed


section \<open>Properties\<close>

text \<open>C22: Reference counting in the registry. However the lookups, creations and insertions of any
  number of concurrent callers interleave with cloning and dropping of the brokers they got, every
  caller that holds a broker holds a live one whose \<open>broker.id\<close> is the one it asked for; its
  strong count is the number of its holders, so a broker lives exactly as long as someone holds
  it; and the table never has a live broker under another id than its own.\<close>

theorem registry_brokers_live:
  assumes "registry_reachable h (cs, s)"
  shows "(\<forall>bid r. Inserting bid r \<in> set cs \<or> Holding bid r \<in> set cs \<longrightarrow>
      (\<exists>b. map_of (rg_heap s) r = Some (b, holders r cs) \<and> broker_id (bk_config b) = bid)) \<and>
    (\<forall>r b n. map_of (rg_heap s) r = Some (b, n) \<longrightarrow> n = holders r cs \<and> 0 < n) \<and>
    (\<forall>bid r b n. map_of (rg_map s) bid = Some r \<longrightarrow> map_of (rg_heap s) r = Some (b, n) \<longrightarrow>
      broker_id (bk_config b) = bid)"
proof -
  have inv: "registry_inv (cs, s)" using assms by (rule registry_reachable_inv)
  note D = registry_invD [OF inv]
  have cnt: "n = holders r cs \<and> 0 < n" if "map_of (rg_heap s) r = Some (b, n)" for r b n
    using that D(1,2) [of r] by (simp add: strong_count_def live_def)
  have "\<exists>b. map_of (rg_heap s) r = Some (b, holders r cs) \<and> broker_id (bk_config b) = bid"
    if "Inserting bid r \<in> set cs \<or> Holding bid r \<in> set cs" for bid r
  proof -
    have "ref_id r s = Some bid" using that D(6) [of "Inserting bid r"] D(6) [of "Holding bid r"] by auto
    then show ?thesis using cnt by (auto simp: ref_id_def)
  qed
  moreover have "broker_id (bk_config b) = bid"
    if "map_of (rg_map s) bid = Some r" "map_of (rg_heap s) r = Some (b, n)" for bid r b n
    using that D(5) [of bid r] by (auto simp: ref_id_def live_def)
  ultimately show ?thesis using cnt by blast
qed

abbreviation demo_client_config :: client_config where
  "demo_client_config \<equiv> config_set NUM_PARTITIONS ''2''
     (config_set BUFFER_CAPACITY ''10'' (config_set BROKER_ID ''b'' config_new))"

lemma demo_client_id: "config_get demo_client_config BROKER_ID = Some ''b''"
  by (simp add: config_keys)

abbreviation demo_registry :: "nat registry" where
  "demo_registry \<equiv> \<lparr>rg_map = [(''b'', 0)], rg_heap = [(0, (demo_broker, 1))], rg_next = 1\<rparr>"

lemma demo_first_call: "registry_get_or_create remdups demo_client_config registry_new = (Ok 0, demo_registry)"
  using demo_client_id demo_broker_new
  by (simp add: registry_get_or_create_def required_broker_id_def registry_lookup_def registry_new_def
      arc_new_def registry_insert_def)

theorem registry_brokers_live_witness:
  "\<exists>b. map_of (rg_heap demo_registry) 0 = Some (b, 1) \<and> broker_id (bk_config b) = ''b''"
  using registry_brokers_live [OF call_alone_steps [OF demo_first_call demo_client_id, of "[]", simplified]]
  by (auto simp: holders_def)

text \<open>C21: Clients with the same \<open>broker.id\<close> share a broker, when their calls do not overlap. If a
  call that returned a broker was made while no other call for the id was creating one, then for
  as long as the broker lives, whatever other callers do, every call for that id returns that
  broker, and the table keeps it under the id.\<close>

theorem registry_shares_broker:
  assumes "registry_get_or_create h config s = (Ok r, s1)" and "config_get config BROKER_ID = Some bid"
    and "\<forall>c \<in> set cs. \<not> at_work bid c"
    and "(\<lambda>x y. registry_step h x y \<and> live r (snd y))\<^sup>*\<^sup>* (cs @ [Holding bid r], s1) (cs', s')"
  shows "map_of (rg_map s') bid = Some r \<and>
    (\<forall>r'. Holding bid r' \<in> set cs' \<longrightarrow> r' = r \<or> Holding bid r' \<in> set cs) \<and>
    (\<forall>config'. config_get config' BROKER_ID = Some bid \<longrightarrow>
       fst (registry_get_or_create h config' s') = Ok r)"
proof -
  have start: "settled bid r (cs @ [Holding bid r], s1)"
    using get_or_create_registers [OF assms(1,2)] assms(3) by (simp add: settled_def)
  have "settled bid r y \<and> (\<forall>r'. Holding bid r' \<in> set (fst y) \<longrightarrow> r' = r \<or> Holding bid r' \<in> set cs)"
    if "(\<lambda>x y. registry_step h x y \<and> live r (snd y))\<^sup>*\<^sup>* (cs @ [Holding bid r], s1) y" for y
    using that
  proof (induction rule: rtranclp_induct)
    case base
    then show ?case using start by auto
  next
    case (step y z)
    then show ?case using step_settled [of h y z bid r] by blast
  qed
  from this [OF assms(4)] have st: "settled bid r (cs', s')"
    "\<forall>r'. Holding bid r' \<in> set cs' \<longrightarrow> r' = r \<or> Holding bid r' \<in> set cs" by auto
  have "fst (registry_get_or_create h config' s') = Ok r" if "config_get config' BROKER_ID = Some bid" for config'
    using lookup_settled [OF st(1)] that
    by (cases "registry_lookup bid s'") (auto simp: registry_get_or_create_def required_broker_id_def)
  then show ?thesis using st by (auto simp: settled_def)
qed

theorem registry_shares_broker_witness:
  "fst (registry_get_or_create remdups (config_set BROKER_ID ''b'' config_new) demo_registry) = Ok 0"
  using registry_shares_broker [OF demo_first_call demo_client_id _ rtranclp.rtrancl_refl, of "[]"]
  by (simp add: config_keys)

text \<open>Overlapping calls need not share a broker. Two callers of \<open>get_or_create\<close> with the same
  configuration can each be given a live broker of its own under the same id, because the table
  is not looked at again under the write lock: what one of them produces the other never sees.
  The table keeps the broker inserted last.\<close>

theorem registry_race:
  "\<exists>cs s :: nat registry. registry_reachable remdups (cs, s) \<and>
     cs = [Holding ''b'' 0, Holding ''b'' 1] \<and> live 0 s \<and> live 1 s \<and>
     map_of (rg_map s) ''b'' = Some 0 \<and>
     (\<exists>config. config_get config BROKER_ID = Some ''b'' \<and>
        fst (registry_get_or_create remdups config s) = Ok 0)"
proof -
  let ?c = demo_client_config and ?s0 = "registry_new :: nat registry"
  let ?s1 = "\<lparr>rg_map = [], rg_heap = [(0, (demo_broker, 1))], rg_next = 1\<rparr> :: nat registry"
  let ?s2 = "\<lparr>rg_map = [], rg_heap = [(0, (demo_broker, 1)), (1, (demo_broker, 1))], rg_next = 2\<rparr> :: nat registry"
  let ?s3 = "?s2\<lparr>rg_map := [(''b'', 1)]\<rparr>"
  let ?s4 = "?s2\<lparr>rg_map := [(''b'', 0)]\<rparr>"
  note id = demo_client_id and new = demo_broker_new
  have look: "caller_turn remdups (Calling ?c) ?s0 = (Creating ''b'' ?c, ?s0)"
    using id by (simp add: required_broker_id_def registry_lookup_def registry_new_def)
  have mk: "caller_turn remdups (Creating ''b'' ?c) ?s0 = (Inserting ''b'' 0, ?s1)"
    "caller_turn remdups (Creating ''b'' ?c) ?s1 = (Inserting ''b'' 1, ?s2)"
    using new by (simp_all add: arc_new_def registry_new_def)
  have ins: "caller_turn remdups (Inserting ''b'' 1) ?s2 = (Holding ''b'' 1, ?s3)"
    "caller_turn remdups (Inserting ''b'' 0) ?s3 = (Holding ''b'' 0, ?s4)"
    by (simp_all add: registry_insert_def)
  let ?step = "registry_step remdups"
  have at: "?step ([x], s) ([y], s')" "?step ([x, z], s) ([y, z], s')" "?step ([z, x], s) ([z, y], s')"
    if "caller_turn remdups x s = (y, s')" for x y z and s s' :: "nat registry"
    using reg_turn [where j = 0 and cs = "[x]"] reg_turn [where j = 0 and cs = "[x, z]"]
      reg_turn [where j = 1 and cs = "[z, x]"] that by simp_all
  have "?step ([], ?s0) ([Calling ?c], ?s0)"
    using reg_call [where cs = "[]"] by simp
  moreover have "?step ([Calling ?c], ?s0) ([Calling ?c, Calling ?c], ?s0)"
    using reg_call [where cs = "[Calling ?c]"] by simp
  moreover have "?step ([Calling ?c, Calling ?c], ?s0) ([Creating ''b'' ?c, Calling ?c], ?s0)"
    by (rule at(2) [OF look])
  moreover have "?step ([Creating ''b'' ?c, Calling ?c], ?s0) ([Creating ''b'' ?c, Creating ''b'' ?c], ?s0)"
    by (rule at(3) [OF look])
  moreover have "?step ([Creating ''b'' ?c, Creating ''b'' ?c], ?s0) ([Inserting ''b'' 0, Creating ''b'' ?c], ?s1)"
    by (rule at(2) [OF mk(1)])
  moreover have "?step ([Inserting ''b'' 0, Creating ''b'' ?c], ?s1) ([Inserting ''b'' 0, Inserting ''b'' 1], ?s2)"
    by (rule at(3) [OF mk(2)])
  moreover have "?step ([Inserting ''b'' 0, Inserting ''b'' 1], ?s2) ([Inserting ''b'' 0, Holding ''b'' 1], ?s3)"
    by (rule at(3) [OF ins(1)])
  moreover have "?step ([Inserting ''b'' 0, Holding ''b'' 1], ?s3) ([Holding ''b'' 0, Holding ''b'' 1], ?s4)"
    by (rule at(2) [OF ins(2)])
  ultimately have "registry_reachable remdups ([Holding ''b'' 0, Holding ''b'' 1], ?s4)"
    by (meson r_into_rtranclp rtranclp.rtrancl_into_rtrancl)
  moreover have "live 0 ?s4" "live 1 ?s4" by (simp_all add: live_def)
  moreover have "fst (registry_get_or_create remdups ?c ?s4) = Ok 0"
    using id by (simp add: registry_get_or_create_def required_broker_id_def registry_lookup_def weak_upgrade_def)
  ultimately show ?thesis using id by fastforce
qed

text \<open>A client without a \<open>broker.id\<close> panics. \<open>get_or_create\<close> reads the id before
  \<open>BrokerConfig\<close> has checked the configuration, so that the \<open>InvalidConfig\<close> error which creating
  the broker would give is not returned; every other invalid configuration of an id that is not
  in the table gives the error of \<open>Broker::new\<close> and leaves the table alone.\<close>

theorem get_or_create_invalid:
  assumes "broker_new h config = (Err e :: ('v in_memory, 'v) broker res)"
    and "\<And>bid. config_get config BROKER_ID = Some bid \<Longrightarrow> map_of (rg_map s) bid = None"
  shows "registry_get_or_create h config s =
    ((if config_get config BROKER_ID = None
      then Panic (ExpectNone ''broker.id is required (validated by BrokerConfig)'') else Err e),
     s :: 'v registry) \<and>
    (config_get config BROKER_ID = None \<longrightarrow> e = InvalidConfig ''broker.id is required'')"
proof (cases "config_get config BROKER_ID")
  case None
  then have "broker_config_from config = Err (InvalidConfig ''broker.id is required'')"
    by (simp add: broker_config_from_def BROKER_ID_def)
  then show ?thesis
    using None assms(1) by (simp add: registry_get_or_create_def required_broker_id_def broker_new_def)
next
  case (Some bid)
  then show ?thesis
    using assms by (simp add: registry_get_or_create_def required_broker_id_def registry_lookup_def)
qed

theorem get_or_create_invalid_witness:
  "registry_get_or_create remdups config_new (registry_new :: nat registry) =
     (Panic (ExpectNone ''broker.id is required (validated by BrokerConfig)''), registry_new)"
  using get_or_create_invalid [of remdups config_new "InvalidConfig ''broker.id is required''" "registry_new :: nat registry"]
  by (simp add: broker_new_def broker_config_from_def config_keys config_new_def config_get_def)

end
