(* ===== verification/Clients.thy ===== *)
theory Clients
  imports Registry Typed Stream_Consumer
begin

text \<open>
  How clients get their broker: the constructors of all producers and consumers, which take the
  broker for their configuration from the registry. A client is the reference it holds and its
  own state; the operations of the other theories run on the broker behind the reference.
\<close>

definition base_producer_open ::
    "(string list \<Rightarrow> string list) \<Rightarrow> client_config \<Rightarrow> 'v registry
     \<Rightarrow> (broker_ref \<times> base_producer) res \<times> 'v registry" where
  "base_producer_open h config s =
     (case registry_get_or_create h config s of (r, s') \<Rightarrow> (res_map (\<lambda>b. (b, base_producer_new)) r, s'))"

definition base_producer_clone ::
    "broker_ref \<times> base_producer \<Rightarrow> 'v registry \<Rightarrow> (broker_ref \<times> base_producer) \<times> 'v registry" where
  "base_producer_clone p s = (p, arc_retain (fst p) s)"

definition future_producer_open ::
    "(string list \<Rightarrow> string list) \<Rightarrow> client_config \<Rightarrow> 'v registry
     \<Rightarrow> (broker_ref \<times> base_producer) res \<times> 'v registry" where
  "future_producer_open h config s = base_producer_open h config s"

definition stream_producer_open ::
    "(string list \<Rightarrow> string list) \<Rightarrow> client_config \<Rightarrow> 'v registry
     \<Rightarrow> (broker_ref \<times> base_producer) res \<times> 'v registry" where
  "stream_producer_open h config s = base_producer_open h config s"

text \<open>The member id needs the wall clock in nanoseconds and the process-wide counter.\<close>

definition base_consumer_open ::
    "(string list \<Rightarrow> string list) \<Rightarrow> client_config \<Rightarrow> nat option \<Rightarrow> 64 word \<Rightarrow> 'v registry
     \<Rightarrow> (broker_ref \<times> rmq_consumer) res \<times> 'v registry" where
  "base_consumer_open h config nanos counter s =
     (case registry_get_or_create h config s of
        (r, s') \<Rightarrow> (res_map (\<lambda>b. (b, consumer_with_context config nanos counter)) r, s'))"

definition stream_consumer_open ::
    "(string list \<Rightarrow> string list) \<Rightarrow> client_config \<Rightarrow> nat option \<Rightarrow> 64 word \<Rightarrow> 'v registry
     \<Rightarrow> (broker_ref \<times> stream_consumer) res \<times> 'v registry" where
  "stream_consumer_open h config nanos counter s =
     (case base_consumer_open h config nanos counter s of
        (r, s') \<Rightarrow> (res_map (\<lambda>(b, c). (b, stream_consumer_of c)) r, s'))"

definition typed_producer_open ::
    "(string list \<Rightarrow> string list) \<Rightarrow> client_config \<Rightarrow> 'v registry \<Rightarrow> broker_ref res \<times> 'v registry" where
  "typed_producer_open h config s = registry_get_or_create h config s"

definition typed_producer_clone :: "broker_ref \<Rightarrow> 'v registry \<Rightarrow> broker_ref \<times> 'v registry" where
  "typed_producer_clone b s = (b, arc_retain b s)"

definition typed_consumer_open ::
    "(string list \<Rightarrow> string list) \<Rightarrow> client_config \<Rightarrow> nat option \<Rightarrow> 64 word \<Rightarrow> 'v registry
     \<Rightarrow> (broker_ref \<times> typed_consumer) res \<times> 'v registry" where
  "typed_consumer_open h config nanos counter s =
     (case base_consumer_open h config nanos counter s of
        (r, s') \<Rightarrow> (res_map (\<lambda>(b, c). (b, \<lparr>tc_inner = c\<rparr>)) r, s'))"

text \<open>The trait \<open>FromRmqConfig\<close>: the clients are made by their constructors, so with the registry's
  broker; a broker itself is made anew and not entered into the registry.\<close>

definition broker_from_config ::
    "(string list \<Rightarrow> string list) \<Rightarrow> client_config \<Rightarrow> ('v in_memory, 'v) broker res" where
  "broker_from_config h config = broker_new h config"

definition base_producer_from_config ::
    "(string list \<Rightarrow> string list) \<Rightarrow> client_config \<Rightarrow> 'v registry
     \<Rightarrow> (broker_ref \<times> base_producer) res \<times> 'v registry" where
  "base_producer_from_config h config s = base_producer_open h config s"

definition future_producer_from_config ::
    "(string list \<Rightarrow> string list) \<Rightarrow> client_config \<Rightarrow> 'v registry
     \<Rightarrow> (broker_ref \<times> base_producer) res \<times> 'v registry" where
  "future_producer_from_config h config s = future_producer_open h config s"

definition stream_producer_from_config ::
    "(string list \<Rightarrow> string list) \<Rightarrow> client_config \<Rightarrow> 'v registry
     \<Rightarrow> (broker_ref \<times> base_producer) res \<times> 'v registry" where
  "stream_producer_from_config h config s = stream_producer_open h config s"

definition base_consumer_from_config ::
    "(string list \<Rightarrow> string list) \<Rightarrow> client_config \<Rightarrow> nat option \<Rightarrow> 64 word \<Rightarrow> 'v registry
     \<Rightarrow> (broker_ref \<times> rmq_consumer) res \<times> 'v registry" where
  "base_consumer_from_config h config nanos counter s = base_consumer_open h config nanos counter s"

definition stream_consumer_from_config ::
    "(string list \<Rightarrow> string list) \<Rightarrow> client_config \<Rightarrow> nat option \<Rightarrow> 64 word \<Rightarrow> 'v registry
     \<Rightarrow> (broker_ref \<times> stream_consumer) res \<times> 'v registry" where
  "stream_consumer_from_config h config nanos counter s = stream_consumer_open h config nanos counter s"

text \<open>An operation of a client runs on the broker behind its reference.\<close>

definition at_broker ::
    "broker_ref \<Rightarrow> (('v in_memory, 'v) broker \<Rightarrow> 'a \<times> ('v in_memory, 'v) broker) \<Rightarrow> 'v registry
     \<Rightarrow> 'a option \<times> 'v registry" where
  "at_broker r f s =
     (case map_of (rg_heap s) r of
        Some (b, n) \<Rightarrow> (case f b of (x, b') \<Rightarrow> (Some x, s\<lparr>rg_heap := AList.update r (b', n) (rg_heap s)\<rparr>))
      | None \<Rightarrow> (None, s))"

lemma at_broker_sel [simp]:
  "rg_map (snd (at_broker r f s)) = rg_map s" "rg_next (snd (at_broker r f s)) = rg_next s"
  "strong_count r' (snd (at_broker r f s)) = strong_count r' s"
  "live r' (snd (at_broker r f s)) = live r' s"
  by (auto simp: at_broker_def strong_count_def live_def split: option.splits prod.splits)

lemma get_or_create_found:
  assumes "map_of (rg_map s) bid = Some r" and "live r s" and "config_get config BROKER_ID = Some bid"
  shows "registry_get_or_create h config s = (Ok r, arc_retain r s)"
  using assms
  by (auto simp: registry_get_or_create_def required_broker_id_def registry_lookup_def
      weak_upgrade_def live_def)

section \<open>The contract of a constructor\<close>

text \<open>Every constructor of a client answers with a client of the broker that the registry gives for the
  configuration, and with the error the registry gives, and changes nothing but the registry.\<close>

locale client_constructor =
  fixes open_client :: "(string list \<Rightarrow> string list) \<Rightarrow> client_config \<Rightarrow> 'v registry \<Rightarrow> 'c res \<times> 'v registry"
    and broker_of :: "'c \<Rightarrow> broker_ref"
  assumes opens: "res_map broker_of (fst (open_client h config s)) = fst (registry_get_or_create h config s)"
    and registers: "snd (open_client h config s) = snd (registry_get_or_create h config s)"
begin

lemma opened:
  assumes "open_client h config s = (Ok c, s1)"
  shows "registry_get_or_create h config s = (Ok (broker_of c), s1)"
  using opens [of h config s] registers [of h config s] assms by (simp add: prod_eq_iff)

text \<open>The next client for that \<open>broker.id\<close> finds the broker as this one has left it.\<close>

lemma next_client:
  assumes "open_client h config s = (Ok c, s1)" and "config_get config' BROKER_ID = config_get config BROKER_ID"
    and "at_broker (broker_of c) f s1 = (Some x, s2)"
  shows "registry_get_or_create h config' s2 = (Ok (broker_of c), arc_retain (broker_of c) s2) \<and>
    map_option fst (map_of (rg_heap (arc_retain (broker_of c) s2)) (broker_of c)) =
      map_option (snd \<circ> f \<circ> fst) (map_of (rg_heap s1) (broker_of c)) \<and>
    strong_count (broker_of c) (arc_retain (broker_of c) s2) = strong_count (broker_of c) s1 + 1"
proof -
  let ?r = "broker_of c"
  have first: "registry_get_or_create h config s = (Ok ?r, s1)" using assms(1) by (rule opened)
  obtain bid where bid: "config_get config BROKER_ID = Some bid"
    using first by (cases "config_get config BROKER_ID")
      (auto simp: registry_get_or_create_def required_broker_id_def)
  have reg: "map_of (rg_map s1) bid = Some ?r" "live ?r s1"
    using get_or_create_registers [OF first bid] by simp_all
  then have s2: "map_of (rg_map s2) bid = Some ?r" "live ?r s2" "strong_count ?r s2 = strong_count ?r s1"
    using at_broker_sel [where r = ?r and f = f and s = s1] assms(3) by simp_all
  have "registry_get_or_create h config' s2 = (Ok ?r, arc_retain ?r s2)"
    using get_or_create_found [OF s2(1,2)] assms(2) bid by simp
  moreover have "map_option fst (map_of (rg_heap (arc_retain ?r s2)) ?r) =
      map_option (snd \<circ> f \<circ> fst) (map_of (rg_heap s1) ?r)"
    using assms(3) by (auto simp: at_broker_def arc_retain_def split: option.splits prod.splits)
  ultimately show ?thesis using s2 by simp
qed

text \<open>Without \<open>broker.id\<close> no client is made.\<close>

lemma needs_broker_id:
  "config_get config BROKER_ID = None \<Longrightarrow> \<not> is_ok (fst (open_client h config s))"
  using opens [of h config s]
  by (auto simp: registry_get_or_create_def required_broker_id_def is_ok_iff)

end

lemmas opening_defs = base_producer_from_config_def future_producer_from_config_def stream_producer_from_config_def
  base_consumer_from_config_def stream_consumer_from_config_def base_producer_open_def
  future_producer_open_def stream_producer_open_def base_consumer_open_def stream_consumer_open_def
  typed_producer_open_def typed_consumer_open_def

lemma res_map_twice: "res_map f (res_map g r) = res_map (\<lambda>x. f (g x)) r"
  by (cases r) simp_all

lemma res_map_same [simp]: "res_map (\<lambda>x. x) r = r"
  by (cases r) simp_all

interpretation base_producers: client_constructor base_producer_from_config fst
  by unfold_locales (simp_all add: opening_defs split_beta res_map_twice)

interpretation future_producers: client_constructor future_producer_from_config fst
  by unfold_locales (simp_all add: opening_defs split_beta res_map_twice)

interpretation stream_producers: client_constructor stream_producer_from_config fst
  by unfold_locales (simp_all add: opening_defs split_beta res_map_twice)

interpretation base_consumers: client_constructor "\<lambda>h config. base_consumer_from_config h config nanos counter" fst
  for nanos counter
  by unfold_locales (simp_all add: opening_defs split_beta res_map_twice)

interpretation stream_consumers: client_constructor "\<lambda>h config. stream_consumer_from_config h config nanos counter" fst
  for nanos counter
  by unfold_locales (simp_all add: opening_defs split_beta res_map_twice)

interpretation typed_producers: client_constructor typed_producer_open "\<lambda>r. r"
  by unfold_locales (simp_all add: opening_defs)

interpretation typed_consumers: client_constructor "\<lambda>h config. typed_consumer_open h config nanos counter" fst
  for nanos counter
  by unfold_locales (simp_all add: opening_defs split_beta res_map_twice)


section \<open>Properties\<close>

text \<open>C32: A producer and a consumer opened with the same \<open>broker.id\<close>, one after the other, are at the
  same broker, whatever the rest of their configurations: what the producer did to the broker
  before the consumer was opened is what the consumer finds, and each holds one more reference.\<close>

theorem producer_and_consumer_meet:
  assumes "base_producer_open h config s = (Ok (r, bp), s1)"
    and "config_get config' BROKER_ID = config_get config BROKER_ID"
    and "at_broker r f s1 = (Some x, s2)"
  shows "\<exists>s3. base_consumer_open h config' nanos counter s2 =
      (Ok (r, consumer_with_context config' nanos counter), s3) \<and>
    map_option fst (map_of (rg_heap s3) r) = map_option (snd \<circ> f \<circ> fst) (map_of (rg_heap s1) r) \<and>
    strong_count r s3 = strong_count r s1 + 1"
  using base_producers.next_client [of h config s "(r, bp)" s1 config' f x s2] assms
  by (simp add: base_producer_from_config_def base_consumer_open_def)

theorem producer_and_consumer_meet_witness:
  "\<exists>s3. base_consumer_open remdups (config_set GROUP_ID ''g'' (config_set BROKER_ID ''b'' config_new)) None 0
      demo_registry = (Ok (0, consumer_with_context (config_set GROUP_ID ''g'' (config_set BROKER_ID ''b'' config_new)) None 0), s3) \<and>
    strong_count 0 s3 = 2"
proof -
  let ?c = "config_set GROUP_ID ''g'' (config_set BROKER_ID ''b'' config_new)"
  have p: "base_producer_open remdups demo_client_config registry_new = (Ok (0, base_producer_new), demo_registry)"
    using demo_first_call by (simp add: base_producer_open_def)
  have f: "at_broker 0 (\<lambda>b. ((), b)) demo_registry = (Some (), demo_registry)"
    by (simp add: at_broker_def)
  have id: "config_get ?c BROKER_ID = config_get demo_client_config BROKER_ID"
    by (simp add: config_keys)
  have "strong_count 0 demo_registry = 1" by (simp add: strong_count_def)
  then show ?thesis
    using producer_and_consumer_meet [OF p id f, where nanos = None and counter = 0] by auto
qed

end
