(* ===== verification/Spec2Isabelle.thy ===== *)
theory Spec2Isabelle
  imports
    Rmq_Prelude
    Rmq_Error
    Headers
    Message
    Topic_Partition
    Commit_Log
    Partition
    Partitioner
    Config
    Topic
    Backend_Api
    Backend
    Offset_Store
    Assignor
    Consumer_Group
    Broker
    Base_Consumer
    Log_Service
    Rmq_Record
    Producers
    Delivery
    Provenance
    Draining
    Group_Consumers
    Shared_Consumer
    Concurrent_Produce
    Concurrent_Groups
    Cut_Fetch
    Typed
    Stream_Consumer
    Registry
    Clients
begin

text \<open>
  A verification development for RMemQueue, an in-process, in-memory message queue with the
  interface of a Kafka client (a Rust crate; the files named below are under \<open>src/\<close> of the crate).

  \<^bold>\<open>The program.\<close> A \<open>Broker\<close> owns a storage backend, the consumer groups, the committed offsets, a
  partitioner and an assignor. The in-memory backend maps topic names to topics; a topic is a
  vector of partitions; a partition is a bounded log with consecutive offsets. Producers call
  \<open>Broker::produce\<close>, which creates the topic if need be, lets the partitioner choose a partition,
  and appends. Consumers keep a position per assigned partition and call
  \<open>Broker::fetch_one_from_position\<close>, which reads one message at the position, or after the
  group's committed offset, or at the oldest message; a position that has fallen out of the log
  is answered by an error that names the low watermark, and the consumer moves there. A member
  that joins a group makes the assignor divide the partitions among all members anew, and
  gets its own share as the answer; the others learn of theirs when they subscribe again.

  \<^bold>\<open>Theories and code.\<close>
  \<^item> \<open>Rmq_Prelude\<close>: the Rust types; wrap-around of \<open>i32\<close>, \<open>i64\<close>, \<open>usize\<close>; hash maps as association
    lists; what an operation reads of the clocks.
  \<^item> \<open>Rmq_Error\<close> (\<open>error.rs\<close>): the error enum, results \<open>Ok\<close>, \<open>Err\<close>, \<open>Panic\<close>, and the sequencing of
    fallible steps, pure (\<open>res_bind\<close>) and on a state (\<open>st_bind\<close>, the \<open>?\<close> operator).
  \<^item> \<open>Headers\<close>, \<open>Message\<close>, \<open>Topic_Partition\<close> (\<open>headers.rs\<close>, \<open>message.rs\<close>, \<open>topic_partition.rs\<close>): the data.
  \<^item> \<open>Commit_Log\<close>: the abstract contract of a log with a moving window, and what any reader that
    follows it observes (locale \<open>commit_log\<close>).
  \<^item> \<open>Partition\<close> (\<open>partition.rs\<close>): append with capacity trimming and eviction policies, single and
    bulk reads, watermarks, eviction; steps and reachable partitions. Interprets \<open>commit_log\<close>.
  \<^item> \<open>Partitioner\<close> (\<open>partitioner.rs\<close>): round robin, consistent (FNV-1a on \<open>64 word\<close>) and random
    choice, against the contract \<open>partitioner_contract\<close>.
  \<^item> \<open>Config\<close> (\<open>config.rs\<close>): the string map and the typed broker configuration.
  \<^item> \<open>Topic\<close> (\<open>topic.rs\<close>): the vector of partitions, bounds checks, metadata.
  \<^item> \<open>Backend_Api\<close> (\<open>backend.rs\<close>, \<open>metadata.rs\<close>): the trait \<open>BrokerBackend\<close> as a record of operations,
    and its contract as the locale \<open>broker_backend\<close>.
  \<^item> \<open>Backend\<close> (\<open>broker_backend.rs\<close>): the in-memory backend; interprets \<open>broker_backend\<close>.
  \<^item> \<open>Offset_Store\<close>, \<open>Assignor\<close>, \<open>Consumer_Group\<close> (\<open>offset_store.rs\<close>, \<open>assignor.rs\<close>,
    \<open>consumer_group.rs\<close>): committed offsets, round-robin assignment, joining and leaving, with the
    contracts \<open>offset_store_contract\<close> and \<open>partition_assignor\<close>.
  \<^item> \<open>Broker\<close> (\<open>broker.rs\<close>): all operations over any backend; its lemmas on producing and fetching
    are proved once from the backend's contract, its properties on the in-memory backend.
  \<^item> \<open>Base_Consumer\<close> (\<open>base_consumer.rs\<close>, parts of \<open>consumer.rs\<close> and \<open>context.rs\<close>): the polling
    consumer, its iterator and the callbacks of its context.
  \<^item> \<open>Log_Service\<close>: the abstract specification of the broker as a message store, one history and
    one low watermark per partition, and the simulation that the broker implements it.
  \<^item> \<open>Rmq_Record\<close> (\<open>record.rs\<close>): bytes of keys and payloads, with UTF-8 at the level of bytes, and
    the record builder.
  \<^item> \<open>Producers\<close> (\<open>base_producer.rs\<close>, \<open>producer.rs\<close>, \<open>future_producer.rs\<close>, \<open>stream_producer.rs\<close>,
    the producer's side of \<open>context.rs\<close>): sending with the delivery callback, the future and the
    sink built on it.
  \<^item> \<open>Delivery\<close>: lemmas on one message from its produce to its poll, shared by the properties that
    span components.
  \<^item> \<open>Provenance\<close>: runs of a broker with the sends made in them; what every poll can return.
  \<^item> \<open>Draining\<close>: what a series of polls of one consumer amounts to: fairness among its partitions,
    and that it empties a broker that stands still.
  \<^item> \<open>Group_Consumers\<close>: several consumers of one group, each with what it knows of its assignment.
  \<^item> \<open>Shared_Consumer\<close>: one consumer polled by several threads; \<open>poll_once\<close> cut at the points where
    it takes and gives back the lock of the consumer's state.
  \<^item> \<open>Concurrent_Produce\<close>: produces that run at once; \<open>produce\<close> and \<open>produce_typed\<close> cut at the points
    where they take and give back the locks of the broker, the backend and the partition.
  \<^item> \<open>Concurrent_Groups\<close>: joins and leaves that run at once; \<open>join_group\<close> and \<open>leave_group\<close> cut in the
    same way, with the read lock of the groups that a leave holds over its turns.
  \<^item> \<open>Cut_Fetch\<close>: the fetches of a poll cut at their locks, twelve looks at the broker at most, with
    the broker going on in between.
  \<^item> \<open>Typed\<close> (\<open>typed.rs\<close>): producers and consumers of objects whose type is found at run time.
  \<^item> \<open>Stream_Consumer\<close> (\<open>stream_consumer.rs\<close>, the delegation macro of \<open>consumer.rs\<close>): \<open>recv\<close> as a loop
    with its suspension points, and the stream's \<open>poll_next\<close> with its effects.
  \<^item> \<open>Registry\<close> (\<open>registry.rs\<close>): the table of brokers by \<open>broker.id\<close> with weak references, over a
    heap of reference-counted brokers.
  \<^item> \<open>Clients\<close>: the constructors of all producers and consumers, which take their broker from the
    registry, against the contract \<open>client_constructor\<close>.

  \<^bold>\<open>State and operations.\<close> A Rust struct is a record with its fields; an operation that takes
  \<open>&self\<close> and locks a part of it is a function from the state to a result and the new state. The
  result is what the Rust function returns: \<open>Ok\<close>, \<open>Err\<close> with the error, or \<open>Panic\<close> where the code
  indexes out of bounds, unwraps or divides by zero. The errors of nested calls are passed on
  in the order of the calls, and the state changes made before an error stay.

  \<^bold>\<open>What is shown.\<close> For a partition: the window invariant; total descriptions of append, read,
  bulk read and eviction; that a message still in the window never changes; and that a reader
  receives messages in order, without a gap other than evicted ones. For the partitioners:
  the chosen partition is in range (with the exact bound where \<open>i32\<close> overflows), fairness,
  determinism by key. For configuration: round trip, defaults. For the backend, groups,
  assignor and broker: frame conditions and results of every operation, disjoint and balanced
  assignments, what a produce changes and that it changes nothing else, finality of a shutdown
  and which operations still answer after it, and the invariant of all reachable brokers. For the
  consumer: in-order delivery while the broker runs on between any two fetches, an available
  message is found by one round of polling, a poll goes on until its deadline and then returns, seeking, and what
  committing a message means for the next fetch.

  Across components: every run of the broker is a run of the log service, and a fetch answers
  what the log service would; every message a consumer gets was sent to that topic, with that
  content; typed consumers see only the type that was sent, if all senders to the topic agree
  on it; a poll of an open broker reports no error but a shutdown. The producers all come
  to the same call of the broker, and their context is told once of each send. Strings survive the
  way through bytes. The registry never gives out a dropped broker, and clients with one
  \<open>broker.id\<close> get one broker as long as it lives, unless the calls that create it overlap. An
  asynchronous receive is a sequence of polls and so delivers in order as they do.

  Under concurrency: the models cut at the locks agree with those of the components when nothing
  comes in between (the lemmas \<open>produce_turns_at_once\<close>, \<open>group_turns_at_once\<close>, \<open>fetch_cut_standing\<close>
  and \<open>poll_once_cut_whole\<close>; they compare two models of the same code and say nothing else of
  it). Produces that interleave are all kept, each at a place of its own, are
  steps of the log service too, and fail for no other reason than a single one would. A join or a
  leave works with partition counts it has read before, and yet takes effect at one moment, the
  turn in which it takes the lock of the group: what decides this is that topics never lose
  their partitions, and the lock a leave holds. Joins and leaves never block each other for ever.
  In-order delivery to a consumer holds look by look, not only fetch by fetch. Threads
  that poll one consumer lose no message, but may return one twice, and a seek in between
  can be lost (\<open>shared_poll_duplicates\<close>, \<open>shared_seek_is_lost\<close>). The consumers of a group divide the
  partitions without overlap once each has subscribed again after the last one joined, and
  then nothing is received twice in the group, and all of it is received when the broker stands
  still; before that their assignments overlap (\<open>first_round_overlaps\<close>). No partition is
  starved by the others of its consumer. What was acknowledged, by whichever of any number of
  produces at once, arrives at a consumer that drains the broker afterwards. This theory
  holds the properties that span the whole path, from a produce to the poll that returns the
  message, for bytes and for strings.

  \<^bold>\<open>Assumptions of the model.\<close> Arithmetic wraps, as in a release build. Operations that hold a lock
  are atomic; the operations of the broker interleave in any order (\<open>broker_step\<close>), and a poll
  sees another broker state at each of its fetches. The iteration order of a hash map is a
  parameter with the law \<open>hash_order\<close> (every element once). Clock readings are arguments, in
  milliseconds or nanoseconds; nothing is assumed of them unless a property says so. A partition
  whose next offset would leave \<open>i64\<close> is outside the properties on appends (a hypothesis bounds
  the end offset by \<open>2 ^ 63 - 1\<close>). The attempts of \<open>poll\<close> are bounded by a fuel argument;
  \<open>poll_returns\<close> shows that one more than the number of attempts until the deadline is enough.
  \<open>recv\<close> may wait for ever when nothing is sent; its iterations are bounded by a second fuel
  argument, and \<open>recv_and_stream_agree\<close> shows that one iteration is enough when a message is there.
  An iteration of \<open>poll\<close> reads the clock to compare it with the deadline and again to see how long to
  wait; the model has one reading, \<open>now k\<close>, the one compared, since the wait changes nothing.
  A client of the stream consumer sees another broker after every suspension point.
  Four operations are also given at the grain of their locks, where they run concurrently: the
  produce on the in-memory backend, the join and the leave of a group, and the fetch of a poll;
  each interleaves with calls of its own kind and with the other operations of the broker as
  whole steps. So is the poll of a consumer that threads share, with its fetches whole; the other
  operations of a shared consumer that leave its positions alone are whole steps in between. A
  shutdown may come between any two turns, also where the code would make it wait for a lock. It is
  itself one step: \<open>Broker::shutdown\<close> sets the broker's flag, gives back the lock and then calls
  the backend's \<open>shutdown\<close>, and the moment in between, with only the first flag set, is not among
  the states of the concurrent runs.
  The number of turns of a join or a leave is bounded by \<open>call_budget\<close>.

  \<^bold>\<open>Parameters.\<close> Code of other crates is an argument: when a \<open>tokio\<close> notification completes (the
  functions \<open>notified\<close>, with what is relied on as named hypotheses), and the two functions of
  \<open>serde_json\<close>. So is the iteration order of a hash map.

  \<^bold>\<open>Not modelled.\<close> The module declarations and re-exports of \<open>lib.rs\<close>; logging, debug formatting
  and the feature flags; and the scheduling of threads and tasks, beyond the points at which they
  give way to each other. Handles and getters that only pass a field on are record selectors.
\<close>

section \<open>From the producer to the consumer\<close>

text \<open>C1: From the producer to the consumer. On an open in-memory broker without retention limits
  and with a buffer capacity other than one, a message produced to any existing or new topic,
  to a given partition or a routed one, is what a consumer gets that is assigned that partition
  and stands at its end: the poll after the produce returns a message with the key, payload,
  headers and timestamp produced, at the offset the produce reports, and puts the consumer
  right after it.\<close>

theorem produced_message_is_polled:
  assumes "mem_broker h br" and "\<not> bk_shutdown br"
    and "n = seen_count (inmem_count (bk_backend br) topic) br" and "n < 2 ^ 31"
    and "q = routed topic k n part (bk_partitioner br)" and "0 \<le> q" and "q < n"
    and "off = (case inmem_partition (bk_backend br) topic q of Some p \<Rightarrow> end_offset p | None \<Rightarrow> 0)"
    and "off + 1 < 2 ^ 63"
    and "make_partition_config (bk_backend br) =
      \<lparr>pc_max_capacity = cap, pc_retention_ms = None, pc_retention_capacity = None\<rparr>" and "cap \<noteq> 1"
    and "broker_produce clk topic part k pl hs (Some ts) br = (r, br')"
    and "tpl_keys (cn_assigned c) = [(topic, q)]" and "(topic, q) \<notin> set (cn_paused c)"
    and "map_of (cn_position c) (topic, q) = Some off"
  shows "r = Ok \<lparr>rmd_topic = topic, rmd_partition = q, rmd_offset = off, rmd_timestamp = ts\<rparr> \<and>
    (\<exists>m. fst (poll_once (\<lambda>_. br') c) = Some (Ok (borrowed_new m)) \<and>
       msg_topic m = topic \<and> msg_partition m = q \<and> msg_offset m = off \<and>
       msg_key m = k \<and> msg_payload m = pl \<and> msg_headers m = hs \<and> msg_timestamp m = ts \<and>
       map_of (cn_position (snd (poll_once (\<lambda>_. br') c))) (topic, q) = Some (off + 1))"
proof -
  note run = produced_then_polled [OF assms]
  then show ?thesis
    by (intro conjI exI [of _ "stored_new k pl topic q off ts hs (mono clk 0)"]) simp_all
qed

theorem produced_message_is_polled_witness:
  "\<exists>m. fst (poll_once (\<lambda>_. snd (broker_produce demo_clock ''t'' (Some 1) (Some [2]) (Some [7]) None
       (Some 5) demo_broker)) waiting_consumer) = Some (Ok (borrowed_new m)) \<and>
     msg_payload m = Some [7] \<and> msg_offset m = 0"
  using produced_message_is_polled [OF demo_broker_mem, where n = 2 and topic = "''t''"
      and k = "Some [2]" and part = "Some 1" and q = 1 and off = 0 and cap = 10 and clk = demo_clock
      and pl = "Some [7]" and hs = None and ts = 5 and c = waiting_consumer, OF _ _ _ _ _ _ _ _ _ _
      prod.collapse [symmetric]]
  by (auto simp: routed_def make_partition_config_def demo_broker_config_def)

text \<open>C2: What was acknowledged arrives. Let any number of produces run at once, interleaved with each
  other and with the other operations of the broker. Then a consumer in step with its partitions,
  polling the broker as it is afterwards, receives every message that was acknowledged in
  one of its partitions at or after where it starts there, with the content the producer
  sent and the timestamp it was told, at the place it was told, unless the message has been
  evicted meanwhile.\<close>

theorem acknowledged_messages_arrive:
  assumes "mem_broker h br0" and "hash_order h"
    and "(producing qs)\<^sup>*\<^sup>* (br0, replicate (length qs) ProduceBegin) (br, ts)"
    and "\<not> bk_shutdown br" and "\<forall>key \<in> polled_keys c. in_step br c key"
  shows "\<exists>n ms c'. polls n br c = (map (\<lambda>m. Some (Ok (borrowed_new m))) ms, c') \<and>
    (\<forall>k < length qs. \<forall>meta x. ts ! k = ProduceEnd (Ok meta) \<longrightarrow>
       (rmd_topic meta, rmd_partition meta) \<in> polled_keys c \<longrightarrow>
       starts_at br c (rmd_topic meta, rmd_partition meta) = Ok x \<longrightarrow> x \<le> rmd_offset meta \<longrightarrow>
       (\<exists>p. inmem_partition (bk_backend br) (rmd_topic meta) (rmd_partition meta) = Some p \<and> rmd_offset meta < first_offset p) \<or>
       (\<exists>m \<in> set ms. msg_topic m = rmd_topic meta \<and> msg_partition m = rmd_partition meta \<and>
          msg_offset m = rmd_offset meta \<and> msg_timestamp m = rmd_timestamp meta \<and> carries (rq_sending (qs ! k)) m))"
proof -
  note run = run_acked [OF assms(3,1,2)]
  obtain ms c' n where ms: "polls n br c = (map (\<lambda>m. Some (Ok (borrowed_new m))) ms, c')"
    "\<And>t i. (t, i) \<in> polled_keys c \<Longrightarrow> of_partition t i ms = backlog br c (t, i)"
    using polls_drain [OF run(1) assms(4,5) refl] by auto
  have "(\<exists>p. inmem_partition (bk_backend br) (rmd_topic meta) (rmd_partition meta) = Some p \<and> rmd_offset meta < first_offset p) \<or>
      (\<exists>m \<in> set ms. msg_topic m = rmd_topic meta \<and> msg_partition m = rmd_partition meta \<and>
         msg_offset m = rmd_offset meta \<and> msg_timestamp m = rmd_timestamp meta \<and> carries (rq_sending (qs ! k)) m)"
    if k: "k < length qs" "ts ! k = ProduceEnd (Ok meta)" and key: "(rmd_topic meta, rmd_partition meta) \<in> polled_keys c"
      and x: "starts_at br c (rmd_topic meta, rmd_partition meta) = Ok x" "x \<le> rmd_offset meta" for k meta x
  proof -
    obtain p where p: "inmem_partition (bk_backend br) (rmd_topic meta) (rmd_partition meta) = Some p"
      "rmd_offset meta < first_offset p \<or> (\<exists>m. read_one p (rmd_offset meta) = Ok (Some m) \<and>
         carries (rq_sending (qs ! k)) m \<and> msg_timestamp m = rmd_timestamp meta)"
      using run(2) [OF k] by (auto simp: acked_def)
    show ?thesis
    proof (cases "rmd_offset meta < first_offset p")
      case False
      then obtain m where m: "read_one p (rmd_offset meta) = Ok (Some m)" "carries (rq_sending (qs ! k)) m"
        "msg_timestamp m = rmd_timestamp meta" using p(2) by blast
      then have "m \<in> set (backlog br c (rmd_topic meta, rmd_partition meta)) \<and> msg_offset m = rmd_offset meta"
        using read_in_backlog [OF run(1) _ m(1), of "(rmd_topic meta, rmd_partition meta)" c x] p(1) x by simp
      then have "m \<in> set (of_partition (rmd_topic meta) (rmd_partition meta) ms)" "msg_offset m = rmd_offset meta"
        using ms(2) [OF key] by simp_all
      then show ?thesis using m(2,3) by (auto simp: of_partition_def)
    qed (use p(1) in blast)
  qed
  then show ?thesis using ms(1) by blast
qed

definition both_consumer :: rmq_consumer where
  "both_consumer = (fresh_consumer None ''c'')\<lparr>cn_assigned :=
     tpl_add_partition ''t'' 1 (tpl_add_partition ''t'' 0 tpl_new)\<rparr>"

theorem acknowledged_messages_arrive_witness:
  "\<exists>br meta n ms c' p. (producing [demo_call [7], demo_call [8]])\<^sup>*\<^sup>* (demo_broker, replicate 2 ProduceBegin)
     (br, [ProduceEnd (Ok meta), ProduceBegin]) \<and>
     polls n br both_consumer = (map (\<lambda>m. Some (Ok (borrowed_new m))) ms, c') \<and>
     inmem_partition (bk_backend br) ''t'' (rmd_partition meta) = Some p \<and>
     (rmd_offset meta < first_offset p \<or> (\<exists>m \<in> set ms. msg_offset m = rmd_offset meta \<and> msg_payload m = Some [7]))"
proof -
  let ?qs = "[demo_call [7], demo_call [8]]"
  obtain br meta where run: "(producing ?qs)\<^sup>*\<^sup>* (demo_broker, replicate 2 ProduceBegin) (br, [ProduceEnd (Ok meta), ProduceBegin])"
    "\<not> bk_shutdown br" "inmem_count (bk_backend br) ''t'' = Some 2"
    using demo_calls_run by blast
  then have run': "(producing ?qs)\<^sup>*\<^sup>* (demo_broker, replicate (length ?qs) ProduceBegin) (br, [ProduceEnd (Ok meta), ProduceBegin])"
    by (simp add: numeral_2_eq_2)
  note mem = run_acked(1) [OF run' demo_broker_mem hash_order_remdups]
  have ack: "acked (bk_backend br) (demo_call [7]) meta"
    using run_acked(2) [OF run' demo_broker_mem hash_order_remdups, of 0 meta] by simp
  then have t: "rmd_topic meta = ''t''" by (simp add: acked_def demo_call_def)
  obtain p where p: "inmem_partition (bk_backend br) ''t'' (rmd_partition meta) = Some p" "rmd_offset meta < end_offset p"
    using ack by (auto simp: acked_def t)
  have "0 \<le> rmd_partition meta \<and> rmd_partition meta < 2"
    using inmem_partition_count [OF mem_brokerD(4) [OF mem], of "''t''" "rmd_partition meta"] p(1) run(3) by simp
  then have key: "(rmd_topic meta, rmd_partition meta) \<in> polled_keys both_consumer"
    by (auto simp: t polled_keys_def both_consumer_def fresh_consumer_def tpl_keys_def tpl_add_partition_def tpl_new_def)
  have fresh: "cn_position both_consumer = []" "cn_group_id both_consumer = None"
    by (simp_all add: both_consumer_def fresh_consumer_def)
  then have "\<forall>key \<in> polled_keys both_consumer. in_step br both_consumer key"
    by (auto intro!: in_step_fresh [OF mem run(2)])
  from acknowledged_messages_arrive [OF demo_broker_mem hash_order_remdups run' run(2) this]
  obtain n ms c' where ms: "polls n br both_consumer = (map (\<lambda>m. Some (Ok (borrowed_new m))) ms, c')"
    and got: "\<And>x. starts_at br both_consumer (''t'', rmd_partition meta) = Ok x \<Longrightarrow> x \<le> rmd_offset meta \<Longrightarrow>
      rmd_offset meta < first_offset p \<or> (\<exists>m \<in> set ms. msg_offset m = rmd_offset meta \<and> carries (rq_sending (demo_call [7])) m)"
    using key p(1) t by fastforce
  have "starts_at br both_consumer (''t'', rmd_partition meta) = Ok (first_offset p)"
    if "first_offset p \<le> rmd_offset meta"
    using starts_fresh [OF mem run(2), of "(''t'', rmd_partition meta)" p both_consumer] p that fresh by simp
  then have "rmd_offset meta < first_offset p \<or> (\<exists>m \<in> set ms. msg_offset m = rmd_offset meta \<and> carries (rq_sending (demo_call [7])) m)"
    using got by (cases "rmd_offset meta < first_offset p") auto
  then have "rmd_offset meta < first_offset p \<or> (\<exists>m \<in> set ms. msg_offset m = rmd_offset meta \<and> msg_payload m = Some [7])"
    by (auto simp: demo_call_def)
  then show ?thesis using run(1) ms p(1) by blast
qed

text \<open>C11: A string sent is the string received. Under the same conditions, a record with a string key
  and a string payload, built with the setters of \<open>BaseRecord\<close> and sent by the base producer, is
  received by the consumer waiting at the end of its partition, whose \<open>payload()\<close> and \<open>key()\<close> at
  type \<open>String\<close> are the strings sent; the producer's context has been told of the delivery once,
  with the offset at which the consumer finds the message.\<close>

theorem sent_strings_are_received:
  assumes "mem_broker h br" and "\<not> bk_shutdown br"
    and "n = seen_count (inmem_count (bk_backend br) topic) br" and "n < 2 ^ 31"
    and "0 \<le> q" and "q < n"
    and "off = (case inmem_partition (bk_backend br) topic q of Some p \<Rightarrow> end_offset p | None \<Rightarrow> 0)"
    and "off + 1 < 2 ^ 63"
    and "make_partition_config (bk_backend br) =
      \<lparr>pc_max_capacity = cap, pc_retention_ms = None, pc_retention_capacity = None\<rparr>" and "cap \<noteq> 1"
    and "base_send string_to_bytes string_to_bytes clk
      (record_timestamp ts (record_partition q (record_key k (record_payload s (record_to topic))))) bp br =
      (x, bp', br')"
    and "tpl_keys (cn_assigned c) = [(topic, q)]" and "(topic, q) \<notin> set (cn_paused c)"
    and "map_of (cn_position c) (topic, q) = Some off"
    and "valid_unicode s" and "valid_unicode k"
  shows "\<exists>b meta. fst (poll_once (\<lambda>_. br') c) = Some (Ok b) \<and>
    decode_payload string_from_bytes b = Some s \<and> decode_key string_from_bytes b = Some k \<and>
    x = Sent meta \<and> rmd_offset meta = msg_offset (bm_inner b) \<and>
    bp_deliveries bp' = bp_deliveries bp @ [(Sent meta, meta)]"
proof -
  let ?k = "Some (string_to_bytes k)" and ?s = "Some (string_to_bytes s)"
  obtain r where r: "broker_produce clk topic (Some q) ?k ?s None (Some ts) br = (r, br')"
    using assms(11) by (auto simp: base_send_def Let_def record_defs split: prod.splits res.splits)
  have q: "q = routed topic ?k n (Some q) (bk_partitioner br)" by (simp add: routed_def)
  note run = produced_then_polled [OF assms(1-4) q assms(5-10) r assms(12-14)]
  let ?meta = "\<lparr>rmd_topic = topic, rmd_partition = q, rmd_offset = off, rmd_timestamp = ts\<rparr>"
  have sent: "x = Sent ?meta" "bp' = call_delivery (Sent ?meta) ?meta bp"
    using assms(11) r run(1) by (auto simp: base_send_def Let_def record_defs)
  let ?b = "borrowed_new (stored_new ?k ?s topic q off ts None (mono clk 0)) :: 'a borrowed_message"
  have "decode_payload string_from_bytes ?b = Some s" "decode_key string_from_bytes ?b = Some k"
    using utf8_decode_encode assms(15,16)
    by (simp_all add: decode_payload_def decode_key_def borrowed_new_def string_from_bytes_def)
  then show ?thesis
    using run(2) sent
    by (intro exI [of _ ?b]) (simp add: borrowed_new_def call_delivery_def)
qed

theorem sent_strings_are_received_witness:
  "\<exists>b. fst (poll_once (\<lambda>_. snd (snd (base_send string_to_bytes string_to_bytes demo_clock
      (record_timestamp 5 (record_partition 1 (record_key [0x6B] (record_payload [0x20AC] (record_to ''t'')))))
      base_producer_new demo_broker))) waiting_consumer) = Some (Ok b) \<and>
    decode_payload string_from_bytes b = Some [0x20AC]"
proof -
  let ?r = "record_timestamp 5 (record_partition 1 (record_key [0x6B] (record_payload [0x20AC] (record_to ''t''))))"
  obtain x bp' br' where sent: "base_send string_to_bytes string_to_bytes demo_clock ?r base_producer_new demo_broker = (x, bp', br')"
    by (metis prod_cases3)
  show ?thesis
    using sent_strings_are_received [OF demo_broker_mem, where n = 2 and topic = "''t''" and q = 1 and off = 0
        and cap = 10 and clk = demo_clock and c = waiting_consumer and k = "[0x6B]" and s = "[0x20AC]"
        and ts = 5 and bp = base_producer_new, OF _ _ _ _ _ _ _ _ _ sent]
    by (auto simp: sent routed_def make_partition_config_def demo_broker_config_def valid_unicode_def
        scalar_value_def)
qed

end
